(* ===== verification/Prelude.thy ===== *)
theory Prelude
  imports Complex_Main "HOL-Library.Word" "HOL-Library.List_Lexorder"
    "HOL-Library.Signed_Division" "HOL-Library.Multiset"
begin

text \<open>
  What every component of the model shares: bytes and byte slices, the outcome of a Go call
  that may stop the process or panic, signed machine integers with their wrap-around, Go's
  truncating remainder, positional numerals (the work \<^verbatim>\<open>math/big\<close> does for the program), and
  generic list lemmas. The collections \<open>outcome_simps\<close>, \<open>wrap_simps\<close> and
  \<open>codec_simps\<close> carry the facts the component proofs use.
\<close>

named_theorems outcome_simps \<open>unfolding the outcome monad\<close>
named_theorems wrap_simps \<open>signed machine integers inside their range\<close>
named_theorems codec_simps \<open>encoders cancelled by their decoders\<close>

section \<open>Bytes\<close>

type_synonym byte = "8 word"
type_synonym bytes = "byte list"

text \<open>The bytes of an ASCII string, as Go's conversion \<^verbatim>\<open>[]byte(s)\<close> gives them.\<close>

definition ascii :: "string \<Rightarrow> bytes" where
  "ascii s = map of_char s"

section \<open>Outcomes\<close>

text \<open>
  A call that returns gives \<open>Ok\<close>; \<open>Exit\<close> is \<^verbatim>\<open>log.Err\<close>, \<^verbatim>\<open>log.Errln\<close> and \<^verbatim>\<open>log.Errf\<close>, which end
  in \<^verbatim>\<open>os.Exit(1)\<close>; \<open>Panic\<close> is a run-time panic (index out of range, nil dereference, division
  by zero, an explicit \<^verbatim>\<open>panic\<close>); \<open>Hang\<close> is a call that never returns. A Go \<^verbatim>\<open>error\<close> result is an ordinary value and is a \<open>sum\<close>
  inside \<open>Ok\<close>.
\<close>

datatype 'a outcome = Ok 'a | Exit | Panic | Hang

primrec obind :: "'a outcome \<Rightarrow> ('a \<Rightarrow> 'b outcome) \<Rightarrow> 'b outcome" where
  "obind (Ok x) f = f x"
| "obind Exit f = Exit"
| "obind Panic f = Panic"
| "obind Hang f = Hang"

text \<open>A loop that may run forever is a function to \<open>option\<close>, whose \<open>None\<close> is not returning.\<close>

definition returns :: "'a option \<Rightarrow> 'a outcome" where
  "returns r = (case r of None \<Rightarrow> Hang | Some x \<Rightarrow> Ok x)"

text \<open>A \<^verbatim>\<open>for range\<close> loop whose body updates a state and may stop.\<close>

primrec ofold :: "('a \<Rightarrow> 's \<Rightarrow> 's outcome) \<Rightarrow> 'a list \<Rightarrow> 's \<Rightarrow> 's outcome" where
  "ofold f [] s = Ok s"
| "ofold f (x # xs) s = obind (f x s) (ofold f xs)"

text \<open>An array or slice read: out of range is a panic.\<close>

definition oindex :: "'a list \<Rightarrow> int \<Rightarrow> 'a outcome" where
  "oindex xs i = (if 0 \<le> i \<and> i < int (length xs) then Ok (xs ! nat i) else Panic)"

text \<open>An assignment to an array element, and a slice expression \<^verbatim>\<open>xs[i:j]\<close> with \<^verbatim>\<open>j <= len(xs)\<close>.\<close>

definition oupdate :: "'a list \<Rightarrow> int \<Rightarrow> 'a \<Rightarrow> 'a list outcome" where
  "oupdate xs i x = (if 0 \<le> i \<and> i < int (length xs) then Ok (xs[nat i := x]) else Panic)"

definition oslice :: "'a list \<Rightarrow> int \<Rightarrow> int \<Rightarrow> 'a list outcome" where
  "oslice xs i j =
     (if 0 \<le> i \<and> i \<le> j \<and> j \<le> int (length xs) then Ok (take (nat (j - i)) (drop (nat i) xs)) else Panic)"

lemma obind_eq_Ok [simp]: "obind m f = Ok y \<longleftrightarrow> (\<exists>x. m = Ok x \<and> f x = Ok y)"
  by (cases m) auto

lemma obind_Ok_right [simp]: "obind m Ok = m"
  by (cases m) auto

lemma obind_assoc: "obind (obind m f) g = obind m (\<lambda>x. obind (f x) g)"
  by (cases m) auto

lemma returns_Some [simp]: "returns (Some x) = Ok x" "returns r = Ok x \<longleftrightarrow> r = Some x"
  by (auto simp: returns_def split: option.splits)

lemma obind_cong [fundef_cong]:
  "m = m' \<Longrightarrow> (\<And>x. m' = Ok x \<Longrightarrow> f x = f' x) \<Longrightarrow> obind m f = obind m' f'"
  by (cases m') auto

lemma ofold_append: "ofold f (xs @ ys) s = obind (ofold f xs s) (ofold f ys)"
proof (induction xs arbitrary: s)
  case (Cons x xs)
  then have "ofold f (xs @ ys) = (\<lambda>t. obind (ofold f xs t) (ofold f ys))"
    by (rule ext)
  then show ?case by (simp add: obind_assoc)
qed simp

lemma ofold_single [simp]: "ofold f [x] = f x"
proof
  fix s
  show "ofold f [x] s = f x s" by (cases "f x s") auto
qed

lemma ofold_Ok: "(\<And>x s. x \<in> set xs \<Longrightarrow> f x s = Ok (g x s)) \<Longrightarrow> ofold f xs s = Ok (fold g xs s)"
  by (induction xs arbitrary: s) auto

lemma ofold_invariant:
  assumes "ofold f xs s = Ok t" and "P s"
    and "\<And>x s t. x \<in> set xs \<Longrightarrow> P s \<Longrightarrow> f x s = Ok t \<Longrightarrow> P t"
  shows "P t"
  using assms by (induction xs arbitrary: s) auto

lemma oindex_Ok_iff: "oindex xs i = Ok x \<longleftrightarrow> 0 \<le> i \<and> i < int (length xs) \<and> xs ! nat i = x"
  by (auto simp: oindex_def)

lemma oindex_nat [simp]: "i < length xs \<Longrightarrow> oindex xs (int i) = Ok (xs ! i)"
  by (simp add: oindex_def)

declare oindex_def [outcome_simps] oupdate_def [outcome_simps] oslice_def [outcome_simps]

section \<open>Machine integers\<close>

text \<open>
  A Go \<^verbatim>\<open>int32\<close> or \<^verbatim>\<open>int64\<close> is an \<open>int\<close> in range; \<open>i32\<close> and \<open>i64\<close> bring the exact result of an
  operation back into range the way two's complement arithmetic does.
\<close>

definition i32 :: "int \<Rightarrow> int" where
  "i32 x = (x + 2 ^ 31) mod 2 ^ 32 - 2 ^ 31"

definition i64 :: "int \<Rightarrow> int" where
  "i64 x = (x + 2 ^ 63) mod 2 ^ 64 - 2 ^ 63"

abbreviation in_i32 :: "int \<Rightarrow> bool" where
  "in_i32 x \<equiv> - (2 ^ 31) \<le> x \<and> x < 2 ^ 31"

abbreviation in_i64 :: "int \<Rightarrow> bool" where
  "in_i64 x \<equiv> - (2 ^ 63) \<le> x \<and> x < 2 ^ 63"

lemma i32_id [wrap_simps]: "in_i32 x \<Longrightarrow> i32 x = x"
  by (simp add: i32_def)

lemma i64_id [wrap_simps]: "in_i64 x \<Longrightarrow> i64 x = x"
  by (simp add: i64_def)

lemma i32_range: "in_i32 (i32 x)"
proof -
  have "0 \<le> (x + 2 ^ 31) mod 2 ^ 32" and "(x + 2 ^ 31) mod 2 ^ 32 < (2 ^ 32 :: int)"
    by simp_all
  then show ?thesis by (simp add: i32_def)
qed

lemma i64_range: "in_i64 (i64 x)"
proof -
  have "0 \<le> (x + 2 ^ 63) mod 2 ^ 64" and "(x + 2 ^ 63) mod 2 ^ 64 < (2 ^ 64 :: int)"
    by simp_all
  then show ?thesis by (simp add: i64_def)
qed

lemma i64_add_left [simp]: "i64 (i64 x + y) = i64 (x + y)"
proof -
  have "((x + 2 ^ 63) mod 2 ^ 64 - 2 ^ 63 + y + 2 ^ 63) mod 2 ^ 64
      = ((x + 2 ^ 63) mod 2 ^ 64 + y) mod (2 ^ 64 :: int)"
    by (simp add: algebra_simps)
  also have "\<dots> = (x + 2 ^ 63 + y) mod 2 ^ 64"
    by (rule mod_add_left_eq)
  finally show ?thesis by (simp add: i64_def algebra_simps)
qed

text \<open>Go's \<open>%\<close> truncates towards zero: its result has the sign of the dividend.\<close>

abbreviation gomod :: "int \<Rightarrow> int \<Rightarrow> int" where
  "gomod a b \<equiv> a smod b"

lemma gomod_pos [simp]: "0 \<le> a \<Longrightarrow> 0 < b \<Longrightarrow> gomod a b = a mod b"
  by (cases "a = 0") (simp_all add: signed_modulo_int_def)

section \<open>Positional numerals\<close>

text \<open>
  \<open>from_digits b\<close> reads a list of digits, most significant first; \<open>to_digits b\<close> writes a number
  with no leading zero, so zero is the empty list, as \<^verbatim>\<open>big.Int.Bytes\<close> gives it.
\<close>

definition from_digits :: "nat \<Rightarrow> nat list \<Rightarrow> nat" where
  "from_digits b ds = foldl (\<lambda>a d. a * b + d) 0 ds"

function to_digits :: "nat \<Rightarrow> nat \<Rightarrow> nat list" where
  "to_digits b n = (if n = 0 \<or> b < 2 then [] else to_digits b (n div b) @ [n mod b])"
  by pat_completeness auto
termination
  by (relation "measure snd") auto

declare to_digits.simps [simp del]

lemma from_digits_Nil [simp]: "from_digits b [] = 0"
  by (simp add: from_digits_def)

lemma from_digits_snoc [simp]: "from_digits b (ds @ [d]) = from_digits b ds * b + d"
  by (simp add: from_digits_def)

lemma to_digits_0 [simp]: "to_digits b 0 = []"
  by (simp add: to_digits.simps)

lemma to_digits_step: "2 \<le> b \<Longrightarrow> 0 < n \<Longrightarrow> to_digits b n = to_digits b (n div b) @ [n mod b]"
  by (subst to_digits.simps) simp

lemma from_to_digits [simp]: "2 \<le> b \<Longrightarrow> from_digits b (to_digits b n) = n"
proof (induction b n rule: to_digits.induct)
  case (1 b n)
  then show ?case
    by (cases "n = 0") (simp_all add: to_digits_step)
qed

lemma to_digits_less: "2 \<le> b \<Longrightarrow> d \<in> set (to_digits b n) \<Longrightarrow> d < b"
proof (induction b n rule: to_digits.induct)
  case (1 b n)
  then show ?case
    by (cases "n = 0") (auto simp: to_digits_step)
qed

lemma to_digits_Suc_digit:
  "2 \<le> b \<Longrightarrow> d < b \<Longrightarrow> 0 < n * b + d \<Longrightarrow> to_digits b (n * b + d) = to_digits b n @ [d]"
  by (simp add: to_digits_step)

lemma from_digits_0_iff: "0 < b \<Longrightarrow> from_digits b ds = 0 \<longleftrightarrow> (\<forall>d \<in> set ds. d = 0)"
  by (induction ds rule: rev_induct) auto

lemma dropWhile_0_snoc:
  "dropWhile (\<lambda>d. d = (0::nat)) (ds @ [d]) =
     (if \<forall>x \<in> set ds. x = 0 then dropWhile (\<lambda>d. d = 0) [d] else dropWhile (\<lambda>d. d = 0) ds @ [d])"
  by (induction ds) auto

text \<open>Writing what was read gives the digits back without their leading zeros.\<close>

lemma to_from_digits:
  "2 \<le> b \<Longrightarrow> \<forall>d \<in> set ds. d < b \<Longrightarrow> to_digits b (from_digits b ds) = dropWhile (\<lambda>d. d = 0) ds"
proof (induction ds rule: rev_induct)
  case Nil
  then show ?case by simp
next
  case (snoc d ds)
  then have IH: "to_digits b (from_digits b ds) = dropWhile (\<lambda>d. d = 0) ds" and "d < b"
    by auto
  show ?case
  proof (cases "from_digits b ds * b + d = 0")
    case True
    with snoc.prems(1) have "from_digits b ds = 0" and "d = 0" by auto
    then show ?thesis
      using snoc.prems(1) from_digits_0_iff [of b ds] by (simp add: dropWhile_0_snoc)
  next
    case False
    show ?thesis
    proof (cases "\<forall>x \<in> set ds. x = 0")
      case True
      with False snoc.prems(1) have "from_digits b ds = 0" and "d \<noteq> 0"
        by (auto simp: from_digits_0_iff)
      with True \<open>d < b\<close> snoc.prems(1) show ?thesis
        by (simp add: dropWhile_0_snoc to_digits_step)
    next
      case False2: False
      with False \<open>d < b\<close> snoc.prems(1) IH show ?thesis
        by (simp add: to_digits_Suc_digit dropWhile_0_snoc)
    qed
  qed
qed

lemma to_digits_not_0_hd: "2 \<le> b \<Longrightarrow> to_digits b n \<noteq> [] \<Longrightarrow> hd (to_digits b n) \<noteq> 0"
proof -
  assume b: "2 \<le> b" and ne: "to_digits b n \<noteq> []"
  have "to_digits b n = dropWhile (\<lambda>d. d = 0) (to_digits b n)"
    using to_from_digits [OF b, of "to_digits b n"] to_digits_less [OF b] b by simp
  with ne show ?thesis by (metis (mono_tags, lifting) hd_dropWhile)
qed

subsection \<open>Big-endian bytes\<close>

text \<open>\<^verbatim>\<open>big.Int.SetBytes\<close> and \<^verbatim>\<open>big.Int.Bytes\<close>.\<close>

definition SetBytes :: "bytes \<Rightarrow> nat" where
  "SetBytes bs = from_digits 256 (map unat bs)"

definition Bytes :: "nat \<Rightarrow> bytes" where
  "Bytes n = map of_nat (to_digits 256 n)"

lemma unat_byte_less [simp]: "unat (x :: byte) < 256"
  using unsigned_less [of x] by simp

lemma map_of_nat_unat [simp]: "map (of_nat \<circ> unat) (bs :: bytes) = bs"
  by (induction bs) auto

lemma dropWhile_map_unat:
  "dropWhile (\<lambda>d. d = 0) (map unat (bs :: bytes)) = map unat (dropWhile (\<lambda>b. b = 0) bs)"
  by (induction bs) (auto simp: unsigned_eq_0_iff)

lemma Bytes_SetBytes [codec_simps]: "Bytes (SetBytes bs) = dropWhile (\<lambda>b. b = 0) bs"
proof -
  have "to_digits 256 (from_digits 256 (map unat bs)) = dropWhile (\<lambda>d. d = 0) (map unat bs)"
    by (rule to_from_digits) auto
  then show ?thesis
    by (simp add: Bytes_def SetBytes_def dropWhile_map_unat)
qed

lemma map_unat_of_nat_digits: "map (unat \<circ> (of_nat :: nat \<Rightarrow> byte)) (to_digits 256 n) = to_digits 256 n"
  by (rule map_idI) (use to_digits_less [of 256 _ n] in \<open>auto simp: unat_of_nat\<close>)

lemma SetBytes_Bytes [codec_simps]: "SetBytes (Bytes n) = n"
  by (simp add: SetBytes_def Bytes_def map_unat_of_nat_digits)

section \<open>Lists\<close>

lemma drop_Cons_conv: "drop i xs = y # ys \<longleftrightarrow> i < length xs \<and> y = xs ! i \<and> ys = drop (Suc i) xs"
  by (metis Cons_nth_drop_Suc drop_all linorder_not_le list.distinct(1) list.inject)


text \<open>The last \<open>n\<close> elements, all of them when there are fewer.\<close>

definition lastn :: "nat \<Rightarrow> 'a list \<Rightarrow> 'a list" where
  "lastn n xs = drop (length xs - n) xs"

lemma lastn_all [simp]: "length xs \<le> n \<Longrightarrow> lastn n xs = xs"
  by (simp add: lastn_def)

lemma length_lastn [simp]: "length (lastn n xs) = min n (length xs)"
  by (simp add: lastn_def)

lemma lastn_lastn_append [simp]: "lastn n (lastn n xs @ ys) = lastn n (xs @ ys)"
proof (cases "n \<le> length xs")
  case True
  then show ?thesis by (simp add: lastn_def add.commute)
qed simp

lemma takeWhile_dropWhile_const:
  "takeWhile (\<lambda>x. x = a) xs = replicate (length (takeWhile (\<lambda>x. x = a) xs)) a"
  by (induction xs) auto

lemma replicate_takeWhile_append:
  "replicate (length (takeWhile (\<lambda>x. x = a) xs)) a @ dropWhile (\<lambda>x. x = a) xs = xs"
  by (metis takeWhile_dropWhile_const takeWhile_dropWhile_id)

end
