(* ===== verification/Logging.thy ===== *)
theory Logging
  imports Prelude
begin

text \<open>
  \<^verbatim>\<open>log/log.go\<close>: the levels of the log, the prefix of a line, and the two mutexes that the calls take and release.
\<close>

section \<open>The logger\<close>

text \<open>
  The variables of the package. A line that was printed is kept with the prefix it had. What \<^verbatim>\<open>runtime\<close> tells of the running goroutine is the
  record \<open>goroutine\<close>: the text of its stack, and file and line of the callers by their distance.
\<close>

record prefix =
  pPort :: string
  pRoutine :: string
  pTag :: string
  pFile :: string
  pLine :: int

record logger =
  callLevel :: int
  logLevel :: nat
  port :: string
  prefix_held :: bool
  level_held :: bool
  log_prefix :: prefix
  printed :: "(prefix \<times> string) list"

record goroutine =
  stack :: string
  caller :: "int \<Rightarrow> string \<times> int"

text \<open>A goroutine that locks a mutex that is held waits; nothing else runs here, so it waits forever. To unlock a free mutex is fatal.\<close>

definition lock_prefix :: "logger \<Rightarrow> logger outcome" where
  "lock_prefix L = (if prefix_held L then Hang else Ok (L\<lparr>prefix_held := True\<rparr>))"

definition unlock_prefix :: "logger \<Rightarrow> logger outcome" where
  "unlock_prefix L = (if prefix_held L then Ok (L\<lparr>prefix_held := False\<rparr>) else Exit)"

definition lock_level :: "logger \<Rightarrow> logger outcome" where
  "lock_level L = (if level_held L then Hang else Ok (L\<lparr>level_held := True\<rparr>))"

definition unlock_level :: "logger \<Rightarrow> logger outcome" where
  "unlock_level L = (if level_held L then Ok (L\<lparr>level_held := False\<rparr>) else Exit)"

section \<open>Text\<close>

fun strings_Index :: "string \<Rightarrow> string \<Rightarrow> int" where
  "strings_Index [] key = (if key = [] then 0 else -1)"
| "strings_Index (c # s) key =
     (if take (length key) (c # s) = key then 0
      else let i = strings_Index s key in if i < 0 then -1 else i + 1)"

text \<open>\<^verbatim>\<open>s[k:]\<close>.\<close>

definition slice_from :: "string \<Rightarrow> int \<Rightarrow> string outcome" where
  "slice_from s k = (if k < 0 \<or> int (length s) < k then Panic else Ok (drop (nat k) s))"

definition source_key :: string where
  "source_key = ''blockchain''"

fun strings_Split :: "string \<Rightarrow> string list" where
  "strings_Split [] = [[]]"
| "strings_Split (c # s) =
     (if c = CHR 0x0A then [] # strings_Split s
      else case strings_Split s of [] \<Rightarrow> [[c]] | t # ts \<Rightarrow> (c # t) # ts)"

section \<open>Printing\<close>

definition Register :: "nat \<Rightarrow> string \<Rightarrow> logger \<Rightarrow> logger" where
  "Register level p L = L\<lparr>logLevel := level, port := p\<rparr>"

text \<open>\<^verbatim>\<open>setPrefix\<close> locks \<^verbatim>\<open>prefixMutex\<close> and leaves it locked. The clock in the prefix is left out. The buffer for the stack has 20 bytes.\<close>

definition setPrefix :: "goroutine \<Rightarrow> string \<Rightarrow> logger \<Rightarrow> logger outcome" where
  "setPrefix R tag L =
     (case caller R (callLevel L) of (file, line) \<Rightarrow>
        let index = strings_Index file source_key in
        obind (if 0 \<le> index then slice_from file (index + int (length source_key) + 1) else Ok file) (\<lambda>file.
        obind (lock_prefix L) (\<lambda>L.
          Ok (L\<lparr>log_prefix := \<lparr>pPort = port L, pRoutine = takeWhile (\<lambda>c. c \<noteq> CHR '' '') (drop 10 (take 20 (stack R))), pTag = tag, pFile = file, pLine = line\<rparr>\<rparr>))))"

definition SetCallerLevel :: "int \<Rightarrow> logger \<Rightarrow> logger outcome" where
  "SetCallerLevel level L =
     obind (if level \<noteq> 0 then lock_level L else unlock_level L) (\<lambda>L. Ok (L\<lparr>callLevel := level + 2\<rparr>))"

definition log_Println :: "string \<Rightarrow> logger \<Rightarrow> logger" where
  "log_Println str L = L\<lparr>printed := printed L @ [(log_prefix L, str)]\<rparr>"

definition logPrint :: "string \<Rightarrow> logger \<Rightarrow> logger" where
  "logPrint str L = fold log_Println (filter (\<lambda>s. s \<noteq> []) (strings_Split str)) L"

text \<open>The body that the functions for the levels share; \<open>text\<close> is the formatted text. The forms with a format differ only in that.\<close>

definition print_as :: "goroutine \<Rightarrow> string \<Rightarrow> string \<Rightarrow> logger \<Rightarrow> logger outcome" where
  "print_as R tag text L = obind (setPrefix R tag L) (\<lambda>L. unlock_prefix (logPrint text L))"

definition Traceln :: "goroutine \<Rightarrow> string \<Rightarrow> logger \<Rightarrow> logger outcome" where
  "Traceln R text L = print_as R ''TRACE'' text L"

definition Debugln :: "goroutine \<Rightarrow> string \<Rightarrow> logger \<Rightarrow> logger outcome" where
  "Debugln R text L = (if logLevel L < 3 then Ok L else print_as R ''DEBUG'' text L)"

definition Infoln :: "goroutine \<Rightarrow> string \<Rightarrow> logger \<Rightarrow> logger outcome" where
  "Infoln R text L = (if logLevel L < 2 then Ok L else print_as R ''INFO'' text L)"

definition Warnln :: "goroutine \<Rightarrow> string \<Rightarrow> logger \<Rightarrow> logger outcome" where
  "Warnln R text L = (if logLevel L < 1 then Ok L else print_as R ''WARN'' text L)"

definition Warn :: "goroutine \<Rightarrow> string option \<Rightarrow> logger \<Rightarrow> logger outcome" where
  "Warn R err L =
     (case err of None \<Rightarrow> Ok L
      | Some text \<Rightarrow> obind (SetCallerLevel 1 L) (\<lambda>L. obind (Warnln R text L) (SetCallerLevel 0)))"

text \<open>The level is unsigned, so the test \<^verbatim>\<open>logLevel < 0\<close> never holds and the process ends.\<close>

definition Errln :: "goroutine \<Rightarrow> string \<Rightarrow> logger \<Rightarrow> logger outcome" where
  "Errln R text L = obind (print_as R ''ERROR'' text L) (\<lambda>_. Exit)"

definition Err :: "goroutine \<Rightarrow> string option \<Rightarrow> logger \<Rightarrow> logger outcome" where
  "Err R err L =
     (case err of None \<Rightarrow> Ok L
      | Some text \<Rightarrow> obind (SetCallerLevel 1 L) (Errln R text))"

text \<open>The loop of \<^verbatim>\<open>PrintStack\<close> over five callers, outermost first; \<open>line_of\<close> formats a line, and a caller that does not exist is skipped.\<close>

fun stack_lines :: "(int \<Rightarrow> (string \<times> int \<times> string) option) \<Rightarrow> (string \<Rightarrow> int \<Rightarrow> string \<Rightarrow> string) \<Rightarrow> int list \<Rightarrow> logger \<Rightarrow> logger outcome" where
  "stack_lines frame line_of [] L = Ok L"
| "stack_lines frame line_of (i # is) L =
     (case frame (2 + 4 - i) of None \<Rightarrow> stack_lines frame line_of is L
      | Some (file, line, name) \<Rightarrow>
          let index = strings_Index file source_key;
              (key, index) = (if index = -1 then (''github.com'', strings_Index file ''github.com'') else (source_key, index))
          in obind (slice_from file (index + int (length key) + 1)) (\<lambda>file.
             stack_lines frame line_of is (log_Println (line_of file line name) L)))"

definition PrintStack ::
  "goroutine \<Rightarrow> (int \<Rightarrow> (string \<times> int \<times> string) option) \<Rightarrow> (string \<Rightarrow> int \<Rightarrow> string \<Rightarrow> string) \<Rightarrow> logger \<Rightarrow> logger outcome" where
  "PrintStack R frame line_of L =
     obind (lock_level L) (\<lambda>L.
     obind (setPrefix R ''STACK'' L) (\<lambda>L.
     obind (stack_lines frame line_of [0, 1, 2, 3, 4] (log_Println ''===================================='' L)) unlock_level))"

definition NotImplement ::
  "goroutine \<Rightarrow> (int \<Rightarrow> (string \<times> int \<times> string) option) \<Rightarrow> (string \<Rightarrow> int \<Rightarrow> string \<Rightarrow> string) \<Rightarrow> logger \<Rightarrow> logger outcome" where
  "NotImplement R frame line_of L =
     obind (PrintStack R frame line_of L) (\<lambda>L. obind (SetCallerLevel 1 L) (Errln R ''NotImplement''))"

section \<open>Sequences of calls\<close>

text \<open>The ways in which the program calls the package and goes on; \<open>Framed\<close> is the pattern of \<^verbatim>\<open>network/call.go\<close>.\<close>

datatype log_call = Trace string | Debug string | Info string | WarnLine string | WarnErr "string option" | Framed int string

fun run_call :: "goroutine \<Rightarrow> log_call \<Rightarrow> logger \<Rightarrow> logger outcome" where
  "run_call R (Trace text) L = Traceln R text L"
| "run_call R (Debug text) L = Debugln R text L"
| "run_call R (Info text) L = Infoln R text L"
| "run_call R (WarnLine text) L = Warnln R text L"
| "run_call R (WarnErr err) L = Warn R err L"
| "run_call R (Framed level text) L = obind (SetCallerLevel level L) (\<lambda>L. obind (Debugln R text L) (SetCallerLevel 0))"

text \<open>What a call prints at a level: its tag and its lines that are not empty.\<close>

definition shown_from :: "nat \<Rightarrow> string \<Rightarrow> string \<Rightarrow> nat \<Rightarrow> (string \<times> string) list" where
  "shown_from least tag text level = (if level < least then [] else map (Pair tag) (filter (\<lambda>s. s \<noteq> []) (strings_Split text)))"

fun shown :: "nat \<Rightarrow> log_call \<Rightarrow> (string \<times> string) list" where
  "shown level (Trace text) = shown_from 0 ''TRACE'' text level"
| "shown level (Debug text) = shown_from 3 ''DEBUG'' text level"
| "shown level (Info text) = shown_from 2 ''INFO'' text level"
| "shown level (WarnLine text) = shown_from 1 ''WARN'' text level"
| "shown level (WarnErr err) = (case err of None \<Rightarrow> [] | Some text \<Rightarrow> shown_from 1 ''WARN'' text level)"
| "shown level (Framed n text) = shown_from 3 ''DEBUG'' text level"

definition idle :: "logger \<Rightarrow> bool" where
  "idle L \<longleftrightarrow> \<not> prefix_held L \<and> \<not> level_held L \<and> callLevel L = 2"

text \<open>No caller's file ends at the name of the program, so that cutting its path does not panic.\<close>

definition named_files :: "goroutine \<Rightarrow> bool" where
  "named_files R \<longleftrightarrow> (\<forall>n. let file = fst (caller R n) in
     strings_Index file source_key < 0 \<or> strings_Index file source_key + int (length source_key) + 1 \<le> int (length file))"

definition lines_of :: "logger \<Rightarrow> (string \<times> string) list" where
  "lines_of L = map (\<lambda>(p, s). (pTag p, s)) (printed L)"

section \<open>Properties\<close>

lemma setPrefix_ok:
  assumes "named_files R" and "\<not> prefix_held L"
  shows "\<exists>p. setPrefix R tag L = Ok (L\<lparr>prefix_held := True, log_prefix := p\<rparr>) \<and> pTag p = tag"
proof -
  obtain f n where c: "caller R (callLevel L) = (f, n)" by fastforce
  then have "strings_Index f source_key < 0 \<or> strings_Index f source_key + int (length source_key) + 1 \<le> int (length f)"
    using assms(1) by (metis fst_conv named_files_def)
  then show ?thesis using assms(2) c by (auto simp: setPrefix_def slice_from_def lock_prefix_def Let_def)
qed

lemma fold_Println: "fold log_Println strs L = L\<lparr>printed := printed L @ map (Pair (log_prefix L)) strs\<rparr>"
  by (induction strs arbitrary: L) (simp_all add: log_Println_def)

text \<open>A call that prints \<open>added\<close> and leaves the rest of the logger as it was, up to the prefix.\<close>

definition logs :: "(string \<times> string) list \<Rightarrow> logger \<Rightarrow> logger \<Rightarrow> bool" where
  "logs added L L' \<longleftrightarrow> prefix_held L' = prefix_held L \<and> level_held L' = level_held L \<and> callLevel L' = callLevel L \<and>
     logLevel L' = logLevel L \<and> lines_of L' = lines_of L @ added"

lemma print_as_ok:
  assumes "named_files R" and "\<not> prefix_held L"
  shows "\<exists>L'. print_as R tag msg L = Ok L' \<and> logs (map (Pair tag) (filter (\<lambda>s. s \<noteq> []) (strings_Split msg))) L L'"
proof -
  obtain p where p: "setPrefix R tag L = Ok (L\<lparr>prefix_held := True, log_prefix := p\<rparr>)" "pTag p = tag"
    using setPrefix_ok [OF assms] by blast
  then show ?thesis using assms(2) by (simp add: print_as_def logPrint_def fold_Println unlock_prefix_def logs_def lines_of_def)
qed

text \<open>Every function for a level prints from that level on.\<close>

lemma level_call_ok:
  assumes "named_files R" and "\<not> prefix_held L"
  shows "\<exists>L'. (if logLevel L < least then Ok L else print_as R tag msg L) = Ok L' \<and> logs (shown_from least tag msg (logLevel L)) L L'"
  using print_as_ok [OF assms, of tag msg] by (cases "logLevel L < least") (simp_all add: shown_from_def logs_def)

lemma framed_ok:
  assumes "named_files R" and "idle L" and "level \<noteq> 0"
  shows "\<exists>L'. obind (SetCallerLevel level L) (\<lambda>L. obind (if logLevel L < least then Ok L else print_as R tag msg L) (SetCallerLevel 0)) = Ok L' \<and>
    logs (shown_from least tag msg (logLevel L)) L L'"
proof -
  have free: "\<not> prefix_held L" "\<not> level_held L" "callLevel L = 2" using assms(2) by (simp_all add: idle_def)
  define M where "M = L\<lparr>level_held := True, callLevel := level + 2\<rparr>"
  have M: "SetCallerLevel level L = Ok M" "\<not> prefix_held M" "logLevel M = logLevel L" "lines_of M = lines_of L" "level_held M"
    using free assms(3) by (simp_all add: SetCallerLevel_def lock_level_def M_def lines_of_def)
  obtain K where K: "(if logLevel M < least then Ok M else print_as R tag msg M) = Ok K" "logs (shown_from least tag msg (logLevel M)) M K"
    using level_call_ok [OF assms(1) M(2)] by blast
  have "SetCallerLevel 0 K = Ok (K\<lparr>level_held := False, callLevel := 2\<rparr>)"
    using K(2) M(5) by (simp add: SetCallerLevel_def unlock_level_def logs_def)
  moreover have "logs (shown_from least tag msg (logLevel L)) L (K\<lparr>level_held := False, callLevel := 2\<rparr>)"
    using K(2) M(2-4) free by (simp add: logs_def lines_of_def)
  ultimately show ?thesis using M(1) K(1) by (intro exI [of _ "K\<lparr>level_held := False, callLevel := 2\<rparr>"]) simp
qed

lemma run_call_ok:
  assumes "named_files R" and "idle L" and "\<forall>msg. c \<noteq> Framed 0 msg"
  shows "\<exists>L'. run_call R c L = Ok L' \<and> logs (shown (logLevel L) c) L L'"
proof -
  have free: "\<not> prefix_held L" using assms(2) by (simp add: idle_def)
  show ?thesis
  proof (cases c)
    case (Trace msg)
    then show ?thesis using level_call_ok [OF assms(1) free, of 0] by (simp add: Traceln_def)
  next
    case (Debug msg)
    then show ?thesis using level_call_ok [OF assms(1) free, of 3] by (simp add: Debugln_def)
  next
    case (Info msg)
    then show ?thesis using level_call_ok [OF assms(1) free, of 2] by (simp add: Infoln_def)
  next
    case (WarnLine msg)
    then show ?thesis using level_call_ok [OF assms(1) free, of 1] by (simp add: Warnln_def)
  next
    case (WarnErr err)
    show ?thesis
    proof (cases err)
      case None
      then show ?thesis using WarnErr by (simp add: Warn_def logs_def)
    next
      case (Some msg)
      then show ?thesis
        using WarnErr framed_ok [OF assms(1,2) one_neq_zero, of 1 "''WARN''" msg]
        by (simp only: Warn_def Warnln_def run_call.simps shown.simps option.case)
    qed
  next
    case (Framed n msg)
    then have n: "n \<noteq> 0" using assms(3) by auto
    show ?thesis
      using Framed framed_ok [OF assms(1,2) n, of 3 "''DEBUG''" msg] by (simp only: Debugln_def run_call.simps shown.simps)
  qed
qed

text \<open>
  C38: the logging calls of one goroutine never block one another. From a state in which both mutexes are free, every sequence of the calls with which the program logs and
  goes on returns, leaves both mutexes free and the caller level reset, and prints exactly the lines that are not
  empty of the texts whose level is enabled, in order.
\<close>

theorem log_calls_return:
  assumes "named_files R" and "idle L" and "\<forall>msg. Framed 0 msg \<notin> set calls"
  shows "\<exists>L'. ofold (run_call R) calls L = Ok L' \<and> idle L' \<and> lines_of L' = lines_of L @ concat (map (shown (logLevel L)) calls)"
  using assms(2,3)
proof (induction calls arbitrary: L)
  case (Cons c calls)
  obtain M where M: "run_call R c L = Ok M" "logs (shown (logLevel L) c) L M"
    using run_call_ok [OF assms(1) Cons.prems(1), of c] Cons.prems(2) by auto
  then have "idle M" using Cons.prems(1) by (simp add: idle_def logs_def)
  then show ?case using Cons.IH [of M] Cons.prems(2) M by (auto simp: logs_def)
qed simp

text \<open>
  \<^verbatim>\<open>NotImplement\<close>, which is meant to print the stack and end the process, waits forever: \<^verbatim>\<open>PrintStack\<close> returns with \<^verbatim>\<open>prefixMutex\<close> locked, and
  the next line of the log needs it. \<^verbatim>\<open>Err\<close> on an error does end the process.
\<close>

lemma NotImplement_hangs:
  assumes "named_files R" and "idle L" and "PrintStack R frame line_of L = Ok M"
  shows "NotImplement R frame line_of L = Hang \<and> Err R (Some msg) L = Exit"
proof -
  have free: "\<not> prefix_held L" "\<not> level_held L" using assms(2) by (simp_all add: idle_def)
  have keep: "prefix_held L' = prefix_held K \<and> level_held L' = level_held K" if "stack_lines frame line_of ks K = Ok L'" for ks K L'
    using that
  proof (induction frame line_of ks K rule: stack_lines.induct)
    case (2 frame line_of k ks K)
    then show ?case by (auto simp: log_Println_def Let_def split: option.splits prod.splits if_splits)
  qed simp
  obtain p where "setPrefix R ''STACK'' (L\<lparr>level_held := True\<rparr>) = Ok (L\<lparr>level_held := True, prefix_held := True, log_prefix := p\<rparr>)"
    using setPrefix_ok [OF assms(1), of "L\<lparr>level_held := True\<rparr>"] free(1) by auto
  then obtain K where "stack_lines frame line_of [0, 1, 2, 3, 4]
      (log_Println ''===================================='' (L\<lparr>level_held := True, prefix_held := True, log_prefix := p\<rparr>)) = Ok K"
      "unlock_level K = Ok M"
    using assms(3) free(2) by (auto simp: PrintStack_def lock_level_def simp del: stack_lines.simps)
  then have "prefix_held M" "\<not> level_held M" using keep by (fastforce simp: unlock_level_def log_Println_def split: if_splits)+
  moreover have hang: "setPrefix R tag K = Hang" if "prefix_held K" for K tag
  proof -
    obtain f n where c: "caller R (callLevel K) = (f, n)" by fastforce
    then have "strings_Index f source_key < 0 \<or> strings_Index f source_key + int (length source_key) + 1 \<le> int (length f)"
      using assms(1) by (metis fst_conv named_files_def)
    then show ?thesis using that c by (auto simp: setPrefix_def slice_from_def lock_prefix_def Let_def)
  qed
  ultimately have "NotImplement R frame line_of L = Hang"
    using assms(3) by (simp add: NotImplement_def SetCallerLevel_def lock_level_def Errln_def print_as_def)
  moreover have "Err R (Some msg) L = Exit"
    using free print_as_ok [OF assms(1), of "L\<lparr>level_held := True, callLevel := 3\<rparr>" "''ERROR''" msg]
    by (auto simp: Err_def SetCallerLevel_def lock_level_def Errln_def)
  ultimately show ?thesis by blast
qed

definition sample_goroutine :: goroutine where
  "sample_goroutine = \<lparr>stack = ''goroutine 17 [running'', caller = (\<lambda>_. (''/go/blockchain/core/x.go'', 5))\<rparr>"

definition sample_logger :: logger where
  "sample_logger = \<lparr>callLevel = 2, logLevel = 2, port = [], prefix_held = False, level_held = False,
     log_prefix = \<lparr>pPort = [], pRoutine = [], pTag = [], pFile = [], pLine = 0\<rparr>, printed = []\<rparr>"

lemma sample_files: "named_files sample_goroutine" "idle sample_logger"
  by (simp_all add: named_files_def sample_goroutine_def source_key_def idle_def sample_logger_def)

theorem log_calls_return_witness:
  "\<exists>L'. ofold (run_call sample_goroutine) [Info ''a'', Debug ''b'', WarnErr (Some ''c''), Framed 1 ''d''] sample_logger = Ok L' \<and>
     lines_of L' = [(''INFO'', ''a''), (''WARN'', ''c'')]"
  using log_calls_return [OF sample_files, of "[Info ''a'', Debug ''b'', WarnErr (Some ''c''), Framed 1 ''d'']"]
  by (auto simp: lines_of_def sample_logger_def shown_from_def)

end
