(* ===== verification/Ring_Queue.thy ===== *)
theory Ring_Queue
  imports Prelude
begin

text \<open>
  \<^verbatim>\<open>types/queue.go\<close>: a ring buffer over an array of \<^verbatim>\<open>interface{}\<close> with one slot kept free, which evicts
  its oldest element when it is full. An array element is an \<open>option\<close>, \<open>None\<close> for \<^verbatim>\<open>nil\<close>; the
  array itself is \<open>None\<close> in a \<^verbatim>\<open>Queue\<close> that \<^verbatim>\<open>NewQueue\<close> did not make. The ring is shown to be the
  bounded first-in-first-out queue of the contract \<open>bounded_fifo\<close>.
\<close>

section \<open>The code\<close>

record 'a Queue =
  array :: "'a option list option"
  capability :: nat
  qfront :: nat
  qback :: nat

text \<open>\<^verbatim>\<open>cap+1\<close> is exact: an array of \<open>2 ^ 63\<close> elements could not be made.\<close>

definition NewQueue :: "int \<Rightarrow> 'a Queue outcome" where
  "NewQueue cap =
     (let cap = cap + 1
      in if cap < 0 then Panic
         else Ok \<lparr>array = Some (replicate (nat cap) None), capability = nat cap, qfront = 0, qback = 0\<rparr>)"

definition Pop :: "'a Queue \<Rightarrow> ('a option \<times> 'a Queue) outcome" where
  "Pop q = (case array q of None \<Rightarrow> Panic
     | Some a \<Rightarrow> obind (oindex a (int (qfront q))) (\<lambda>ret.
         if capability q = 0 then Panic
         else Ok (ret, q\<lparr>qfront := (qfront q + 1) mod capability q\<rparr>)))"

definition Push :: "'a \<Rightarrow> 'a Queue \<Rightarrow> 'a Queue outcome" where
  "Push data q = (case array q of None \<Rightarrow> Panic
     | Some a \<Rightarrow>
         if capability q = 0 then Panic
         else obind (if (qback q + 1) mod capability q = qfront q
                     then obind (Pop q) (\<lambda>(_, q'). Ok q') else Ok q) (\<lambda>q.
              obind (oupdate a (int (qback q)) (Some data)) (\<lambda>a.
                Ok (q\<lparr>array := Some a, qback := (qback q + 1) mod capability q\<rparr>))))"

definition Len :: "'a Queue \<Rightarrow> nat outcome" where
  "Len q = (case array q of None \<Rightarrow> Panic | Some a \<Rightarrow> Ok (length a))"

definition Get :: "'a Queue \<Rightarrow> 'a option list outcome" where
  "Get q = (let a = (case array q of None \<Rightarrow> [] | Some a \<Rightarrow> a) in
     if qback q \<ge> qfront q then oslice a (int (qfront q)) (int (qback q))
     else obind (oslice a (int (qfront q)) (int (length a))) (\<lambda>xs.
          obind (oslice a 0 (int (qback q))) (\<lambda>ys. Ok (xs @ ys))))"

section \<open>The contract of a bounded queue\<close>

text \<open>
  What a client of a bounded queue may rely on: \<open>elems\<close> lists the content oldest first, a push
  appends and keeps the newest \<open>bound\<close> elements, a pop takes the oldest of a queue that is not
  empty.
\<close>

locale bounded_fifo =
  fixes push :: "'a \<Rightarrow> 'q \<Rightarrow> 'q outcome"
    and pop :: "'q \<Rightarrow> ('e \<times> 'q) outcome"
    and elems :: "'q \<Rightarrow> 'e list"
    and elem :: "'a \<Rightarrow> 'e"
    and bound :: "'q \<Rightarrow> nat"
    and valid :: "'q \<Rightarrow> bool"
  assumes push_law: "valid q \<Longrightarrow> \<exists>q'. push x q = Ok q' \<and> valid q' \<and> bound q' = bound q \<and>
      elems q' = lastn (bound q) (elems q @ [elem x])"
    and pop_law: "valid q \<Longrightarrow> elems q \<noteq> [] \<Longrightarrow> \<exists>q'. pop q = Ok (hd (elems q), q') \<and> valid q' \<and>
      bound q' = bound q \<and> elems q' = tl (elems q)"
    and within_bound: "valid q \<Longrightarrow> length (elems q) \<le> bound q"
begin

text \<open>A run of pushes never fails and leaves the newest \<open>bound\<close> elements in order.\<close>

lemma pushes:
  "valid q \<Longrightarrow> \<exists>q'. ofold push xs q = Ok q' \<and> valid q' \<and> bound q' = bound q \<and>
     elems q' = lastn (bound q) (elems q @ map elem xs)"
proof (induction xs arbitrary: q)
  case Nil
  then show ?case by (simp add: within_bound)
next
  case (Cons x xs)
  obtain q1 where q1: "push x q = Ok q1" "valid q1" "bound q1 = bound q"
      "elems q1 = lastn (bound q) (elems q @ [elem x])"
    using push_law [OF Cons.prems, of x] by blast
  obtain q2 where "ofold push xs q1 = Ok q2" "valid q2" "bound q2 = bound q1"
      "elems q2 = lastn (bound q1) (elems q1 @ map elem xs)"
    using Cons.IH [OF q1(2)] by blast
  with q1 show ?case by auto
qed

text \<open>As long as the bound is not reached, a pop after pushes gives the first element pushed.\<close>

lemma push_then_pop:
  assumes "valid q" and "length (elems q) < bound q" and "push x q = Ok q'"
  shows "\<exists>q''. pop q' = Ok (hd (elems q @ [elem x]), q'') \<and> elems q'' = tl (elems q @ [elem x])"
proof -
  have "elems q' = elems q @ [elem x]" and "valid q'"
    using push_law [OF assms(1), of x] assms(2,3) by auto
  then show ?thesis using pop_law [of q'] by auto
qed

end

section \<open>The ring implements the contract\<close>

definition ring_valid :: "'a Queue \<Rightarrow> bool" where
  "ring_valid q \<longleftrightarrow> (\<exists>a. array q = Some a \<and> length a = capability q) \<and>
     qfront q < capability q \<and> qback q < capability q"

definition ring_elems :: "'a Queue \<Rightarrow> 'a option list" where
  "ring_elems q = (case array q of None \<Rightarrow> []
     | Some a \<Rightarrow> map (\<lambda>i. a ! ((qfront q + i) mod capability q))
                   [0..<(qback q + capability q - qfront q) mod capability q])"

definition ring_bound :: "'a Queue \<Rightarrow> nat" where
  "ring_bound q = capability q - 1"

lemma ring_validE:
  assumes "ring_valid q"
  obtains a where "array q = Some a" and "length a = capability q"
    and "qfront q < capability q" and "qback q < capability q"
  using assms by (auto simp: ring_valid_def)

lemma mod_add_if: "(x :: nat) < c \<Longrightarrow> y < c \<Longrightarrow> (x + y) mod c = (if x + y < c then x + y else x + y - c)"
  by (simp add: mod_if)

lemma mod_Suc_if: "x < c \<Longrightarrow> Suc x mod c = (if Suc x = c then 0 else Suc x)" for x c :: nat
  by (simp add: mod_Suc)

lemma ring_length_if:
  "f < c \<Longrightarrow> b < c \<Longrightarrow> (b + c - f) mod c = (if f \<le> b then b - f else b + c - f)" for f b c :: nat
  by (auto simp: mod_if)

lemma length_ring_elems:
  "array q = Some a \<Longrightarrow> length (ring_elems q) = (qback q + capability q - qfront q) mod capability q"
  by (simp add: ring_elems_def)

lemma ring_Pop:
  assumes "ring_valid q"
  obtains a where "array q = Some a"
    and "Pop q = Ok (a ! qfront q, q\<lparr>qfront := (qfront q + 1) mod capability q\<rparr>)"
    and "ring_valid (q\<lparr>qfront := (qfront q + 1) mod capability q\<rparr>)"
  using assms by (auto simp: ring_valid_def Pop_def oindex_def)

lemma ring_Pop_elems:
  assumes "ring_valid q" and "ring_elems q \<noteq> []"
  shows "\<exists>q'. Pop q = Ok (hd (ring_elems q), q') \<and> ring_valid q' \<and> capability q' = capability q \<and>
    ring_elems q' = tl (ring_elems q)"
proof -
  obtain a where a: "array q = Some a"
    and pop: "Pop q = Ok (a ! qfront q, q\<lparr>qfront := (qfront q + 1) mod capability q\<rparr>)"
    and valid: "ring_valid (q\<lparr>qfront := (qfront q + 1) mod capability q\<rparr>)"
    using assms(1) by (rule ring_Pop)
  let ?c = "capability q" and ?f = "qfront q" and ?b = "qback q"
  have bounds: "?f < ?c" "?b < ?c"
    using assms(1) by (auto simp: ring_valid_def)
  let ?n = "(?b + ?c - ?f) mod ?c"
  have n: "0 < ?n"
    using assms(2) a by (simp add: ring_elems_def)
  have hd: "hd (ring_elems q) = a ! ?f"
    using n a bounds by (simp add: ring_elems_def hd_map upt_conv_Cons)
  have n': "(?b + ?c - (?f + 1) mod ?c) mod ?c = ?n - 1"
    using n bounds by (auto simp: ring_length_if mod_Suc_if split: if_splits)
  have "ring_elems (q\<lparr>qfront := (?f + 1) mod ?c\<rparr>) = tl (ring_elems q)"
    using n a n' [simplified]
    by (auto simp: ring_elems_def mod_simps list_eq_iff_nth_eq nth_tl)
  with pop valid hd show ?thesis by auto
qed

lemma ring_store:
  assumes "ring_valid q" and "length (ring_elems q) < ring_bound q" and "array q = Some a"
  shows "ring_valid (q\<lparr>array := Some (a[qback q := Some x]), qback := (qback q + 1) mod capability q\<rparr>)"
    and "ring_elems (q\<lparr>array := Some (a[qback q := Some x]), qback := (qback q + 1) mod capability q\<rparr>)
       = ring_elems q @ [Some x]"
proof -
  let ?c = "capability q" and ?f = "qfront q" and ?b = "qback q"
  let ?n = "(?b + ?c - ?f) mod ?c"
  have len: "length a = ?c" and bounds: "?f < ?c" "?b < ?c"
    using assms(1,3) by (auto simp: ring_valid_def)
  then show "ring_valid (q\<lparr>array := Some (a[?b := Some x]), qback := (?b + 1) mod ?c\<rparr>)"
    by (simp add: ring_valid_def)
  have n: "?n < ?c - 1"
    using assms(2,3) by (simp add: length_ring_elems ring_bound_def)
  have n': "((?b + 1) mod ?c + ?c - ?f) mod ?c = Suc ?n"
    using n bounds by (auto simp: ring_length_if mod_Suc_if split: if_splits)
  have bpos: "(?f + ?n) mod ?c = ?b"
    using bounds by (auto simp: ring_length_if mod_if)
  have other: "a[?b := Some x] ! ((?f + i) mod ?c) = a ! ((?f + i) mod ?c)" if "i < ?n" for i
  proof -
    have "(?f + i) mod ?c \<noteq> ?b"
      using that bounds by (auto simp: ring_length_if mod_add_if split: if_splits)
    then show ?thesis by simp
  qed
  show "ring_elems (q\<lparr>array := Some (a[?b := Some x]), qback := (?b + 1) mod ?c\<rparr>)
      = ring_elems q @ [Some x]"
    using assms(3) len bounds other bpos n' [simplified] by (auto simp: ring_elems_def)
qed

lemma ring_full_iff:
  assumes "ring_valid q"
  shows "(qback q + 1) mod capability q = qfront q \<longleftrightarrow> length (ring_elems q) = ring_bound q"
proof -
  obtain a where "array q = Some a" "qfront q < capability q" "qback q < capability q"
    using assms by (rule ring_validE)
  then show ?thesis
    by (auto simp: length_ring_elems ring_bound_def ring_length_if mod_if split: if_splits)
qed

lemma ring_within_bound: "ring_valid q \<Longrightarrow> length (ring_elems q) \<le> ring_bound q"
  by (auto simp: ring_valid_def length_ring_elems ring_bound_def ring_length_if)

text \<open>A push on a ring with room only stores the element.\<close>

lemma ring_Push_room:
  assumes "ring_valid q" and "length (ring_elems q) < ring_bound q"
  shows "\<exists>q'. Push x q = Ok q' \<and> ring_valid q' \<and> ring_bound q' = ring_bound q \<and>
    ring_elems q' = ring_elems q @ [Some x]"
proof -
  obtain a where a: "array q = Some a" "length a = capability q" "qback q < capability q"
    using assms(1) by (rule ring_validE)
  have "(qback q + 1) mod capability q \<noteq> qfront q"
    using assms(2) ring_full_iff [OF assms(1)] by auto
  with a have "Push x q = Ok (q\<lparr>array := Some (a[qback q := Some x]), qback := (qback q + 1) mod capability q\<rparr>)"
    by (auto simp: Push_def oupdate_def)
  with ring_store [OF assms a(1)] show ?thesis
    by (auto simp: ring_bound_def)
qed

text \<open>A push on a full ring of at least one element is a pop followed by a push with room.\<close>

lemma Push_full:
  assumes "ring_valid q" and "length (ring_elems q) = ring_bound q" and "0 < ring_bound q"
  shows "\<exists>q'. Push x q = Ok q' \<and> ring_valid q' \<and> ring_bound q' = ring_bound q \<and>
    ring_elems q' = tl (ring_elems q) @ [Some x]"
proof -
  have "ring_elems q \<noteq> []" using assms(2,3) by auto
  then obtain q1 where q1: "Pop q = Ok (hd (ring_elems q), q1)" "ring_valid q1"
      "capability q1 = capability q" "ring_elems q1 = tl (ring_elems q)"
    using ring_Pop_elems [OF assms(1)] by blast
  have room: "length (ring_elems q1) < ring_bound q1"
    using q1(3,4) assms(2,3) by (simp add: ring_bound_def)
  have fields: "array q1 = array q" "qback q1 = qback q"
    using q1(1) assms(1) by (auto simp: Pop_def ring_valid_def oindex_def)
  have "(qback q + 1) mod capability q = qfront q"
    using ring_full_iff [OF assms(1)] assms(2) by simp
  moreover have "(qback q1 + 1) mod capability q1 \<noteq> qfront q1"
    using ring_full_iff [OF q1(2)] room by simp
  ultimately have "Push x q = Push x q1"
    using q1 fields by (auto simp: Push_def split: option.splits)
  with ring_Push_room [OF q1(2) room, of x] q1(3,4) show ?thesis
    by (auto simp: ring_bound_def)
qed

lemma ring_Push_zero:
  assumes "ring_valid q" and "ring_bound q = 0"
  shows "\<exists>q'. Push x q = Ok q' \<and> ring_valid q' \<and> ring_bound q' = 0 \<and> ring_elems q' = []"
proof -
  obtain a where "array q = Some a" "length a = capability q" "qfront q < capability q"
      "qback q < capability q"
    using assms(1) by (rule ring_validE)
  moreover from this assms(2) have "capability q = 1" by (simp add: ring_bound_def)
  ultimately show ?thesis
    by (auto simp: ring_valid_def ring_bound_def Push_def Pop_def oindex_def oupdate_def ring_elems_def)
qed

lemma ring_Push:
  assumes "ring_valid q"
  shows "\<exists>q'. Push x q = Ok q' \<and> ring_valid q' \<and> ring_bound q' = ring_bound q \<and>
    ring_elems q' = lastn (ring_bound q) (ring_elems q @ [Some x])"
proof (cases "length (ring_elems q) < ring_bound q")
  case True
  then show ?thesis using ring_Push_room [OF assms True, of x] by auto
next
  case False
  then have full: "length (ring_elems q) = ring_bound q"
    using ring_within_bound [OF assms] by simp
  show ?thesis
  proof (cases "ring_bound q")
    case 0
    with ring_Push_zero [OF assms] show ?thesis by (simp add: lastn_def)
  next
    case (Suc n)
    with full Push_full [OF assms full, of x] show ?thesis
      by (cases "ring_elems q") (auto simp: lastn_def)
  qed
qed

interpretation ring: bounded_fifo Push Pop ring_elems Some ring_bound ring_valid
proof unfold_locales
  show "\<exists>q'. Pop q = Ok (hd (ring_elems q), q') \<and> ring_valid q' \<and> ring_bound q' = ring_bound q \<and>
      ring_elems q' = tl (ring_elems q)" if "ring_valid q" "ring_elems q \<noteq> []" for q :: "'a Queue"
    using ring_Pop_elems [OF that] by (auto simp: ring_bound_def)
qed (simp_all add: ring_Push ring_within_bound)

lemma ring_Get:
  assumes "ring_valid q"
  shows "Get q = Ok (ring_elems q)"
proof -
  obtain a where a: "array q = Some a" "length a = capability q"
      "qfront q < capability q" "qback q < capability q"
    using assms by (rule ring_validE)
  then show ?thesis
    by (auto simp: Get_def oslice_def ring_elems_def ring_length_if nth_append mod_add_if mod_if
        add.commute intro!: nth_equalityI)
qed

lemma NewQueue_ring:
  assumes "0 \<le> cap"
  shows "\<exists>q. NewQueue cap = Ok q \<and> ring_valid q \<and> ring_elems q = [] \<and> ring_bound q = nat cap"
  using assms by (auto simp: NewQueue_def ring_valid_def ring_elems_def ring_bound_def nat_add_distrib)

section \<open>Properties\<close>

text \<open>
  C36: a queue made by \<^verbatim>\<open>NewQueue(cap)\<close> takes any sequence of pushes without a panic, and \<^verbatim>\<open>Get\<close> then
  returns the last \<^verbatim>\<open>cap\<close> values pushed, oldest first.
\<close>

theorem queue_keeps_newest:
  fixes xs :: "'a list"
  assumes "0 \<le> cap"
  shows "obind (NewQueue cap) (\<lambda>q. obind (ofold Push xs q) Get) = Ok (map Some (lastn (nat cap) xs))"
proof -
  obtain q :: "'a Queue" where q: "NewQueue cap = Ok q" "ring_valid q" "ring_elems q = []"
      "ring_bound q = nat cap"
    using NewQueue_ring [OF assms] by blast
  obtain q' where "ofold Push xs q = Ok q'" "ring_valid q'"
      "ring_elems q' = lastn (nat cap) (map Some xs)"
    using ring.pushes [OF q(2), of xs] q(3,4) by auto
  with q show ?thesis by (simp add: ring_Get lastn_def drop_map)
qed

theorem queue_keeps_newest_witness:
  "obind (NewQueue 2) (\<lambda>q. obind (ofold Push [1, 2, 3 :: nat] q) Get) = Ok [Some 2, Some 3]"
  using queue_keeps_newest [of 2 "[1, 2, 3 :: nat]"] by (simp add: lastn_def)

end
