(* ===== verification/Utils.thy ===== *)
theory Utils
  imports Prelude
begin

text \<open>
  \<^verbatim>\<open>utils/index.go\<close> and the part of \<^verbatim>\<open>encoding/hex\<close> the program uses: hexadecimal text, fixed-width
  big-endian integers, and membership in a circular range of groups.
\<close>

section \<open>encoding/hex\<close>

definition hex_digit :: "nat \<Rightarrow> byte" where
  "hex_digit n = ascii ''0123456789abcdef'' ! n"

definition hex_encode_byte :: "byte \<Rightarrow> bytes" where
  "hex_encode_byte b = [hex_digit (unat b div 16), hex_digit (unat b mod 16)]"

text \<open>\<^verbatim>\<open>hex.EncodeToString\<close>.\<close>

definition EncodeToString :: "bytes \<Rightarrow> bytes" where
  "EncodeToString bs = concat (map hex_encode_byte bs)"

definition fromHexChar :: "byte \<Rightarrow> nat option" where
  "fromHexChar c =
     (if 48 \<le> c \<and> c \<le> 57 then Some (unat (c - 48))
      else if 97 \<le> c \<and> c \<le> 102 then Some (unat (c - 97) + 10)
      else if 65 \<le> c \<and> c \<le> 70 then Some (unat (c - 65) + 10)
      else None)"

datatype hex_error = InvalidByte byte | ErrLength

text \<open>\<^verbatim>\<open>hex.DecodeString\<close>: the bytes decoded before an error come with the error.\<close>

fun DecodeString :: "bytes \<Rightarrow> bytes \<times> hex_error option" where
  "DecodeString [] = ([], None)"
| "DecodeString [c] = ([], Some (if fromHexChar c = None then InvalidByte c else ErrLength))"
| "DecodeString (c # d # rest) = (case fromHexChar c of None \<Rightarrow> ([], Some (InvalidByte c))
     | Some x \<Rightarrow> (case fromHexChar d of None \<Rightarrow> ([], Some (InvalidByte d))
       | Some y \<Rightarrow> (case DecodeString rest of (bs, err) \<Rightarrow> (of_nat (16 * x + y) # bs, err))))"

lemma hex_digits_decode: "list_all (\<lambda>n. fromHexChar (hex_digit n) = Some n) [0..<16]"
  by (simp add: upt_conv_Cons fromHexChar_def hex_digit_def ascii_def)

lemma fromHexChar_hex_digit [simp]: "n < 16 \<Longrightarrow> fromHexChar (hex_digit n) = Some n"
  using hex_digits_decode by (simp add: list_all_iff)

lemma DecodeString_EncodeToString [simp, codec_simps]: "DecodeString (EncodeToString bs) = (bs, None)"
proof (induction bs)
  case Nil
  then show ?case by (simp add: EncodeToString_def)
next
  case (Cons b bs)
  have "unat b div 16 < 16" by (simp add: less_mult_imp_div_less)
  moreover have "EncodeToString (b # bs) = hex_digit (unat b div 16) # hex_digit (unat b mod 16) # EncodeToString bs"
    by (simp add: EncodeToString_def hex_encode_byte_def)
  ultimately show ?case by (simp add: Cons.IH)
qed

lemma EncodeToString_inject [simp]: "EncodeToString xs = EncodeToString ys \<longleftrightarrow> xs = ys"
  by (metis DecodeString_EncodeToString prod.inject)

section \<open>Fixed-width integers\<close>

text \<open>\<^verbatim>\<open>binary.Write\<close> with \<^verbatim>\<open>binary.BigEndian\<close>: the \<open>n\<close> low bytes in two's complement.\<close>

definition be_bytes :: "nat \<Rightarrow> int \<Rightarrow> bytes" where
  "be_bytes n x = map (\<lambda>i. word_of_int (x div 256 ^ i)) (rev [0..<n])"

datatype base_type = BInt int | BInt32 int | BInt64 int

fun BaseTypeToBytes :: "base_type \<Rightarrow> bytes" where
  "BaseTypeToBytes (BInt number) = be_bytes 4 (i32 number)"
| "BaseTypeToBytes (BInt32 number) = be_bytes 4 number"
| "BaseTypeToBytes (BInt64 number) = be_bytes 8 number"

lemma length_be_bytes [simp]: "length (be_bytes n x) = n"
  by (simp add: be_bytes_def)

lemma be_bytes_Suc: "be_bytes (Suc n) x = word_of_int (x div 256 ^ n) # be_bytes n x"
  by (simp add: be_bytes_def)

lemma word_of_int_byte_eq_iff: "(word_of_int x :: byte) = word_of_int y \<longleftrightarrow> x mod 256 = y mod 256"
  by (simp add: word_of_int_eq_iff take_bit_eq_mod)

lemma mod_power_Suc_eq:
  assumes "x div 256 ^ n mod 256 = y div 256 ^ n mod 256" and "x mod 256 ^ n = y mod 256 ^ n"
  shows "x mod 256 ^ Suc n = y mod (256 ^ Suc n :: int)"
  using assms zmod_zmult2_eq [of 256 x "256 ^ n"] zmod_zmult2_eq [of 256 y "256 ^ n"]
  by (simp add: mult.commute)

lemma be_bytes_eq_imp_mod_eq: "be_bytes n x = be_bytes n y \<Longrightarrow> x mod 256 ^ n = y mod 256 ^ n"
proof (induction n)
  case (Suc n)
  then show ?case
    by (intro mod_power_Suc_eq) (simp_all add: be_bytes_Suc word_of_int_byte_eq_iff)
qed simp

text \<open>Two integers of the written width have different bytes.\<close>

lemma be_bytes_i64_inject: "in_i64 x \<Longrightarrow> in_i64 y \<Longrightarrow> be_bytes 8 x = be_bytes 8 y \<longleftrightarrow> x = y"
proof
  assume r: "in_i64 x" "in_i64 y" and "be_bytes 8 x = be_bytes 8 y"
  then have "x mod 2 ^ 64 = y mod 2 ^ 64"
    using be_bytes_eq_imp_mod_eq [of 8 x y] by simp
  then have "i64 x = i64 y"
    unfolding i64_def by (metis mod_add_left_eq)
  with r show "x = y" by (simp add: wrap_simps)
qed simp

section \<open>Groups\<close>

text \<open>\<^verbatim>\<open>in\<close>: \<open>target\<close> in the half-open range from \<open>l\<close> to \<open>r\<close>.\<close>

definition in_range :: "int \<Rightarrow> int \<Rightarrow> int \<Rightarrow> bool" where
  "in_range target l r = (l \<le> target \<and> target < r)"

definition InGroup :: "int \<Rightarrow> int \<Rightarrow> int \<Rightarrow> int \<Rightarrow> bool" where
  "InGroup g base number mx =
     (if base + number > mx
      then (if \<not> in_range g base mx \<and> \<not> in_range g 0 (base + number - mx) then False else True)
      else (if \<not> in_range g base (base + number) then False else True))"

text \<open>
  For a group and a base below the number of groups, \<^verbatim>\<open>InGroup\<close> decides whether the group is one
  of the \<open>number\<close> groups that follow the base on the circle of \<open>mx\<close> groups.
\<close>

lemma InGroup_circular:
  assumes "0 \<le> g" and "g < mx" and "0 \<le> base" and "base < mx" and "0 \<le> number"
  shows "InGroup g base number mx \<longleftrightarrow> (g - base) mod mx < number"
proof -
  have "(g - base) mod mx = (if base \<le> g then g - base else g - base + mx)"
  proof (cases "base \<le> g")
    case False
    then have "(g - base) mod mx = (g - base + mx) mod mx" by simp
    also have "\<dots> = g - base + mx"
      using assms False by (intro mod_pos_pos_trivial) auto
    finally show ?thesis using False by simp
  qed (use assms in auto)
  with assms show ?thesis
    by (auto simp: InGroup_def in_range_def)
qed

end
