(* ===== verification/Float64.thy ===== *)
theory Float64
  imports Prelude "HOL-Library.Log_Nat"
begin

text \<open>
  Go's \<^verbatim>\<open>float64\<close>, which the program uses for mining difficulty, and the part of \<^verbatim>\<open>math/big\<close> that turns
  a difficulty into a threshold. A finite value is the rational it denotes; every operation
  rounds the exact result to 53 bits, ties to even, as IEEE 754 asks. The sign of a zero is
  not represented: the program divides by converted integers only, whose zero is positive.
\<close>

datatype float64 = Fin rat | PInf | NInf | NaN

section \<open>Rounding\<close>

definition pow2 :: "int \<Rightarrow> rat" where
  "pow2 e = (if 0 \<le> e then 2 ^ nat e else 1 / 2 ^ nat (- e))"

text \<open>The exponent of the leading bit of a positive rational.\<close>

definition ilog2 :: "rat \<Rightarrow> int" where
  "ilog2 q = (case quotient_of q of (n, d) \<Rightarrow>
     let k = int (floorlog 2 (nat n)) - int (floorlog 2 (nat d))
     in if q < pow2 k then k - 1 else k)"

definition round_half_even :: "rat \<Rightarrow> int" where
  "round_half_even q =
     (let f = \<lfloor>q\<rfloor>; r = q - of_int f
      in if r < 1 / 2 \<or> (r = 1 / 2 \<and> even f) then f else f + 1)"

definition round_pos :: "rat \<Rightarrow> rat" where
  "round_pos q = (let e = max (-1074) (ilog2 q - 52) in of_int (round_half_even (q / pow2 e)) * pow2 e)"

definition f64_round :: "rat \<Rightarrow> float64" where
  "f64_round q =
     (if q = 0 then Fin 0
      else let r = round_pos \<bar>q\<bar>
           in if r \<ge> pow2 1024 then (if 0 < q then PInf else NInf)
              else Fin (if 0 < q then r else - r))"

section \<open>Arithmetic\<close>

definition f64_of_int :: "int \<Rightarrow> float64" where
  "f64_of_int i = f64_round (of_int i)"

definition f64_inf :: "bool \<Rightarrow> float64" where
  "f64_inf positive = (if positive then PInf else NInf)"

fun f64_mul :: "float64 \<Rightarrow> float64 \<Rightarrow> float64" where
  "f64_mul (Fin x) (Fin y) = f64_round (x * y)"
| "f64_mul NaN y = NaN"
| "f64_mul x NaN = NaN"
| "f64_mul (Fin x) PInf = (if x = 0 then NaN else f64_inf (0 < x))"
| "f64_mul (Fin x) NInf = (if x = 0 then NaN else f64_inf (x < 0))"
| "f64_mul PInf (Fin y) = (if y = 0 then NaN else f64_inf (0 < y))"
| "f64_mul NInf (Fin y) = (if y = 0 then NaN else f64_inf (y < 0))"
| "f64_mul PInf PInf = PInf"
| "f64_mul NInf NInf = PInf"
| "f64_mul PInf NInf = NInf"
| "f64_mul NInf PInf = NInf"

fun f64_div :: "float64 \<Rightarrow> float64 \<Rightarrow> float64" where
  "f64_div (Fin x) (Fin y) =
     (if y = 0 then (if x = 0 then NaN else f64_inf (0 < x)) else f64_round (x / y))"
| "f64_div NaN y = NaN"
| "f64_div x NaN = NaN"
| "f64_div (Fin x) _ = Fin 0"
| "f64_div PInf (Fin y) = f64_inf (0 \<le> y)"
| "f64_div NInf (Fin y) = f64_inf (y < 0)"
| "f64_div _ _ = NaN"

text \<open>The comparison \<^verbatim>\<open>x > y\<close>; it is false when an operand is not a number.\<close>

fun f64_greater :: "float64 \<Rightarrow> float64 \<Rightarrow> bool" where
  "f64_greater (Fin x) (Fin y) = (x > y)"
| "f64_greater (Fin x) NInf = True"
| "f64_greater PInf (Fin y) = True"
| "f64_greater PInf NInf = True"
| "f64_greater _ _ = False"

definition MaxFloat64 :: float64 where
  "MaxFloat64 = Fin ((2 ^ 53 - 1) * 2 ^ 971)"

section \<open>From a difficulty to a threshold\<close>

text \<open>
  \<^verbatim>\<open>big.NewFloat(x).Int(nil)\<close>: \<^verbatim>\<open>NewFloat\<close> panics on a NaN, \<^verbatim>\<open>Int\<close> truncates towards zero and gives a nil
  pointer for an infinity, which the division after it dereferences.
\<close>

definition truncate_rat :: "rat \<Rightarrow> int" where
  "truncate_rat q = (if 0 \<le> q then \<lfloor>q\<rfloor> else - \<lfloor>- q\<rfloor>)"

fun big_NewFloat_Int :: "float64 \<Rightarrow> int outcome" where
  "big_NewFloat_Int (Fin q) = Ok (truncate_rat q)"
| "big_NewFloat_Int _ = Panic"

text \<open>\<^verbatim>\<open>big.Int.Div\<close>: Euclidean division, a panic for a zero divisor.\<close>

definition big_Div :: "int \<Rightarrow> int \<Rightarrow> int outcome" where
  "big_Div x y = (if y = 0 then Panic else Ok (if 0 < y then x div y else - (x div - y)))"

lemma big_Div_pos [simp]: "0 < y \<Longrightarrow> big_Div x y = Ok (x div y)"
  by (simp add: big_Div_def)

lemma pow2_pos [simp]: "0 < pow2 e"
  by (simp add: pow2_def)

end
