(* ===== verification/Chain_Types.thy ===== *)
theory Chain_Types
  imports Utils Float64 Sha256
begin

text \<open>
  The package \<^verbatim>\<open>types\<close>: hash values, keys and signatures with their JSON form, transactions with
  signing and verification, block headers and blocks with their hash and proof-of-work check.
  A nil slice and an empty slice are the same list; \<^verbatim>\<open>nil\<close> pointers are \<open>None\<close>.

  What is not source of the repository is a parameter: the records \<open>crypto\<close> (the digests and
  \<^verbatim>\<open>crypto/ecdsa\<close>) and \<open>json\<close> (the marshaller of \<^verbatim>\<open>json-iterator\<close>) hold the functions, and the
  locales below name what is documented of them.
\<close>

section \<open>Byte strings\<close>

type_synonym HashValue = bytes
type_synonym PublicKey = bytes
type_synonym PrivateKey = nat

definition HashValue_String :: "HashValue \<Rightarrow> bytes" where
  "HashValue_String h = EncodeToString h"

definition HashValue_MarshalJSON :: "HashValue \<Rightarrow> bytes" where
  "HashValue_MarshalJSON h = ascii ''\"'' @ HashValue_String h @ ascii ''\"''"

text \<open>The surrounding quotes are cut off without being looked at; fewer than two bytes panic.\<close>

definition HashValue_UnmarshalJSON :: "bytes \<Rightarrow> (HashValue \<times> hex_error option) outcome" where
  "HashValue_UnmarshalJSON bytes =
     obind (oslice bytes 1 (int (length bytes) - 1)) (\<lambda>inner. Ok (DecodeString inner))"

definition HashValue_Equal :: "HashValue \<Rightarrow> HashValue \<Rightarrow> bool" where
  "HashValue_Equal h other \<longleftrightarrow> h = other"

text \<open>\<^verbatim>\<open>Key\<close>: a 32-byte array, the first 32 bytes or the bytes followed by zeros.\<close>

definition HashValue_Key :: "HashValue \<Rightarrow> bytes" where
  "HashValue_Key h = map (\<lambda>i. if i < length h then h ! i else 0) [0..<32]"

definition PublicKey_String :: "PublicKey \<Rightarrow> bytes" where
  "PublicKey_String pk = EncodeToString pk"

definition PublicKey_MarshalJSON :: "PublicKey \<Rightarrow> bytes" where
  "PublicKey_MarshalJSON pk = ascii ''\"'' @ PublicKey_String pk @ ascii ''\"''"

definition PublicKey_UnmarshalJSON :: "bytes \<Rightarrow> (PublicKey \<times> hex_error option) outcome" where
  "PublicKey_UnmarshalJSON bytes =
     obind (oslice bytes 1 (int (length bytes) - 1)) (\<lambda>inner. Ok (DecodeString inner))"

definition Signature_String :: "bytes \<Rightarrow> bytes" where
  "Signature_String s = EncodeToString s"

definition Signature_MarshalJSON :: "bytes \<Rightarrow> bytes" where
  "Signature_MarshalJSON s = ascii ''\"'' @ Signature_String s @ ascii ''\"''"

definition Signature_UnmarshalJSON :: "bytes \<Rightarrow> (bytes \<times> hex_error option) outcome" where
  "Signature_UnmarshalJSON bytes =
     obind (oslice bytes 1 (int (length bytes) - 1)) (\<lambda>inner. Ok (DecodeString inner))"

section \<open>Records\<close>

record TxnInput =
  VoutHash :: HashValue
  VoutIndex :: int
  VoutValue :: int
  Signature :: bytes
  PubKey :: PublicKey

record TxnOutput =
  Value :: int
  PubKeyHash :: HashValue

record Transaction =
  Vin :: "TxnInput list"
  Vout :: "TxnOutput list"

record BlockHeader =
  Group :: int
  Height :: int
  PrevHash :: HashValue
  Timestamp :: int
  MerkleRoot :: HashValue
  Target :: float64

record MerklePath =
  PathHashValue :: HashValue
  Left :: bool

text \<open>
  A \<^verbatim>\<open>Block\<close> embeds a \<^verbatim>\<open>BlockHeader\<close> and a \<^verbatim>\<open>ChukonuHeader\<close>; the record extensions promote their fields the
  way Go's embedding does, and \<open>BlockHeader.truncate b\<close> is \<^verbatim>\<open>b.BlockHeader\<close>.
\<close>

record ChukonuHeader = BlockHeader +
  GroupBase :: int
  BatchSize :: int
  BatchMerklePath :: "MerklePath list"
  Nonce :: int

record Block = ChukonuHeader +
  Txns :: "Transaction list"

definition zero_txn :: Transaction where
  "zero_txn = \<lparr>Vin = [], Vout = []\<rparr>"

section \<open>Code outside the repository\<close>

text \<open>
  \<open>ecdsa_Sign E sk data rnd\<close> is \<^verbatim>\<open>ecdsa.Sign\<close> with the randomness it draws as an argument, \<open>None\<close> its error;
  \<open>ecdsa_Public\<close> gives the point of a private key.
\<close>

record crypto =
  sha256 :: "bytes \<Rightarrow> bytes"
  ripemd160 :: "bytes \<Rightarrow> bytes"
  ecdsa_Public :: "PrivateKey \<Rightarrow> nat \<times> nat"
  ecdsa_Sign :: "PrivateKey \<Rightarrow> bytes \<Rightarrow> nat \<Rightarrow> (nat \<times> nat) option"
  ecdsa_Verify :: "nat \<times> nat \<Rightarrow> bytes \<Rightarrow> nat \<Rightarrow> nat \<Rightarrow> bool"

text \<open>
  \<^verbatim>\<open>jsoniter.Marshal\<close> gives \<open>None\<close> on an error, which only a header with a difficulty that is not finite
  causes; \<^verbatim>\<open>jsoniter.Unmarshal\<close> gives the value it filled and whether it reports an error.
\<close>

record json = crypto +
  marshal_header :: "BlockHeader \<Rightarrow> bytes option"
  marshal_block :: "Block \<Rightarrow> bytes option"
  unmarshal_block :: "bytes \<Rightarrow> Block \<times> bool"
  marshal_txn :: "Transaction \<Rightarrow> bytes"
  unmarshal_txn :: "bytes \<Rightarrow> Transaction \<times> bool"
  marshal_outs :: "TxnOutput list \<Rightarrow> bytes"
  unmarshal_outs :: "bytes \<Rightarrow> TxnOutput list \<times> bool"

text \<open>\<^verbatim>\<open>utils.Encode\<close>: a marshalling error ends the process.\<close>

definition Encode :: "bytes option \<Rightarrow> bytes outcome" where
  "Encode r = (case r of None \<Rightarrow> Exit | Some b \<Rightarrow> Ok b)"

section \<open>Keys and outputs\<close>

definition PublicKey_Hash :: "'z crypto_scheme \<Rightarrow> PublicKey \<Rightarrow> HashValue" where
  "PublicKey_Hash E pk = ripemd160 E (sha256 E pk)"

definition IsLockedWithKey :: "'z crypto_scheme \<Rightarrow> TxnOutput \<Rightarrow> PublicKey \<Rightarrow> bool" where
  "IsLockedWithKey E out pubKey = HashValue_Equal (PubKeyHash out) (PublicKey_Hash E pubKey)"

section \<open>Transactions\<close>

definition Transaction_Hash :: "'z json_scheme \<Rightarrow> Transaction \<Rightarrow> HashValue" where
  "Transaction_Hash E txn = sha256 E (marshal_txn E txn)"

definition Transaction_String :: "'z json_scheme \<Rightarrow> Transaction \<Rightarrow> bytes" where
  "Transaction_String E txn = marshal_txn E txn"

definition IsCoinbase :: "Transaction \<Rightarrow> bool" where
  "IsCoinbase txn \<longleftrightarrow> length (Vin txn) = 1 \<and> VoutIndex (Vin txn ! 0) = -1"

definition TrimmedCopy :: "Transaction \<Rightarrow> Transaction" where
  "TrimmedCopy txn = \<lparr>
     Vin = map (\<lambda>vin. \<lparr>VoutHash = VoutHash vin, VoutIndex = VoutIndex vin,
                       VoutValue = VoutValue vin, Signature = [], PubKey = []\<rparr>) (Vin txn),
     Vout = map (\<lambda>vout. \<lparr>Value = Value vout, PubKeyHash = PubKeyHash vout\<rparr>) (Vout txn)\<rparr>"

text \<open>The text that is signed for input \<open>i\<close>: \<^verbatim>\<open>fmt.Sprintf("%s\n", txnCopy)\<close> with that input's key set.\<close>

definition data_to_sign :: "'z json_scheme \<Rightarrow> Transaction \<Rightarrow> nat \<Rightarrow> HashValue \<Rightarrow> bytes" where
  "data_to_sign E txnCopy i key =
     Transaction_String E (txnCopy\<lparr>Vin := (Vin txnCopy)[i := (Vin txnCopy ! i)\<lparr>PubKey := key\<rparr>]\<rparr>) @ [10]"

text \<open>A Go map read: a missing key gives the zero transaction.\<close>

definition prev_txn :: "(bytes \<rightharpoonup> Transaction) \<Rightarrow> TxnInput \<Rightarrow> Transaction" where
  "prev_txn hashedTxn vin =
     (case hashedTxn (HashValue_String (VoutHash vin)) of None \<Rightarrow> zero_txn | Some t \<Rightarrow> t)"

fun sign_loop ::
  "'z json_scheme \<Rightarrow> PrivateKey \<Rightarrow> (nat \<Rightarrow> nat) \<Rightarrow> (bytes \<rightharpoonup> Transaction) \<Rightarrow> Transaction \<Rightarrow>
   nat \<Rightarrow> TxnInput list \<Rightarrow> Transaction \<Rightarrow> (Transaction \<times> bool) outcome" where
  "sign_loop E sk rnd hashedTxn txnCopy inIndex [] txn = Ok (txn, False)"
| "sign_loop E sk rnd hashedTxn txnCopy inIndex (vin # vins) txn =
     (let prevTxn = prev_txn hashedTxn vin in
      if int (length (Vout prevTxn)) \<le> VoutIndex vin then Exit
      else obind (oindex (Vout prevTxn) (VoutIndex vin)) (\<lambda>out.
        case ecdsa_Sign E sk (data_to_sign E txnCopy inIndex (PubKeyHash out)) (rnd inIndex) of
          None \<Rightarrow> Ok (txn, True)
        | Some (r, s) \<Rightarrow>
            sign_loop E sk rnd hashedTxn txnCopy (Suc inIndex) vins
              (txn\<lparr>Vin := (Vin txn)[inIndex := (Vin txn ! inIndex)\<lparr>Signature := Bytes r @ Bytes s\<rparr>]\<rparr>)))"

text \<open>\<^verbatim>\<open>Sign\<close> updates the transaction in place; the flag is the error of \<^verbatim>\<open>ecdsa.Sign\<close>.\<close>

definition Transaction_Sign ::
  "'z json_scheme \<Rightarrow> PrivateKey \<Rightarrow> (nat \<Rightarrow> nat) \<Rightarrow> (bytes \<rightharpoonup> Transaction) \<Rightarrow> Transaction \<Rightarrow>
   (Transaction \<times> bool) outcome" where
  "Transaction_Sign E sk rnd hashedTxn txn =
     (if IsCoinbase txn then Ok (txn, False)
      else let txnCopy = TrimmedCopy txn
           in sign_loop E sk rnd hashedTxn txnCopy 0 (Vin txnCopy) txn)"

definition split_half :: "bytes \<Rightarrow> nat \<times> nat" where
  "split_half bs = (SetBytes (take (length bs div 2) bs), SetBytes (drop (length bs div 2) bs))"

fun verify_loop ::
  "'z json_scheme \<Rightarrow> (bytes \<rightharpoonup> Transaction) \<Rightarrow> Transaction \<Rightarrow> nat \<Rightarrow> TxnInput list \<Rightarrow> bool outcome" where
  "verify_loop E hashedTxn txnCopy inIndex [] = Ok True"
| "verify_loop E hashedTxn txnCopy inIndex (vin # vins) =
     (let prevTxn = prev_txn hashedTxn vin in
      obind (oindex (Vout prevTxn) (VoutIndex vin)) (\<lambda>out.
        case split_half (Signature vin) of (r, s) \<Rightarrow>
          if \<not> ecdsa_Verify E (split_half (PubKey vin))
                 (data_to_sign E txnCopy inIndex (PubKeyHash out)) r s
          then Ok False
          else verify_loop E hashedTxn txnCopy (Suc inIndex) vins))"

definition Transaction_Verify ::
  "'z json_scheme \<Rightarrow> (bytes \<rightharpoonup> Transaction) \<Rightarrow> Transaction \<Rightarrow> bool outcome" where
  "Transaction_Verify E hashedTxn txn =
     (if IsCoinbase txn then Ok True
      else verify_loop E hashedTxn (TrimmedCopy txn) 0 (Vin txn))"

text \<open>One step up a Merkle path, shared by \<^verbatim>\<open>RelayVerify\<close> and \<^verbatim>\<open>Block.Hash\<close>.\<close>

definition path_step :: "(bytes \<Rightarrow> bytes) \<Rightarrow> HashValue \<Rightarrow> MerklePath \<Rightarrow> HashValue" where
  "path_step sha hash path =
     (if Left path then sha (PathHashValue path @ hash) else sha (hash @ PathHashValue path))"

definition RelayVerify :: "'z json_scheme \<Rightarrow> Transaction \<Rightarrow> HashValue \<Rightarrow> MerklePath list \<Rightarrow> bool" where
  "RelayVerify E txn merkleRoot relayMerklePath =
     HashValue_Equal merkleRoot (foldl (path_step (sha256 E)) (Transaction_Hash E txn) relayMerklePath)"

section \<open>Blocks\<close>

definition BlockHeader_Hash :: "'z json_scheme \<Rightarrow> BlockHeader \<Rightarrow> HashValue outcome" where
  "BlockHeader_Hash E bh = obind (Encode (marshal_header E bh)) (\<lambda>b. Ok (sha256 E b))"

definition Block_Hash :: "'z json_scheme \<Rightarrow> Block \<Rightarrow> HashValue outcome" where
  "Block_Hash E b =
     obind (BlockHeader_Hash E (BlockHeader.truncate b)) (\<lambda>h.
       let hash = foldl (path_step (sha256 E)) (sha256 E h) (BatchMerklePath b)
       in Ok (sha256 E (hash @ BaseTypeToBytes (BInt (GroupBase b)) @ BaseTypeToBytes (BInt (BatchSize b))
                        @ BaseTypeToBytes (BInt64 (Nonce b)))))"

text \<open>\<^verbatim>\<open>GetTarget\<close> of \<^verbatim>\<open>core/proof_of_work.go\<close> and the first lines of \<^verbatim>\<open>Block.Verify\<close> are the same computation.\<close>

definition GetTarget :: "float64 \<Rightarrow> int outcome" where
  "GetTarget target = obind (big_NewFloat_Int target) (\<lambda>d. big_Div (2 ^ 256) d)"

definition Block_Verify :: "'z json_scheme \<Rightarrow> Block \<Rightarrow> bool outcome" where
  "Block_Verify E b =
     obind (GetTarget (Target b)) (\<lambda>target.
     obind (Block_Hash E b) (\<lambda>hash. Ok (int (SetBytes hash) < target)))"

end
