(* ===== verification/Ref_Json.thy ===== *)
theory Ref_Json
  imports Chain_Types
begin

text \<open>
  The contract of the marshaller and a concrete marshaller that meets it. \<open>json_codec\<close> states what the
  program relies on: unmarshalling gives back what was marshalled, the text is not empty, and only
  a difficulty that is not finite fails. \<open>ref_json\<close> shows the contract can be met: a self-delimiting
  byte format behind the JSON prefix of a transaction, the digest \<open>Sum256\<close>, and a signature
  scheme that stands in for ECDSA.
\<close>

section \<open>The contract\<close>

locale json_codec =
  fixes E :: "'z json_scheme"
  assumes unmarshal_marshal_block: "marshal_block E b = Some bs \<Longrightarrow> unmarshal_block E bs = (b, False)"
    and unmarshal_marshal_txn [simp]: "unmarshal_txn E (marshal_txn E t) = (t, False)"
    and unmarshal_marshal_outs [simp]: "unmarshal_outs E (marshal_outs E outs) = (outs, False)"
    and marshal_block_finite: "Target b = Fin q \<Longrightarrow> \<exists>bs. marshal_block E b = Some bs"
    and marshal_header_finite: "Target h = Fin q \<Longrightarrow> \<exists>bs. marshal_header E h = Some bs"
    and marshal_txn_nonempty [simp]: "marshal_txn E t \<noteq> []"
    and marshal_outs_nonempty [simp]: "marshal_outs E outs \<noteq> []"
begin

lemma marshal_txn_inject [simp]: "marshal_txn E t = marshal_txn E t' \<longleftrightarrow> t = t'"
  by (metis fst_conv unmarshal_marshal_txn)

lemma marshal_block_inject: "marshal_block E b = Some bs \<Longrightarrow> marshal_block E b' = Some bs \<Longrightarrow> b = b'"
  by (metis fst_conv unmarshal_marshal_block)

text \<open>Equal transaction hashes are equal transactions or a collision of the digest.\<close>

lemma Transaction_Hash_collision:
  "Transaction_Hash E t = Transaction_Hash E t' \<Longrightarrow> t \<noteq> t' \<Longrightarrow> \<exists>x y. x \<noteq> y \<and> sha256 E x = sha256 E y"
  unfolding Transaction_Hash_def using marshal_txn_inject by blast

end

section \<open>Self-delimiting encodings\<close>

locale stream_codec =
  fixes enc :: "'a \<Rightarrow> bytes" and dec :: "bytes \<Rightarrow> 'a \<times> bytes"
  assumes stream [simp, codec_simps]: "dec (enc x @ rest) = (x, rest)"

definition enc_digit :: "nat \<Rightarrow> byte" where
  "enc_digit d = of_nat (d + 1)"

definition enc_nat :: "nat \<Rightarrow> bytes" where
  "enc_nat n = map enc_digit (to_digits 255 n) @ [0]"

definition dec_nat :: "bytes \<Rightarrow> nat \<times> bytes" where
  "dec_nat bs = (from_digits 255 (map (\<lambda>b. unat b - 1) (takeWhile (\<lambda>b. b \<noteq> 0) bs)),
                 tl (dropWhile (\<lambda>b. b \<noteq> 0) bs))"

lemma unat_enc_digit: "d < 255 \<Longrightarrow> unat (enc_digit d) = d + 1"
  unfolding enc_digit_def unat_of_nat by simp

interpretation nat_codec: stream_codec enc_nat dec_nat
proof
  fix n rest
  let ?ds = "map enc_digit (to_digits 255 n)"
  have digit: "unat (enc_digit d) = d + 1" if "d \<in> set (to_digits 255 n)" for d
    using to_digits_less [OF _ that] by (simp add: unat_enc_digit)
  have nz: "b \<noteq> 0" if "b \<in> set ?ds" for b
    using that digit by fastforce
  have "takeWhile (\<lambda>b. b \<noteq> 0) (?ds @ 0 # rest) = ?ds" "dropWhile (\<lambda>b. b \<noteq> 0) (?ds @ 0 # rest) = 0 # rest"
    by (subst takeWhile_append2; use nz in simp) (subst dropWhile_append2; use nz in simp)
  moreover have "map (\<lambda>b. unat b - 1) ?ds = to_digits 255 n"
    using digit by (auto intro!: map_idI)
  ultimately show "dec_nat (enc_nat n @ rest) = (n, rest)"
    by (simp add: dec_nat_def enc_nat_def del: map_map)
qed

definition enc_int :: "int \<Rightarrow> bytes" where
  "enc_int x = (if x < 0 then 1 else 0) # enc_nat (nat \<bar>x\<bar>)"

definition dec_int :: "bytes \<Rightarrow> int \<times> bytes" where
  "dec_int bs = (case dec_nat (tl bs) of (n, rest) \<Rightarrow> (if hd bs = 1 then - int n else int n, rest))"

interpretation int_codec: stream_codec enc_int dec_int
  by unfold_locales (simp add: enc_int_def dec_int_def)

definition enc_bytes :: "bytes \<Rightarrow> bytes" where
  "enc_bytes bs = enc_nat (length bs) @ bs"

definition dec_bytes :: "bytes \<Rightarrow> bytes \<times> bytes" where
  "dec_bytes bs = (case dec_nat bs of (n, rest) \<Rightarrow> (take n rest, drop n rest))"

interpretation bytes_codec: stream_codec enc_bytes dec_bytes
  by unfold_locales (simp add: enc_bytes_def dec_bytes_def)

definition enc_list :: "('a \<Rightarrow> bytes) \<Rightarrow> 'a list \<Rightarrow> bytes" where
  "enc_list enc xs = enc_nat (length xs) @ concat (map enc xs)"

fun dec_many :: "(bytes \<Rightarrow> 'a \<times> bytes) \<Rightarrow> nat \<Rightarrow> bytes \<Rightarrow> 'a list \<times> bytes" where
  "dec_many dec 0 bs = ([], bs)"
| "dec_many dec (Suc n) bs = (case dec bs of (x, rest) \<Rightarrow> case dec_many dec n rest of (xs, rest) \<Rightarrow> (x # xs, rest))"

definition dec_list :: "(bytes \<Rightarrow> 'a \<times> bytes) \<Rightarrow> bytes \<Rightarrow> 'a list \<times> bytes" where
  "dec_list dec bs = (case dec_nat bs of (n, rest) \<Rightarrow> dec_many dec n rest)"

context stream_codec
begin

lemma dec_many_concat: "dec_many dec (length xs) (concat (map enc xs) @ rest) = (xs, rest)"
  by (induction xs) simp_all

lemma list_codec: "dec_list dec (enc_list enc xs @ rest) = (xs, rest)"
  by (simp add: dec_list_def enc_list_def dec_many_concat)

end

section \<open>Encodings of the records\<close>

definition enc_input :: "TxnInput \<Rightarrow> bytes" where
  "enc_input v = enc_bytes (VoutHash v) @ enc_int (VoutIndex v) @ enc_int (VoutValue v)
     @ enc_bytes (Signature v) @ enc_bytes (PubKey v)"

definition dec_input :: "bytes \<Rightarrow> TxnInput \<times> bytes" where
  "dec_input bs = (case dec_bytes bs of (a, bs) \<Rightarrow> case dec_int bs of (b, bs) \<Rightarrow> case dec_int bs of (c, bs) \<Rightarrow>
     case dec_bytes bs of (d, bs) \<Rightarrow> case dec_bytes bs of (e, bs) \<Rightarrow>
     (\<lparr>VoutHash = a, VoutIndex = b, VoutValue = c, Signature = d, PubKey = e\<rparr>, bs))"

interpretation input_codec: stream_codec enc_input dec_input
  by unfold_locales (simp add: enc_input_def dec_input_def)

definition enc_output :: "TxnOutput \<Rightarrow> bytes" where
  "enc_output v = enc_int (Value v) @ enc_bytes (PubKeyHash v)"

definition dec_output :: "bytes \<Rightarrow> TxnOutput \<times> bytes" where
  "dec_output bs = (case dec_int bs of (a, bs) \<Rightarrow> case dec_bytes bs of (b, bs) \<Rightarrow>
     (\<lparr>Value = a, PubKeyHash = b\<rparr>, bs))"

interpretation output_codec: stream_codec enc_output dec_output
  by unfold_locales (simp add: enc_output_def dec_output_def)

definition enc_txn :: "Transaction \<Rightarrow> bytes" where
  "enc_txn t = enc_list enc_input (Vin t) @ enc_list enc_output (Vout t)"

definition dec_txn :: "bytes \<Rightarrow> Transaction \<times> bytes" where
  "dec_txn bs = (case dec_list dec_input bs of (a, bs) \<Rightarrow> case dec_list dec_output bs of (b, bs) \<Rightarrow>
     (\<lparr>Vin = a, Vout = b\<rparr>, bs))"

interpretation txn_codec: stream_codec enc_txn dec_txn
  by unfold_locales (simp add: enc_txn_def dec_txn_def input_codec.list_codec output_codec.list_codec)

definition enc_path :: "MerklePath \<Rightarrow> bytes" where
  "enc_path p = enc_bytes (PathHashValue p) @ [if Left p then 1 else 0]"

definition dec_path :: "bytes \<Rightarrow> MerklePath \<times> bytes" where
  "dec_path bs = (case dec_bytes bs of (a, bs) \<Rightarrow> (\<lparr>PathHashValue = a, Left = hd bs = 1\<rparr>, tl bs))"

interpretation path_codec: stream_codec enc_path dec_path
  by unfold_locales (simp add: enc_path_def dec_path_def)

definition enc_rat :: "rat \<Rightarrow> bytes" where
  "enc_rat q = enc_int (fst (quotient_of q)) @ enc_int (snd (quotient_of q))"

definition dec_rat :: "bytes \<Rightarrow> rat \<times> bytes" where
  "dec_rat bs = (case dec_int bs of (n, bs) \<Rightarrow> case dec_int bs of (d, bs) \<Rightarrow> (of_int n / of_int d, bs))"

interpretation rat_codec: stream_codec enc_rat dec_rat
  using quotient_of_div [OF prod.collapse [symmetric]]
  by unfold_locales (simp add: enc_rat_def dec_rat_def)

definition enc_block :: "rat \<Rightarrow> Block \<Rightarrow> bytes" where
  "enc_block q b = enc_int (Group b) @ enc_int (Height b) @ enc_bytes (PrevHash b) @ enc_int (Timestamp b)
     @ enc_bytes (MerkleRoot b) @ enc_rat q @ enc_int (GroupBase b) @ enc_int (BatchSize b)
     @ enc_list enc_path (BatchMerklePath b) @ enc_int (Nonce b) @ enc_list enc_txn (Txns b)"

definition dec_block :: "bytes \<Rightarrow> Block" where
  "dec_block bs = (case dec_int bs of (g, bs) \<Rightarrow> case dec_int bs of (h, bs) \<Rightarrow> case dec_bytes bs of (p, bs) \<Rightarrow>
     case dec_int bs of (t, bs) \<Rightarrow> case dec_bytes bs of (m, bs) \<Rightarrow> case dec_rat bs of (q, bs) \<Rightarrow>
     case dec_int bs of (gb, bs) \<Rightarrow> case dec_int bs of (s, bs) \<Rightarrow> case dec_list dec_path bs of (mp, bs) \<Rightarrow>
     case dec_int bs of (n, bs) \<Rightarrow> case dec_list dec_txn bs of (ts, bs) \<Rightarrow>
     \<lparr>Group = g, Height = h, PrevHash = p, Timestamp = t, MerkleRoot = m, Target = Fin q,
      GroupBase = gb, BatchSize = s, BatchMerklePath = mp, Nonce = n, Txns = ts\<rparr>)"

lemma dec_enc_block: "Target b = Fin q \<Longrightarrow> dec_block (enc_block q b) = b"
  using txn_codec.list_codec [of "Txns b" "[]"]
  by (simp add: dec_block_def enc_block_def path_codec.list_codec)

definition enc_header :: "rat \<Rightarrow> BlockHeader \<Rightarrow> bytes" where
  "enc_header q b = enc_int (Group b) @ enc_int (Height b) @ enc_bytes (PrevHash b) @ enc_int (Timestamp b)
     @ enc_bytes (MerkleRoot b) @ enc_rat q"

section \<open>The reference instance\<close>

definition ref_txn_prefix :: "Transaction \<Rightarrow> bytes" where
  "ref_txn_prefix t = (case Vin t of [] \<Rightarrow> []
     | v # vs \<Rightarrow> ascii ''{\"Vin\":[{\"VoutHash\":\"'' @ EncodeToString (VoutHash v))"

definition ref_marshal_txn :: "Transaction \<Rightarrow> bytes" where
  "ref_marshal_txn t = ref_txn_prefix t @ 0 # enc_txn t"

definition ref_unmarshal_txn :: "bytes \<Rightarrow> Transaction \<times> bool" where
  "ref_unmarshal_txn bs = (fst (dec_txn (tl (dropWhile (\<lambda>b. b \<noteq> 0) bs))), False)"

definition ref_json :: json where
  "ref_json = \<lparr>
     sha256 = Sum256,
     ripemd160 = (\<lambda>m. take 20 (Sum256 m)),
     ecdsa_Public = (\<lambda>sk. (sk, sk)),
     ecdsa_Sign = (\<lambda>sk d rnd. Some (sk + SetBytes (take 32 d), sk + SetBytes (take 32 d))),
     ecdsa_Verify = (\<lambda>pk d r s. r = fst pk + SetBytes (take 32 d) \<and> s = snd pk + SetBytes (take 32 d)),
     marshal_header = (\<lambda>h. case Target h of Fin q \<Rightarrow> Some (enc_header q h) | _ \<Rightarrow> None),
     marshal_block = (\<lambda>b. case Target b of Fin q \<Rightarrow> Some (enc_block q b) | _ \<Rightarrow> None),
     unmarshal_block = (\<lambda>bs. (dec_block bs, False)),
     marshal_txn = ref_marshal_txn,
     unmarshal_txn = ref_unmarshal_txn,
     marshal_outs = enc_list enc_output,
     unmarshal_outs = (\<lambda>bs. (fst (dec_list dec_output bs), False))\<rparr>"

lemma hex_digit_nonzero: "n < 16 \<Longrightarrow> hex_digit n \<noteq> 0"
  using fromHexChar_hex_digit [of n] by (auto simp: fromHexChar_def)

lemma EncodeToString_nonzero: "0 \<notin> set (EncodeToString bs)"
proof -
  have "unat b div 16 < 16" for b :: byte by (simp add: less_mult_imp_div_less)
  then show ?thesis
    using hex_digit_nonzero by (auto simp: EncodeToString_def hex_encode_byte_def)
qed

lemma ref_unmarshal_marshal_txn: "ref_unmarshal_txn (ref_marshal_txn t) = (t, False)"
proof -
  have "\<forall>b \<in> set (ref_txn_prefix t). b \<noteq> 0"
    using EncodeToString_nonzero by (auto simp: ref_txn_prefix_def ascii_def split: list.splits)
  then have "dropWhile (\<lambda>b. b \<noteq> 0) (ref_marshal_txn t) = 0 # enc_txn t"
    by (simp add: ref_marshal_txn_def dropWhile_append2)
  then show ?thesis
    using txn_codec.stream [of t "[]"] by (simp add: ref_unmarshal_txn_def)
qed

interpretation ref_codec: json_codec ref_json
proof
  show "unmarshal_outs ref_json (marshal_outs ref_json outs) = (outs, False)" for outs
    using output_codec.list_codec [of outs "[]"] by (simp add: ref_json_def)
  show "marshal_outs ref_json outs \<noteq> []" for outs
    by (simp add: ref_json_def enc_list_def enc_nat_def)
  show "marshal_txn ref_json t \<noteq> []" for t
    by (simp add: ref_json_def ref_marshal_txn_def)
qed (auto simp: ref_json_def ref_unmarshal_marshal_txn dec_enc_block split: float64.splits)

interpretation ref_digest: digest32 "sha256 ref_json"
  by unfold_locales (simp add: ref_json_def)

end
