(* ===== verification/Txn_Auth.thy ===== *)
theory Txn_Auth
  imports Ref_Json
begin

text \<open>
  What the text forms and the signatures of \<^verbatim>\<open>types\<close> guarantee. Hash values, keys and signatures
  survive their JSON form. A transaction signed by \<^verbatim>\<open>Sign\<close> passes \<^verbatim>\<open>Verify\<close> when the two numbers of
  each signature and key can be split again; \<^verbatim>\<open>Verify\<close> looks at the inputs only, because
  \<^verbatim>\<open>ecdsa.Verify\<close> reads 32 bytes of what it is given and the program gives it the JSON text.
\<close>

section \<open>Text forms\<close>

lemma oslice_inner:
  "length q = 1 \<Longrightarrow> length q' = 1 \<Longrightarrow>
     oslice (q @ xs @ q') 1 (int (length (q @ xs @ q')) - 1) = Ok xs"
  by (simp add: oslice_def)

text \<open>
  Decoding the JSON form of a hash value, a public key or a signature gives the value back
  without an error.
\<close>

lemma json_bytes_roundtrip:
  "HashValue_UnmarshalJSON (HashValue_MarshalJSON h) = Ok (h, None) \<and>
   PublicKey_UnmarshalJSON (PublicKey_MarshalJSON k) = Ok (k, None) \<and>
   Signature_UnmarshalJSON (Signature_MarshalJSON s) = Ok (s, None)"
  using oslice_inner [of "ascii ''\"''" "ascii ''\"''"]
  by (simp add: HashValue_UnmarshalJSON_def HashValue_MarshalJSON_def HashValue_String_def
      PublicKey_UnmarshalJSON_def PublicKey_MarshalJSON_def PublicKey_String_def
      Signature_UnmarshalJSON_def Signature_MarshalJSON_def Signature_String_def ascii_def)

lemma HashValue_String_inject [simp]: "HashValue_String a = HashValue_String b \<longleftrightarrow> a = b"
  by (simp add: HashValue_String_def)

lemma HashValue_Key_32: "length h = 32 \<Longrightarrow> HashValue_Key h = h"
  by (rule nth_equalityI) (auto simp: HashValue_Key_def)

lemma length_HashValue_Key [simp]: "length (HashValue_Key h) = 32"
  by (simp add: HashValue_Key_def)

section \<open>Halves of a byte string\<close>

text \<open>
  \<^verbatim>\<open>r.Bytes()\<close> and \<^verbatim>\<open>s.Bytes()\<close> drop leading zeros; the concatenation is cut in the middle again.
\<close>

definition halves :: "nat \<Rightarrow> nat \<Rightarrow> bool" where
  "halves r s \<longleftrightarrow> length (Bytes s) = length (Bytes r) \<or> length (Bytes s) = Suc (length (Bytes r))"

lemma length_Bytes_SetBytes: "length (Bytes (SetBytes bs)) \<le> length bs"
  by (simp add: Bytes_SetBytes length_dropWhile_le)

lemma split_half_append: "halves r s \<Longrightarrow> split_half (Bytes r @ Bytes s) = (r, s)"
  by (auto simp: halves_def split_half_def SetBytes_Bytes)

text \<open>
  A signature or public key stored as the concatenation of two numbers' bytes is read back as the
  same two numbers exactly when the second is as long as the first, or one byte longer.
\<close>

lemma split_half_exact: "split_half (Bytes r @ Bytes s) = (r, s) \<longleftrightarrow> halves r s"
proof
  assume eq: "split_half (Bytes r @ Bytes s) = (r, s)"
  let ?m = "length (Bytes r)" and ?n = "length (Bytes s)"
  let ?k = "(?m + ?n) div 2"
  from eq have r: "SetBytes (take ?k (Bytes r @ Bytes s)) = r" and s: "SetBytes (drop ?k (Bytes r @ Bytes s)) = s"
    by (auto simp: split_half_def simp del: take_append drop_append)
  have "?m \<le> ?k" using length_Bytes_SetBytes [of "take ?k (Bytes r @ Bytes s)"] r by simp
  moreover have "?n \<le> ?m + ?n - ?k" using length_Bytes_SetBytes [of "drop ?k (Bytes r @ Bytes s)"] s by simp
  ultimately show "halves r s" by (auto simp: halves_def)
qed (rule split_half_append)

section \<open>The contract of the signature scheme\<close>

text \<open>
  Documented of \<^verbatim>\<open>crypto/ecdsa\<close>: a signature made with a private key verifies under its public key, and
  a message longer than the bit length of the curve order (256 bits for P256) is truncated to it.
\<close>

locale ecdsa_scheme =
  fixes E :: "'z json_scheme"
  assumes sign_verify: "ecdsa_Sign E sk d rnd = Some (r, s) \<Longrightarrow> ecdsa_Verify E (ecdsa_Public E sk) d r s"
    and truncates: "ecdsa_Verify E pk d r s = ecdsa_Verify E pk (take 32 d) r s"
begin

text \<open>A key pair and a signature that are stored as halves that split back.\<close>

lemma stored_sign_verify:
  assumes "ecdsa_Sign E sk d rnd = Some (r, s)" and "halves r s"
    and "pub = Bytes (fst (ecdsa_Public E sk)) @ Bytes (snd (ecdsa_Public E sk))"
    and "halves (fst (ecdsa_Public E sk)) (snd (ecdsa_Public E sk))"
  shows "case split_half (Bytes r @ Bytes s) of (r', s') \<Rightarrow> ecdsa_Verify E (split_half pub) d r' s'"
  using assms sign_verify by (simp add: split_half_append)

text \<open>Messages with the same first 32 bytes have the same signatures.\<close>

lemma same_prefix: "take 32 d = take 32 d' \<Longrightarrow> ecdsa_Verify E pk d r s = ecdsa_Verify E pk d' r s"
  using truncates by metis

end

section \<open>Signing, then verifying\<close>

lemma TrimmedCopy_sign [simp]:
  "i < length (Vin t) \<Longrightarrow>
     TrimmedCopy (t\<lparr>Vin := (Vin t)[i := (Vin t ! i)\<lparr>Signature := sig\<rparr>]\<rparr>) = TrimmedCopy t"
  by (auto simp: TrimmedCopy_def map_update intro!: list_update_same_conv [THEN iffD2])

text \<open>
  What \<^verbatim>\<open>ecdsa.Sign\<close> draws for input \<open>i\<close> of a transaction, if anything. \<open>halves_split\<close> says of the key and of these signatures, and of no others, that
  their two numbers can be split again.
\<close>

definition drawn :: "'z json_scheme \<Rightarrow> PrivateKey \<Rightarrow> (nat \<Rightarrow> nat) \<Rightarrow> (bytes \<rightharpoonup> Transaction) \<Rightarrow> Transaction \<Rightarrow> nat \<Rightarrow> (nat \<times> nat) option" where
  "drawn E sk rnd prevs txnCopy i =
     (let vin = Vin txnCopy ! i
      in case oindex (Vout (prev_txn prevs vin)) (VoutIndex vin) of
           Ok out \<Rightarrow> ecdsa_Sign E sk (data_to_sign E txnCopy i (PubKeyHash out)) (rnd i) | _ \<Rightarrow> None)"

definition halves_split :: "'z json_scheme \<Rightarrow> PrivateKey \<Rightarrow> (nat \<Rightarrow> nat) \<Rightarrow> (bytes \<rightharpoonup> Transaction) \<Rightarrow> Transaction \<Rightarrow> bool" where
  "halves_split E sk rnd prevs txn \<longleftrightarrow>
     halves (fst (ecdsa_Public E sk)) (snd (ecdsa_Public E sk)) \<and>
     (\<forall>i < length (Vin txn). \<forall>r s. drawn E sk rnd prevs (TrimmedCopy txn) i = Some (r, s) \<longrightarrow> halves r s)"

definition owned_by :: "'z json_scheme \<Rightarrow> PrivateKey \<Rightarrow> Transaction \<Rightarrow> bool" where
  "owned_by E sk txn \<longleftrightarrow>
     (\<forall>vin \<in> set (Vin txn). PubKey vin = Bytes (fst (ecdsa_Public E sk)) @ Bytes (snd (ecdsa_Public E sk)))"

text \<open>
  The signing loop from input \<open>i\<close> on leaves the first \<open>i\<close> inputs, the fields other than the
  signatures, and a suffix of inputs that the verification loop accepts.
\<close>

lemma sign_loop_frame:
  "sign_loop E sk rnd prevs copy i vins t = Ok (t', err) \<Longrightarrow> i + length vins \<le> length (Vin t) \<Longrightarrow>
     Vout t' = Vout t \<and> length (Vin t') = length (Vin t) \<and> take i (Vin t') = take i (Vin t) \<and>
     map PubKey (Vin t') = map PubKey (Vin t) \<and> TrimmedCopy t' = TrimmedCopy t"
proof (induction vins arbitrary: i t)
  case (Cons vin vins)
  from Cons.prems(1) obtain out where out: "oindex (Vout (prev_txn prevs vin)) (VoutIndex vin) = Ok out"
    by (auto simp: Let_def split: if_splits)
  show ?case
  proof (cases "ecdsa_Sign E sk (data_to_sign E copy i (PubKeyHash out)) (rnd i)")
    case None
    with Cons.prems out show ?thesis by (auto simp: Let_def split: if_splits)
  next
    case (Some rs)
    obtain r s where rs: "rs = (r, s)" by (cases rs)
    let ?t = "t\<lparr>Vin := (Vin t)[i := (Vin t ! i)\<lparr>Signature := Bytes r @ Bytes s\<rparr>]\<rparr>"
    have "sign_loop E sk rnd prevs copy (Suc i) vins ?t = Ok (t', err)"
      using Cons.prems(1) out Some rs by (auto simp: Let_def split: if_splits)
    from Cons.IH [OF this] Cons.prems(2) have IH: "Vout t' = Vout t" "length (Vin t') = length (Vin t)"
        "take (Suc i) (Vin t') = take (Suc i) (Vin ?t)" "map PubKey (Vin t') = map PubKey (Vin ?t)"
        "TrimmedCopy t' = TrimmedCopy t"
      by auto
    have "take i (Vin t') = take i (take (Suc i) (Vin t'))" by simp
    also have "\<dots> = take i (Vin t)" unfolding IH(3) by simp
    finally show ?thesis
      using IH Cons.prems(2) by (auto simp: map_update intro!: list_update_same_conv [THEN iffD2])
  qed
qed simp

lemma TrimmedCopy_Vin_nth:
  assumes "TrimmedCopy t' = TrimmedCopy t" and "i < length (Vin t)"
  shows "i < length (Vin t')" and "VoutHash (Vin t' ! i) = VoutHash (Vin t ! i)"
    and "VoutIndex (Vin t' ! i) = VoutIndex (Vin t ! i)"
proof -
  from assms(1) have eq: "map (\<lambda>v. (VoutHash v, VoutIndex v)) (Vin (TrimmedCopy t'))
      = map (\<lambda>v. (VoutHash v, VoutIndex v)) (Vin (TrimmedCopy t))" by simp
  have "map (\<lambda>v. (VoutHash v, VoutIndex v)) (Vin t') = map (\<lambda>v. (VoutHash v, VoutIndex v)) (Vin t)"
    using eq by (simp add: TrimmedCopy_def comp_def)
  note maps = this
  have len: "length (Vin t') = length (Vin t)"
    using maps by (rule map_eq_imp_length_eq)
  have "map (\<lambda>v. (VoutHash v, VoutIndex v)) (Vin t') ! i = map (\<lambda>v. (VoutHash v, VoutIndex v)) (Vin t) ! i"
    by (simp only: maps)
  with len show "i < length (Vin t')" and "VoutHash (Vin t' ! i) = VoutHash (Vin t ! i)"
      and "VoutIndex (Vin t' ! i) = VoutIndex (Vin t ! i)"
    using assms(2) by simp_all
qed

context ecdsa_scheme
begin

lemma sign_loop_verifies:
  assumes "sign_loop E sk rnd prevs (TrimmedCopy t) i vins t = Ok (t', False)"
    and "vins = drop i (Vin (TrimmedCopy t))" and "halves_split E sk rnd prevs t" and "owned_by E sk t"
  shows "verify_loop E prevs (TrimmedCopy t') i (drop i (Vin t')) = Ok True"
  using assms
proof (induction vins arbitrary: i t)
  case Nil
  then show ?case by (simp add: TrimmedCopy_def)
next
  case (Cons vin vins)
  have i: "i < length (Vin t)" and vin: "vin = Vin (TrimmedCopy t) ! i"
    and vins: "vins = drop (Suc i) (Vin (TrimmedCopy t))"
    using Cons.prems(2) [symmetric] by (simp_all add: drop_Cons_conv) (simp add: TrimmedCopy_def)
  then have len: "length vins = length (Vin t) - Suc i" by (simp add: TrimmedCopy_def)
  from Cons.prems(1) obtain out r s where out: "oindex (Vout (prev_txn prevs vin)) (VoutIndex vin) = Ok out"
    and rs: "ecdsa_Sign E sk (data_to_sign E (TrimmedCopy t) i (PubKeyHash out)) (rnd i) = Some (r, s)"
    by (auto simp: Let_def split: if_splits option.splits)
  let ?t = "t\<lparr>Vin := (Vin t)[i := (Vin t ! i)\<lparr>Signature := Bytes r @ Bytes s\<rparr>]\<rparr>"
  have rest: "sign_loop E sk rnd prevs (TrimmedCopy ?t) (Suc i) vins ?t = Ok (t', False)"
    using Cons.prems(1) out rs i by (auto simp: Let_def split: if_splits)
  have own: "owned_by E sk ?t"
    using Cons.prems(4) i by (auto simp: owned_by_def dest!: set_update_subset_insert [THEN subsetD])
  have IH: "verify_loop E prevs (TrimmedCopy t') (Suc i) (drop (Suc i) (Vin t')) = Ok True"
    using Cons.IH [OF rest _ _ own] Cons.prems(3) vins i by (simp add: halves_split_def)
  have frame: "TrimmedCopy t' = TrimmedCopy t" "take (Suc i) (Vin t') = take (Suc i) (Vin ?t)"
    using sign_loop_frame [OF rest] i len by auto
  have i': "i < length (Vin t')"
    using TrimmedCopy_Vin_nth [OF frame(1) i] by simp
  have "take (Suc i) (Vin t') ! i = Vin t' ! i" and "take (Suc i) (Vin ?t) ! i = Vin ?t ! i" by simp_all
  then have nth: "Vin t' ! i = (Vin t ! i)\<lparr>Signature := Bytes r @ Bytes s\<rparr>"
    using frame(2) i by simp
  have key: "PubKey (Vin t ! i) = Bytes (fst (ecdsa_Public E sk)) @ Bytes (snd (ecdsa_Public E sk))"
    using Cons.prems(4) i by (simp add: owned_by_def)
  have "prev_txn prevs (Vin t ! i) = prev_txn prevs vin" and "VoutIndex (Vin t ! i) = VoutIndex vin"
    using vin i by (simp_all add: TrimmedCopy_def prev_txn_def)
  moreover have "case split_half (Bytes r @ Bytes s) of (r', s') \<Rightarrow>
      ecdsa_Verify E (split_half (PubKey (Vin t ! i))) (data_to_sign E (TrimmedCopy t) i (PubKeyHash out)) r' s'"
    using Cons.prems(3) rs key i out vin by (intro stored_sign_verify) (auto simp: halves_split_def drawn_def)
  ultimately show ?case
    using i' nth IH frame(1) out
    by (cases "split_half (Bytes r @ Bytes s)")
      (simp add: Cons_nth_drop_Suc [symmetric] prev_txn_def Let_def)
qed

end

text \<open>
  C12: a transaction whose inputs carry the signer's public key and that \<^verbatim>\<open>Sign\<close> signed without an error
  passes \<^verbatim>\<open>Verify\<close> against the same previous transactions, provided that the two numbers of the key, and those of each signature that \<^verbatim>\<open>Sign\<close> drew for
  an input, can be split again: the code stores two numbers without leading zero bytes one behind the other, and splits them in the middle.
\<close>

theorem sign_then_verify:
  assumes "ecdsa_scheme E" and "halves_split E sk rnd prevs txn" and "owned_by E sk txn"
    and "Transaction_Sign E sk rnd prevs txn = Ok (txn', False)"
  shows "Transaction_Verify E prevs txn' = Ok True"
proof (cases "IsCoinbase txn")
  case True
  with assms(4) show ?thesis by (simp add: Transaction_Sign_def Transaction_Verify_def)
next
  case False
  with assms(4) have loop: "sign_loop E sk rnd prevs (TrimmedCopy txn) 0 (Vin (TrimmedCopy txn)) txn = Ok (txn', False)"
    by (simp add: Transaction_Sign_def Let_def)
  have "verify_loop E prevs (TrimmedCopy txn') 0 (Vin txn') = Ok True"
    using ecdsa_scheme.sign_loop_verifies [OF assms(1) loop] assms(2,3) by simp
  then show ?thesis by (simp add: Transaction_Verify_def)
qed

interpretation ref_ecdsa: ecdsa_scheme ref_json
  by unfold_locales (auto simp: ref_json_def)

definition example_txn :: Transaction where
  "example_txn = \<lparr>Vin = [\<lparr>VoutHash = [1, 2, 3, 4, 5, 6], VoutIndex = 0, VoutValue = 5, Signature = [],
     PubKey = [7, 7]\<rparr>], Vout = [\<lparr>Value = 5, PubKeyHash = [9]\<rparr>]\<rparr>"

definition example_prevs :: "bytes \<rightharpoonup> Transaction" where
  "example_prevs = [HashValue_String [1, 2, 3, 4, 5, 6] \<mapsto> \<lparr>Vin = [], Vout = [\<lparr>Value = 5, PubKeyHash = [8]\<rparr>]\<rparr>]"

lemma Bytes_7: "Bytes 7 = [7]"
  by (simp add: Bytes_def to_digits.simps)

lemma example_signs: "\<exists>t. Transaction_Sign ref_json 7 (\<lambda>_. 0) example_prevs example_txn = Ok (t, False)"
  by (simp add: Transaction_Sign_def example_txn_def IsCoinbase_def TrimmedCopy_def prev_txn_def
      example_prevs_def oindex_def ref_json_def Let_def)

theorem sign_then_verify_witness:
  "\<exists>t. Transaction_Sign ref_json 7 (\<lambda>_. 0) example_prevs example_txn = Ok (t, False) \<and>
     Transaction_Verify ref_json example_prevs t = Ok True"
proof -
  have "halves_split ref_json 7 (\<lambda>_. 0) example_prevs example_txn" and "owned_by ref_json 7 example_txn"
    by (auto simp: halves_split_def drawn_def halves_def ref_json_def owned_by_def example_txn_def Bytes_7
        TrimmedCopy_def Let_def oindex_def prev_txn_def example_prevs_def split: outcome.splits)
  then show ?thesis
    using example_signs sign_then_verify [OF ref_ecdsa.ecdsa_scheme_axioms] by blast
qed

section \<open>What a signature covers\<close>

text \<open>
  Documented of \<^verbatim>\<open>json-iterator\<close> (its output is that of \<^verbatim>\<open>encoding/json\<close>): a struct is written field by field
  in declaration order, so the text of a transaction with an input starts with that input's
  \<^verbatim>\<open>VoutHash\<close>.
\<close>

locale json_order =
  fixes E :: "'z json_scheme"
  assumes txn_prefix: "Vin t = v # vs \<Longrightarrow>
    \<exists>rest. marshal_txn E t = ascii ''{\"Vin\":[{\"VoutHash\":\"'' @ EncodeToString (VoutHash v) @ rest"
begin

lemma data_prefix:
  assumes "Vin t = v # vs" and "Vin t' = v' # vs'" and "VoutHash v = VoutHash v'" and "6 \<le> length (VoutHash v)"
  shows "take 32 (marshal_txn E t @ xs) = take 32 (marshal_txn E t' @ xs)"
proof -
  let ?p = "ascii ''{\"Vin\":[{\"VoutHash\":\"'' @ EncodeToString (VoutHash v)"
  have "length (EncodeToString bs) = 2 * length bs" for bs
    by (induction bs) (simp_all add: EncodeToString_def hex_encode_byte_def)
  with assms(4) have "32 \<le> length ?p" by (simp add: ascii_def)
  moreover obtain rest rest' where "marshal_txn E t = ?p @ rest" "marshal_txn E t' = ?p @ rest'"
    using txn_prefix [OF assms(1)] txn_prefix [OF assms(2)] assms(3) by fastforce
  ultimately show ?thesis by simp
qed

end

lemma verify_loop_same_data:
  assumes "\<And>i k pk r s. ecdsa_Verify E pk (data_to_sign E c i k) r s = ecdsa_Verify E pk (data_to_sign E c' i k) r s"
  shows "verify_loop E prevs c i vins = verify_loop E prevs c' i vins"
proof (induction vins arbitrary: i)
  case (Cons v vins)
  show ?case by (simp only: verify_loop.simps assms Cons.IH)
qed simp

text \<open>The transaction whose text is signed for input \<open>i\<close> starts with the same reference.\<close>

lemma trimmed_head:
  assumes "Vin t = v # vs"
  shows "\<exists>w ws. Vin ((TrimmedCopy t)\<lparr>Vin := (Vin (TrimmedCopy t))
      [i := (Vin (TrimmedCopy t) ! i)\<lparr>PubKey := k\<rparr>]\<rparr>) = w # ws \<and> VoutHash w = VoutHash v"
  using assms by (cases i) (auto simp: TrimmedCopy_def)

text \<open>
  C39: \<^verbatim>\<open>Verify\<close> depends on the inputs of a transaction only. Two transactions with the same inputs, the
  first of which refers to a previous transaction by at least 6 bytes of hash, are both accepted
  or both rejected, whatever their outputs.
\<close>

theorem verify_ignores_outputs:
  assumes "ecdsa_scheme E" and "json_order E" and "Vin txn = Vin txn'"
    and "6 \<le> length (VoutHash (hd (Vin txn)))" and "Vin txn \<noteq> []"
  shows "Transaction_Verify E prevs txn = Transaction_Verify E prevs txn'"
proof -
  obtain v vs where v: "Vin txn = v # vs" "Vin txn' = v # vs" "6 \<le> length (VoutHash v)"
    using assms(3-5) by (metis list.collapse)
  have "take 32 (data_to_sign E (TrimmedCopy txn) i k) = take 32 (data_to_sign E (TrimmedCopy txn') i k)" for i k
    using trimmed_head [OF v(1), of i k] trimmed_head [OF v(2), of i k] v(3)
      json_order.data_prefix [OF assms(2)]
    unfolding data_to_sign_def Transaction_String_def by metis
  then have "verify_loop E prevs (TrimmedCopy txn) 0 (Vin txn) = verify_loop E prevs (TrimmedCopy txn') 0 (Vin txn)"
    by (intro verify_loop_same_data ecdsa_scheme.same_prefix [OF assms(1)])
  then show ?thesis
    by (simp add: Transaction_Verify_def IsCoinbase_def assms(3))
qed

interpretation ref_order: json_order ref_json
  by unfold_locales (auto simp: ref_json_def ref_marshal_txn_def ref_txn_prefix_def)

theorem verify_ignores_outputs_witness:
  "Transaction_Verify ref_json example_prevs example_txn
     = Transaction_Verify ref_json example_prevs (example_txn\<lparr>Vout := []\<rparr>)"
  by (rule verify_ignores_outputs [OF ref_ecdsa.ecdsa_scheme_axioms ref_order.json_order_axioms])
    (simp_all add: example_txn_def)

end
