(* ===== verification/Base58.thy ===== *)
theory Base58
  imports Prelude
begin

text \<open>
  \<^verbatim>\<open>utils/base58.go\<close>: the in-place byte reversal, \<^verbatim>\<open>Base58Encode\<close> and \<^verbatim>\<open>Base58Decode\<close>, as the loops of the
  source, with the proofs that each loop computes its closed form and that the two routines
  are inverse to each other.
\<close>

named_theorems base58_simps \<open>closed forms of the Base58 loops\<close>

section \<open>The code\<close>

definition b58Alphabet :: bytes where
  "b58Alphabet = ascii ''123456789ABCDEFGHJKLMNPQRSTUVWXYZabcdefghijkmnopqrstuvwxyz''"

text \<open>The loop of \<^verbatim>\<open>ReverseBytes\<close>: two indices that move towards each other and swap.\<close>

function reverse_loop :: "'a list \<Rightarrow> int \<Rightarrow> int \<Rightarrow> 'a list" where
  "reverse_loop data i j =
     (if i < j then reverse_loop (data[nat i := data ! nat j, nat j := data ! nat i]) (i + 1) (j - 1)
      else data)"
  by pat_completeness auto
termination
  by (relation "measure (\<lambda>(data, i, j). nat (j - i))") auto

declare reverse_loop.simps [simp del]

definition ReverseBytes :: "'a list \<Rightarrow> 'a list" where
  "ReverseBytes data = reverse_loop data 0 (int (length data) - 1)"

text \<open>The division loop of \<^verbatim>\<open>Base58Encode\<close>, least significant digit first.\<close>

function b58_div_loop :: "nat \<Rightarrow> bytes \<Rightarrow> bytes" where
  "b58_div_loop x result =
     (if x \<noteq> 0 then b58_div_loop (x div 58) (result @ [b58Alphabet ! (x mod 58)]) else result)"
  by pat_completeness auto
termination
  by (relation "measure fst") auto

declare b58_div_loop.simps [simp del]

text \<open>One \<^verbatim>\<open>'1'\<close> in front for every leading zero byte; the loop breaks at the first other byte.\<close>

fun b58_zero_loop :: "bytes \<Rightarrow> bytes \<Rightarrow> bytes" where
  "b58_zero_loop [] result = result"
| "b58_zero_loop (b # input) result =
     (if b = 0 then b58_zero_loop input (b58Alphabet ! 0 # result) else result)"

definition Base58Encode :: "bytes \<Rightarrow> bytes" where
  "Base58Encode input = b58_zero_loop input (ReverseBytes (b58_div_loop (SetBytes input) []))"

text \<open>\<^verbatim>\<open>bytes.IndexByte\<close>: the first position of a byte, \<open>-1\<close> when it does not occur.\<close>

fun IndexByte :: "bytes \<Rightarrow> byte \<Rightarrow> int" where
  "IndexByte [] c = -1"
| "IndexByte (b # bs) c =
     (if b = c then 0 else if IndexByte bs c = -1 then -1 else IndexByte bs c + 1)"

fun b58_count_loop :: "bytes \<Rightarrow> nat" where
  "b58_count_loop [] = 0"
| "b58_count_loop (b # input) = (if b \<noteq> b58Alphabet ! 0 then 0 else Suc (b58_count_loop input))"

text \<open>
  The accumulator is a signed \<^verbatim>\<open>big.Int\<close>: a byte outside the alphabet contributes \<open>-1\<close>, and
  \<^verbatim>\<open>Bytes\<close> gives the absolute value.
\<close>

definition b58_accumulate :: "bytes \<Rightarrow> int" where
  "b58_accumulate payload = foldl (\<lambda>result b. result * 58 + IndexByte b58Alphabet b) 0 payload"

definition Base58Decode :: "bytes \<Rightarrow> bytes" where
  "Base58Decode input =
     (let zeroBytes = b58_count_loop input;
          payload = drop zeroBytes input;
          decoded = Bytes (nat \<bar>b58_accumulate payload\<bar>)
      in replicate zeroBytes 0 @ decoded)"

section \<open>Closed forms of the loops\<close>

lemma reverse_loop_length [simp]: "length (reverse_loop xs i j) = length xs"
  by (induction xs i j rule: reverse_loop.induct) (simp add: reverse_loop.simps)

lemma reverse_loop_nth:
  assumes "0 \<le> i" and "i + j = int (length xs) - 1" and "k < length xs"
  shows "reverse_loop xs i j ! k =
    (if i \<le> int k \<and> int k \<le> j then xs ! (length xs - 1 - k) else xs ! k)"
  using assms
proof (induction xs i j rule: reverse_loop.induct)
  case (1 xs i j)
  show ?case
  proof (cases "i < j")
    case True
    let ?ys = "xs[nat i := xs ! nat j, nat j := xs ! nat i]"
    have "reverse_loop xs i j ! k =
        (if i + 1 \<le> int k \<and> int k \<le> j - 1 then ?ys ! (length xs - 1 - k) else ?ys ! k)"
      using "1.IH" [OF True] "1.prems" True by (simp add: reverse_loop.simps [of xs i j])
    with True "1.prems" show ?thesis
      by (auto simp: nth_list_update nat_eq_iff intro!: arg_cong [where f = "nth xs"])
  next
    case False
    with "1.prems" show ?thesis
      by (auto simp: reverse_loop.simps [of xs i j] intro!: arg_cong [where f = "nth xs"])
  qed
qed

lemma ReverseBytes_rev [base58_simps]: "ReverseBytes xs = rev xs"
  by (rule nth_equalityI) (auto simp: ReverseBytes_def reverse_loop_nth rev_nth)

lemma b58_div_loop_digits [base58_simps]:
  "b58_div_loop x result = result @ rev (map (nth b58Alphabet) (to_digits 58 x))"
proof (induction x result rule: b58_div_loop.induct)
  case (1 x result)
  show ?case
  proof (cases "x = 0")
    case True
    then show ?thesis by (subst b58_div_loop.simps) simp
  next
    case False
    with 1 show ?thesis
      by (simp add: b58_div_loop.simps [of x result] to_digits_step [of 58 x])
  qed
qed

lemma b58_zero_loop_replicate [base58_simps]:
  "b58_zero_loop input result =
     replicate (length (takeWhile (\<lambda>b. b = 0) input)) (b58Alphabet ! 0) @ result"
  by (induction input arbitrary: result) (auto simp: replicate_app_Cons_same)

lemma b58_count_loop_takeWhile [base58_simps]:
  "b58_count_loop input = length (takeWhile (\<lambda>b. b = b58Alphabet ! 0) input)"
  by (induction input) auto

text \<open>The alphabet has 58 different symbols, so a symbol and its position determine each other.\<close>

lemma length_b58Alphabet [simp]: "length b58Alphabet = 58"
  by (simp add: b58Alphabet_def ascii_def)

lemma distinct_b58Alphabet [simp]: "distinct b58Alphabet"
  by (simp add: b58Alphabet_def ascii_def of_char_def)

lemma b58Alphabet_0: "b58Alphabet ! 0 = 49"
  by (simp add: b58Alphabet_def ascii_def)

lemma IndexByte_nth:
  "distinct bs \<Longrightarrow> i < length bs \<Longrightarrow> IndexByte bs (bs ! i) = int i"
proof (induction bs arbitrary: i)
  case (Cons b bs)
  then show ?case by (cases i) (auto simp: in_set_conv_nth)
qed simp

lemma IndexByte_in_set: "c \<in> set bs \<Longrightarrow> \<exists>i < length bs. IndexByte bs c = int i \<and> bs ! i = c"
proof (induction bs)
  case (Cons b bs)
  show ?case
  proof (cases "b = c")
    case False
    with Cons obtain i where "i < length bs" "IndexByte bs c = int i" "bs ! i = c" by auto
    with False show ?thesis by (intro exI [of _ "Suc i"]) auto
  qed auto
qed simp

text \<open>The accumulator reads the positions of a string over the alphabet as base-58 digits.\<close>

lemma b58_accumulate_digits:
  "\<forall>d \<in> set ds. d < 58 \<Longrightarrow> b58_accumulate (map (nth b58Alphabet) ds) = int (from_digits 58 ds)"
proof (induction ds rule: rev_induct)
  case (snoc d ds)
  then show ?case
    using IndexByte_nth [OF distinct_b58Alphabet, of d] by (simp add: b58_accumulate_def)
qed (simp add: b58_accumulate_def)

lemma Base58Encode_eq [base58_simps]:
  "Base58Encode input = replicate (length (takeWhile (\<lambda>b. b = 0) input)) (b58Alphabet ! 0)
     @ map (nth b58Alphabet) (to_digits 58 (SetBytes input))"
  by (simp add: Base58Encode_def base58_simps)

lemma b58_payload_no_leading_one:
  "takeWhile (\<lambda>b. b = b58Alphabet ! 0) (map (nth b58Alphabet) (to_digits 58 n)) = []"
proof (cases "to_digits 58 n")
  case (Cons d ds)
  have "d \<noteq> 0" and "d < 58"
    using to_digits_not_0_hd [of 58 n] to_digits_less [of 58 d n] Cons by simp_all
  then have "b58Alphabet ! d \<noteq> b58Alphabet ! 0"
    by (simp add: nth_eq_iff_index_eq)
  with Cons show ?thesis by simp
qed simp

lemma takeWhile_eq_replicate_append:
  "takeWhile (\<lambda>b. b = a) ys = [] \<Longrightarrow>
     takeWhile (\<lambda>b. b = a) (replicate n a @ ys) = replicate n a \<and>
     dropWhile (\<lambda>b. b = a) (replicate n a @ ys) = ys"
  by (induction n) (auto simp: takeWhile_eq_Nil_iff dropWhile_eq_self_iff)

section \<open>Round trips\<close>

lemma Base58Decode_Encode [codec_simps]: "Base58Decode (Base58Encode input) = input"
proof -
  let ?n = "length (takeWhile (\<lambda>b. b = 0) input)"
  let ?ds = "to_digits 58 (SetBytes input)"
  have tw: "takeWhile (\<lambda>b. b = b58Alphabet ! 0) (Base58Encode input) = replicate ?n (b58Alphabet ! 0)"
    unfolding Base58Encode_eq
    using takeWhile_eq_replicate_append [OF b58_payload_no_leading_one] by blast
  have cnt: "b58_count_loop (Base58Encode input) = ?n"
    by (simp add: b58_count_loop_takeWhile tw)
  have "drop ?n (Base58Encode input) = map (nth b58Alphabet) ?ds"
    by (simp add: Base58Encode_eq)
  moreover have "b58_accumulate (map (nth b58Alphabet) ?ds) = int (SetBytes input)"
    using b58_accumulate_digits [of ?ds] to_digits_less [of 58] by simp
  ultimately have "Base58Decode (Base58Encode input) = replicate ?n 0 @ Bytes (SetBytes input)"
    by (simp add: Base58Decode_def cnt)
  also have "\<dots> = input"
    by (simp add: Bytes_SetBytes replicate_takeWhile_append)
  finally show ?thesis .
qed

text \<open>A string over the alphabet is the image of its list of positions.\<close>

lemma b58_string_digits:
  assumes "set s \<subseteq> set b58Alphabet"
  obtains ds where "s = map (nth b58Alphabet) ds" and "\<forall>d \<in> set ds. d < 58"
proof -
  have "\<forall>c \<in> set s. \<exists>d. d < 58 \<and> b58Alphabet ! d = c"
    using assms by (metis in_set_conv_nth length_b58Alphabet subsetD)
  then obtain f where f: "\<forall>c \<in> set s. f c < 58 \<and> b58Alphabet ! f c = c"
    by metis
  then have "s = map (nth b58Alphabet) (map f s)"
    by (simp add: map_idI)
  with f show thesis by (intro that [of "map f s"]) auto
qed

lemma SetBytes_replicate_0: "SetBytes (replicate n 0 @ bs) = SetBytes bs"
  by (simp add: SetBytes_def from_digits_def foldl_append) (induction n; simp)

lemma Bytes_no_leading_0: "takeWhile (\<lambda>b. b = 0) (Bytes n) = []"
proof -
  have "Bytes n = dropWhile (\<lambda>b. b = 0) (Bytes n)"
    using Bytes_SetBytes [of "Bytes n"] by (simp add: SetBytes_Bytes)
  then show ?thesis
    by (metis (mono_tags, lifting) dropWhile_eq_Nil_conv hd_dropWhile takeWhile_eq_Nil_iff)
qed

lemma dropWhile_map_alphabet:
  "\<forall>d \<in> set ds. d < 58 \<Longrightarrow>
     dropWhile (\<lambda>b. b = b58Alphabet ! 0) (map (nth b58Alphabet) ds)
       = map (nth b58Alphabet) (dropWhile (\<lambda>d. d = 0) ds)"
  by (induction ds) (auto simp: nth_eq_iff_index_eq)

lemma Base58Encode_Decode:
  assumes "set s \<subseteq> set b58Alphabet"
  shows "Base58Encode (Base58Decode s) = s"
proof -
  obtain ds where s: "s = map (nth b58Alphabet) ds" and ds: "\<forall>d \<in> set ds. d < 58"
    using assms by (rule b58_string_digits)
  let ?one = "b58Alphabet ! 0"
  let ?n = "length (takeWhile (\<lambda>b. b = ?one) s)"
  let ?es = "dropWhile (\<lambda>d. d = 0) ds"
  have es: "\<forall>d \<in> set ?es. d < 58"
    using ds by (auto dest: set_dropWhileD)
  have payload: "drop ?n s = map (nth b58Alphabet) ?es"
    by (simp add: dropWhile_eq_drop [symmetric] s dropWhile_map_alphabet [OF ds])
  have acc: "b58_accumulate (drop ?n s) = int (from_digits 58 ?es)"
    unfolding payload by (rule b58_accumulate_digits [OF es])
  have dec: "Base58Decode s = replicate ?n 0 @ Bytes (from_digits 58 ?es)"
    by (simp add: Base58Decode_def b58_count_loop_takeWhile acc)
  have tw: "takeWhile (\<lambda>b. b = 0) (Base58Decode s) = replicate ?n 0"
    unfolding dec using takeWhile_eq_replicate_append [OF Bytes_no_leading_0] by blast
  have "SetBytes (Base58Decode s) = from_digits 58 ?es"
    unfolding dec by (simp add: SetBytes_replicate_0 SetBytes_Bytes)
  moreover have "to_digits 58 (from_digits 58 ?es) = ?es"
    using to_from_digits [of 58 ?es] es by simp
  ultimately have "Base58Encode (Base58Decode s) = replicate ?n ?one @ drop ?n s"
    by (simp add: Base58Encode_eq tw payload)
  also have "\<dots> = s"
    by (simp add: dropWhile_eq_drop [symmetric] replicate_takeWhile_append)
  finally show ?thesis .
qed

text \<open>The encoder writes symbols of the alphabet only.\<close>

lemma set_Base58Encode: "set (Base58Encode input) \<subseteq> set b58Alphabet"
proof -
  have "b58Alphabet ! d \<in> set b58Alphabet" if "d \<in> set (to_digits 58 (SetBytes input))" for d
    using to_digits_less [OF _ that] by simp
  then show ?thesis by (auto simp: Base58Encode_eq in_set_replicate)
qed

end
