(* ===== verification/Wallet_Address.thy ===== *)
theory Wallet_Address
  imports Base58 Ref_Json
begin

text \<open>
  \<^verbatim>\<open>wallet/wallet.go\<close>, \<^verbatim>\<open>NewTxnOutput\<close> of \<^verbatim>\<open>core/transaction_output.go\<close> and the group functions of
  \<^verbatim>\<open>global/variable.go\<close>: addresses are made, checked, turned into output locks and into groups.
\<close>

section \<open>The code\<close>

record Wallet =
  wPrivateKey :: PrivateKey
  wPublicKey :: PublicKey

abbreviation version_byte :: byte where
  "version_byte \<equiv> 0"

abbreviation addressChecksumLen :: nat where
  "addressChecksumLen \<equiv> 4"

definition newKeyPair :: "'z crypto_scheme \<Rightarrow> PrivateKey \<Rightarrow> PrivateKey \<times> PublicKey" where
  "newKeyPair E private = (private, Bytes (fst (ecdsa_Public E private)) @ Bytes (snd (ecdsa_Public E private)))"

text \<open>\<^verbatim>\<open>NewWallet\<close>, with the private key that \<^verbatim>\<open>ecdsa.GenerateKey\<close> draws as an argument.\<close>

definition NewWallet :: "'z crypto_scheme \<Rightarrow> PrivateKey \<Rightarrow> Wallet" where
  "NewWallet E key = (case newKeyPair E key of (private, public) \<Rightarrow>
     \<lparr>wPrivateKey = private, wPublicKey = public\<rparr>)"

definition HashPubKey :: "'z crypto_scheme \<Rightarrow> PublicKey \<Rightarrow> HashValue" where
  "HashPubKey E pubKey = ripemd160 E (sha256 E pubKey)"

definition checksum :: "'z crypto_scheme \<Rightarrow> bytes \<Rightarrow> bytes" where
  "checksum E payload = take addressChecksumLen (sha256 E (sha256 E payload))"

definition GetAddress :: "'z crypto_scheme \<Rightarrow> Wallet \<Rightarrow> bytes" where
  "GetAddress E w =
     (let pubKeyHash = HashPubKey E (wPublicKey w);
          versionedPayload = version_byte # pubKeyHash;
          fullPayload = versionedPayload @ checksum E versionedPayload
      in Base58Encode fullPayload)"

definition ValidateAddress :: "'z crypto_scheme \<Rightarrow> bytes \<Rightarrow> bool" where
  "ValidateAddress E address =
     (let pubKeyHash = Base58Decode address;
          n = length pubKeyHash
      in if n < 5 then False
         else let version = take 1 pubKeyHash;
                  actualChecksum = drop (n - addressChecksumLen) pubKeyHash;
                  pubKeyHash = take (n - addressChecksumLen - 1) (drop 1 pubKeyHash);
                  targetChecksum = checksum E (version @ pubKeyHash)
              in actualChecksum = targetChecksum)"

text \<open>The lines that \<^verbatim>\<open>NewTxnOutput\<close>, \<^verbatim>\<open>GetGroupByAddress\<close> and \<^verbatim>\<open>GetBalance\<close> share: the hash inside an address.\<close>

definition address_hash :: "bytes \<Rightarrow> HashValue outcome" where
  "address_hash address =
     (let pubKeyHash = Base58Decode address in oslice pubKeyHash 1 (int (length pubKeyHash) - 4))"

definition NewTxnOutput :: "bytes \<Rightarrow> int \<Rightarrow> TxnOutput outcome" where
  "NewTxnOutput address val =
     obind (address_hash address) (\<lambda>pubKeyHash. Ok \<lparr>Value = val, PubKeyHash = pubKeyHash\<rparr>)"

definition GetGroupByPubKeyHash :: "int \<Rightarrow> HashValue \<Rightarrow> int outcome" where
  "GetGroupByPubKeyHash MaxGroupNum pubKeyHash =
     obind (oindex pubKeyHash 0) (\<lambda>b.
       if MaxGroupNum = 0 then Panic else Ok (gomod (int (unat b)) MaxGroupNum))"

definition GetGroupByAddress :: "int \<Rightarrow> bytes \<Rightarrow> int outcome" where
  "GetGroupByAddress MaxGroupNum address =
     obind (address_hash address) (\<lambda>pubKeyHash.
     obind (oindex pubKeyHash 0) (\<lambda>b.
       if MaxGroupNum = 0 then Panic else Ok (gomod (int (unat b)) MaxGroupNum)))"

section \<open>Addresses\<close>

lemma HashPubKey_eq [simp]: "HashPubKey E = PublicKey_Hash E"
  by (simp add: fun_eq_iff HashPubKey_def PublicKey_Hash_def)

lemma slice_payload:
  "1 \<le> length payload \<Longrightarrow> length chk = 4 \<Longrightarrow>
     oslice (payload @ chk) 1 (int (length (payload @ chk)) - 4) = Ok (drop 1 payload)"
  by (simp add: oslice_def nat_diff_distrib)

text \<open>
  Documented of the digests: SHA-256 gives 32 bytes, RIPEMD-160 gives 20.
\<close>

locale digests =
  fixes E :: "'z crypto_scheme"
  assumes sha256_length [simp]: "length (sha256 E m) = 32"
    and ripemd160_length [simp]: "length (ripemd160 E m) = 20"
begin

sublocale digest32 "sha256 E"
  by unfold_locales simp

lemma length_checksum [simp]: "length (checksum E p) = 4"
  by (simp add: checksum_def)

lemma length_PublicKey_Hash [simp]: "length (PublicKey_Hash E pk) = 20"
  by (simp add: PublicKey_Hash_def)

lemma decoded_address:
  "Base58Decode (GetAddress E w)
     = (0 # PublicKey_Hash E (wPublicKey w)) @ checksum E (0 # PublicKey_Hash E (wPublicKey w))"
  by (simp add: GetAddress_def Let_def Base58Decode_Encode)

lemma address_hash_GetAddress: "address_hash (GetAddress E w) = Ok (PublicKey_Hash E (wPublicKey w))"
  using slice_payload [of "0 # PublicKey_Hash E (wPublicKey w)" "checksum E (0 # PublicKey_Hash E (wPublicKey w))"]
  by (simp add: address_hash_def decoded_address Let_def)

text \<open>An address is valid exactly when it encodes a payload followed by the payload's checksum.\<close>

lemma ValidateAddress_iff:
  "ValidateAddress E a \<longleftrightarrow> (\<exists>payload. payload \<noteq> [] \<and> Base58Decode a = payload @ checksum E payload)"
proof
  assume valid: "ValidateAddress E a"
  let ?d = "Base58Decode a"
  let ?p = "take (length ?d - 4) ?d"
  have len: "5 \<le> length ?d"
    using valid by (auto simp: ValidateAddress_def Let_def split: if_splits)
  then have "take 1 ?d @ take (length ?d - 4 - 1) (drop 1 ?d) = ?p"
    by (cases ?d) (auto simp: take_Cons')
  with valid len have "drop (length ?d - 4) ?d = checksum E ?p"
    by (simp add: ValidateAddress_def Let_def)
  then have "?d = ?p @ checksum E ?p" by (metis append_take_drop_id)
  moreover have "?p \<noteq> []" using len by auto
  ultimately show "\<exists>payload. payload \<noteq> [] \<and> ?d = payload @ checksum E payload" by blast
next
  assume "\<exists>payload. payload \<noteq> [] \<and> Base58Decode a = payload @ checksum E payload"
  then obtain v p where d: "Base58Decode a = (v # p) @ checksum E (v # p)"
    by (metis list.exhaust)
  then show "ValidateAddress E a"
    by (simp add: ValidateAddress_def Let_def)
qed

lemma GetGroupByAddress_GetAddress:
  "GetGroupByAddress mx (GetAddress E w) = GetGroupByPubKeyHash mx (PublicKey_Hash E (wPublicKey w))"
  by (simp add: GetGroupByAddress_def GetGroupByPubKeyHash_def address_hash_GetAddress)

lemma GetGroupByPubKeyHash_total:
  "0 < mx \<Longrightarrow> \<exists>g. GetGroupByPubKeyHash mx (PublicKey_Hash E pk) = Ok g \<and> 0 \<le> g \<and> g < mx"
  using length_PublicKey_Hash [of pk]
  by (cases "PublicKey_Hash E pk") (auto simp: GetGroupByPubKeyHash_def oindex_def)

text \<open>The shortest valid address holds no hash at all.\<close>

lemma short_address:
  "ValidateAddress E (Base58Encode (0 # checksum E [0]))
     \<and> address_hash (Base58Encode (0 # checksum E [0])) = Ok []"
  unfolding ValidateAddress_iff address_hash_def Base58Decode_Encode
  using slice_payload [of "[0]" "checksum E [0]"] by (auto intro: exI [of _ "[0]"])

end

interpretation ref_digests: digests ref_json
  by unfold_locales (simp_all add: ref_json_def)

section \<open>Properties\<close>

text \<open>
  C35: \<^verbatim>\<open>Base58Decode\<close> undoes \<^verbatim>\<open>Base58Encode\<close> on every byte string, and \<^verbatim>\<open>Base58Encode\<close> undoes \<^verbatim>\<open>Base58Decode\<close> on
  every string over the alphabet, leading zero bytes and leading ones included.
\<close>

theorem base58_roundtrip:
  "Base58Decode (Base58Encode input) = input \<and>
   (set s \<subseteq> set b58Alphabet \<longrightarrow> Base58Encode (Base58Decode s) = s)"
  by (simp add: Base58Decode_Encode Base58Encode_Decode)

theorem base58_roundtrip_witness:
  "set [49, 50] \<subseteq> set b58Alphabet \<and> Base58Encode (Base58Decode [49, 50]) = [49, 50]"
proof -
  have "set [49, 50] \<subseteq> set b58Alphabet" by (simp add: b58Alphabet_def ascii_def)
  with base58_roundtrip [where s = "[49, 50]"] show ?thesis by blast
qed

text \<open>
  C34: the address of a wallet is valid, an output made for that address is locked with the wallet's
  public key, and the address belongs to the group of the key's hash, a group below the number of
  groups.
\<close>

theorem wallet_address_correct:
  assumes "digests E" and "0 < MaxGroupNum"
  shows "ValidateAddress E (GetAddress E w) \<and>
    (\<exists>out. NewTxnOutput (GetAddress E w) v = Ok out \<and> Value out = v \<and> IsLockedWithKey E out (wPublicKey w)) \<and>
    (\<exists>g. GetGroupByAddress MaxGroupNum (GetAddress E w) = Ok g \<and> 0 \<le> g \<and> g < MaxGroupNum \<and>
      GetGroupByPubKeyHash MaxGroupNum (HashPubKey E (wPublicKey w)) = Ok g)"
proof (intro conjI)
  show "ValidateAddress E (GetAddress E w)"
    unfolding digests.ValidateAddress_iff [OF assms(1)] digests.decoded_address [OF assms(1)] by blast
  show "\<exists>out. NewTxnOutput (GetAddress E w) v = Ok out \<and> Value out = v \<and> IsLockedWithKey E out (wPublicKey w)"
    by (simp add: NewTxnOutput_def digests.address_hash_GetAddress [OF assms(1)] IsLockedWithKey_def
        HashValue_Equal_def)
  obtain g where "GetGroupByPubKeyHash MaxGroupNum (PublicKey_Hash E (wPublicKey w)) = Ok g" "0 \<le> g"
      "g < MaxGroupNum"
    using digests.GetGroupByPubKeyHash_total [OF assms] by blast
  then show "\<exists>g. GetGroupByAddress MaxGroupNum (GetAddress E w) = Ok g \<and> 0 \<le> g \<and> g < MaxGroupNum \<and>
      GetGroupByPubKeyHash MaxGroupNum (HashPubKey E (wPublicKey w)) = Ok g"
    by (simp add: digests.GetGroupByAddress_GetAddress [OF assms(1)])
qed

theorem wallet_address_correct_witness:
  "ValidateAddress ref_json (GetAddress ref_json (NewWallet ref_json 7))"
  using wallet_address_correct [OF ref_digests.digests_axioms, of 4] by simp

text \<open>
  \<^verbatim>\<open>ValidateAddress\<close> does not ask for a hash of 20 bytes: an address whose payload is the version byte
  alone is valid, and computing its group panics.
\<close>

lemma valid_address_group_panic:
  assumes "digests E"
  shows "\<exists>address. ValidateAddress E address \<and> GetGroupByAddress MaxGroupNum address = Panic"
  using digests.short_address [OF assms] by (auto simp: GetGroupByAddress_def oindex_def)

end
