(* ===== verification/Database.thy ===== *)
theory Database
  imports Txn_Auth Wallet_Address "HOL-Library.AList"
begin

text \<open>
  \<^verbatim>\<open>global/database.go\<close>, \<^verbatim>\<open>global/bolt_db.go\<close> and \<^verbatim>\<open>global/inherit_db.go\<close>: keys as bytes and the operations of
  \<^verbatim>\<open>boltDB\<close> on a bucket of a group. Bolt itself is a parameter: a bucket has an abstract type and the
  record \<open>env\<close> holds its operations; \<open>bolt_store\<close> states what bolt documents of them. The operations
  are shown to meet \<open>idatabase\<close>, the contract behind the Go interface \<^verbatim>\<open>IDatabase\<close>.
\<close>

section \<open>The environment of a node\<close>

text \<open>
  A bucket: \<open>bolt_new\<close> an empty one, \<open>bolt_put\<close> gives \<open>None\<close> for \<^verbatim>\<open>Put\<close>'s error, \<open>bolt_items\<close> lists the pairs in
  cursor order. \<open>MaxGroupNum\<close>, \<open>GroupNum\<close> and \<open>Address\<close> are the node's settings, and
  \<open>range_perm site n\<close> is the order in which the \<open>range\<close> statement numbered \<open>site\<close> visits a map of
  \<open>n\<close> entries.
\<close>

record 'k env = json +
  bolt_new :: 'k
  bolt_get :: "'k \<Rightarrow> bytes \<Rightarrow> bytes option"
  bolt_put :: "'k \<Rightarrow> bytes \<Rightarrow> bytes \<Rightarrow> 'k option"
  bolt_delete :: "'k \<Rightarrow> bytes \<Rightarrow> 'k"
  bolt_items :: "'k \<Rightarrow> (bytes \<times> bytes) list"
  MaxGroupNum :: int
  GroupNum :: int
  Address :: bytes
  range_perm :: "nat \<Rightarrow> nat \<Rightarrow> nat list"

definition range_map :: "('k, 'z) env_scheme \<Rightarrow> nat \<Rightarrow> 'a list \<Rightarrow> 'a list" where
  "range_map E site xs = map (nth xs) (range_perm E site (length xs))"

section \<open>Keys\<close>

datatype key = KBytes bytes | KString string | KInt int | KInt32 int | KNil

text \<open>
  The loop for integers: byte \<open>i\<close> of the value is stored, and the loop stops where the value is
  below \<^verbatim>\<open>256 << (i*8)\<close>, computed at the width of the key. No stop leaves the key empty.
\<close>

fun key_loop :: "(int \<Rightarrow> int) \<Rightarrow> int \<Rightarrow> nat \<Rightarrow> nat \<Rightarrow> bytes \<Rightarrow> bytes" where
  "key_loop wrap v i 0 bs = []"
| "key_loop wrap v i (Suc n) bs =
     (let bs = bs @ [word_of_int (v div 256 ^ i)]
      in if v < wrap (256 * 256 ^ i) then bs else key_loop wrap v (Suc i) n bs)"

fun interfaceToBytes :: "key \<Rightarrow> bytes" where
  "interfaceToBytes (KBytes v) = v"
| "interfaceToBytes (KString v) = ascii v"
| "interfaceToBytes (KInt v) = key_loop i64 v 0 8 []"
| "interfaceToBytes (KInt32 v) = key_loop i32 v 0 4 []"
| "interfaceToBytes KNil = []"

section \<open>Operations on a bucket\<close>

text \<open>The bucket of a name and a group; \<open>None\<close> until it is created.\<close>

type_synonym 'k dbs = "string \<Rightarrow> int \<Rightarrow> 'k option"

definition db_bucket :: "string \<Rightarrow> int \<Rightarrow> 'k \<Rightarrow> 'k dbs \<Rightarrow> 'k dbs" where
  "db_bucket name g b db = db(name := (db name)(g := Some b))"

definition db_Clear :: "('k, 'z) env_scheme \<Rightarrow> string \<Rightarrow> int \<Rightarrow> 'k dbs \<Rightarrow> 'k dbs" where
  "db_Clear E name g db = db_bucket name g (bolt_new E) db"

definition db_Get :: "('k, 'z) env_scheme \<Rightarrow> string \<Rightarrow> int \<Rightarrow> key \<Rightarrow> 'k dbs \<Rightarrow> bytes option" where
  "db_Get E name g key db =
     (case db name g of None \<Rightarrow> None | Some b \<Rightarrow> bolt_get E b (interfaceToBytes key))"

definition db_Set :: "('k, 'z) env_scheme \<Rightarrow> string \<Rightarrow> int \<Rightarrow> key \<Rightarrow> bytes \<Rightarrow> 'k dbs \<Rightarrow> 'k dbs outcome" where
  "db_Set E name g key val db =
     (let b = (case db name g of None \<Rightarrow> bolt_new E | Some b \<Rightarrow> b)
      in case bolt_put E b (interfaceToBytes key) val of
           None \<Rightarrow> Exit
         | Some b' \<Rightarrow> Ok (db_bucket name g b' db))"

definition db_Delete :: "('k, 'z) env_scheme \<Rightarrow> string \<Rightarrow> int \<Rightarrow> key \<Rightarrow> 'k dbs \<Rightarrow> 'k dbs outcome" where
  "db_Delete E name g key db =
     (case db name g of None \<Rightarrow> Panic
      | Some b \<Rightarrow> Ok (db_bucket name g (bolt_delete E b (interfaceToBytes key)) db))"

text \<open>\<^verbatim>\<open>Foreach\<close>: the callback returns whether to go on.\<close>

fun cursor_loop :: "(bytes \<Rightarrow> bytes \<Rightarrow> 's \<Rightarrow> ('s \<times> bool) outcome) \<Rightarrow> (bytes \<times> bytes) list \<Rightarrow> 's \<Rightarrow> 's outcome" where
  "cursor_loop fn [] s = Ok s"
| "cursor_loop fn ((k, v) # items) s =
     obind (fn k v s) (\<lambda>(s, go_on). if \<not> go_on then Ok s else cursor_loop fn items s)"

definition db_Foreach ::
  "('k, 'z) env_scheme \<Rightarrow> string \<Rightarrow> int \<Rightarrow> (bytes \<Rightarrow> bytes \<Rightarrow> 's \<Rightarrow> ('s \<times> bool) outcome) \<Rightarrow> 'k dbs \<Rightarrow> 's \<Rightarrow> 's outcome" where
  "db_Foreach E name g fn db s =
     (case db name g of None \<Rightarrow> Panic | Some b \<Rightarrow> cursor_loop fn (bolt_items E b) s)"

section \<open>The contract of bolt\<close>

text \<open>Keys and values stay within bolt's limits of 32768 and \<open>2 ^ 31 - 2\<close> bytes.\<close>

locale bolt_store =
  fixes E :: "('k, 'z) env_scheme"
  assumes bolt_get_new [simp]: "bolt_get E (bolt_new E) k = None"
    and bolt_put_blank [simp]: "bolt_put E b [] v = None"
    and bolt_put_some: "k \<noteq> [] \<Longrightarrow> \<exists>b'. bolt_put E b k v = Some b'"
    and bolt_get_blank [simp]: "bolt_get E b [] = None"
    and bolt_get_put: "bolt_put E b k v = Some b' \<Longrightarrow> bolt_get E b' = (bolt_get E b)(k \<mapsto> v)"
    and bolt_get_delete [simp]: "bolt_get E (bolt_delete E b k) = (bolt_get E b)(k := None)"
    and bolt_items_map: "map_of (bolt_items E b) = bolt_get E b"
    and bolt_items_distinct: "distinct (map fst (bolt_items E b))"
    and bolt_items_sorted: "sorted (map fst (bolt_items E b))"

section \<open>The contract of IDatabase\<close>

text \<open>
  \<open>Get\<close>, \<open>Set\<close>, \<open>Delete\<close> and \<open>Clear\<close> on one bucket of one group; two keys are the same entry
  when their bytes are.
\<close>

locale idatabase =
  fixes Get :: "key \<Rightarrow> 's \<Rightarrow> bytes option"
    and Set :: "key \<Rightarrow> bytes \<Rightarrow> 's \<Rightarrow> 's outcome"
    and Delete :: "key \<Rightarrow> 's \<Rightarrow> 's outcome"
    and Clear :: "'s \<Rightarrow> 's"
    and ready :: "'s \<Rightarrow> bool"
  assumes Set_ok: "interfaceToBytes k \<noteq> [] \<Longrightarrow> \<exists>s'. Set k v s = Ok s' \<and> ready s' \<and>
      (\<forall>k'. Get k' s' = (if interfaceToBytes k' = interfaceToBytes k then Some v else Get k' s))"
    and Set_blank: "interfaceToBytes k = [] \<Longrightarrow> Set k v s = Exit"
    and Delete_ok: "ready s \<Longrightarrow> \<exists>s'. Delete k s = Ok s' \<and> ready s' \<and>
      (\<forall>k'. Get k' s' = (if interfaceToBytes k' = interfaceToBytes k then None else Get k' s))"
    and Get_Clear [simp]: "Get k (Clear s) = None"
    and ready_Clear [simp]: "ready (Clear s)"
begin

lemma Get_Set: "Set k v s = Ok s' \<Longrightarrow>
    Get k' s' = (if interfaceToBytes k' = interfaceToBytes k then Some v else Get k' s)"
  using Set_ok [of k v s] Set_blank [of k v s] by (cases "interfaceToBytes k = []") auto

lemma ready_Set: "Set k v s = Ok s' \<Longrightarrow> ready s'"
  using Set_ok [of k v s] Set_blank [of k v s] by (cases "interfaceToBytes k = []") auto

lemma Get_Delete: "ready s \<Longrightarrow> Delete k s = Ok s' \<Longrightarrow>
    Get k' s' = (if interfaceToBytes k' = interfaceToBytes k then None else Get k' s)"
  using Delete_ok [of s k] by auto

text \<open>A sequence of writes to keys with bytes always succeeds and the last write to a key wins.\<close>

lemma Sets_ok:
  "\<forall>(k, v) \<in> set kvs. interfaceToBytes k \<noteq> [] \<Longrightarrow> \<exists>s'. ofold (\<lambda>(k, v). Set k v) kvs s = Ok s'"
proof (induction kvs arbitrary: s)
  case (Cons kv kvs)
  then obtain k v s1 where "kv = (k, v)" "Set k v s = Ok s1"
    using Set_ok by (cases kv) fastforce
  with Cons show ?case by auto
qed simp

end

context bolt_store
begin

sublocale bucket: idatabase "db_Get E name g" "db_Set E name g" "db_Delete E name g" "db_Clear E name g"
  "\<lambda>db. db name g \<noteq> None" for name g
proof
  fix k v and s :: "'k dbs"
  assume "interfaceToBytes k \<noteq> []"
  then obtain b where "bolt_put E (case s name g of None \<Rightarrow> bolt_new E | Some b \<Rightarrow> b) (interfaceToBytes k) v = Some b"
    using bolt_put_some by blast
  then show "\<exists>s'. db_Set E name g k v s = Ok s' \<and> s' name g \<noteq> None \<and>
      (\<forall>k'. db_Get E name g k' s' = (if interfaceToBytes k' = interfaceToBytes k then Some v else db_Get E name g k' s))"
    by (auto simp: db_Set_def db_Get_def db_bucket_def bolt_get_put split: option.splits)
qed (auto simp: db_Set_def db_Get_def db_Delete_def db_Clear_def db_bucket_def split: option.splits)

end

text \<open>An operation touches no other bucket and no other group.\<close>

definition same_elsewhere :: "string \<Rightarrow> int \<Rightarrow> 'k dbs \<Rightarrow> 'k dbs \<Rightarrow> bool" where
  "same_elsewhere name g db db' \<longleftrightarrow> (\<forall>name' g'. (name', g') \<noteq> (name, g) \<longrightarrow> db' name' g' = db name' g')"

lemma db_frames:
  "same_elsewhere name g db (db_Clear E name g db)"
  "db_Set E name g k v db = Ok db' \<Longrightarrow> same_elsewhere name g db db'"
  "db_Delete E name g k db = Ok db' \<Longrightarrow> same_elsewhere name g db db'"
  by (auto simp: same_elsewhere_def db_Clear_def db_Set_def db_Delete_def db_bucket_def Let_def
      split: option.splits)

lemma same_elsewhere_Get:
  "same_elsewhere name g db db' \<Longrightarrow> (name', g') \<noteq> (name, g) \<Longrightarrow> db_Get E name' g' k db' = db_Get E name' g' k db"
  by (auto simp: same_elsewhere_def db_Get_def)

context bolt_store
begin

lemmas db_Get_Set = bucket.Get_Set
  and db_Get_Delete = bucket.Get_Delete

end

section \<open>A reference environment\<close>

text \<open>Buckets as association lists, newest entry first, listed in key order.\<close>

type_synonym ref_bucket = "(bytes \<times> bytes) list"

definition ref_env :: "ref_bucket env" where
  "ref_env = json.extend ref_json (env.fields
     [] (\<lambda>b k. if k = [] then None else map_of b k) (\<lambda>b k v. if k = [] then None else Some ((k, v) # b)) (\<lambda>b k. AList.delete k b)
     (\<lambda>b. sort_key fst (AList.clearjunk (filter (\<lambda>kv. fst kv \<noteq> []) b))) 4 1
     (Base58Encode (replicate 25 0)) (\<lambda>site n. [0..<n]))"

lemmas ref_env_defs = ref_env_def ref_json_def json.defs env.defs

lemma ref_env_bolt [simp]:
  "bolt_new ref_env = []" "bolt_get ref_env b k = (if k = [] then None else map_of b k)"
  "bolt_put ref_env b k v = (if k = [] then None else Some ((k, v) # b))"
  "bolt_delete ref_env b k = AList.delete k b"
  "bolt_items ref_env b = sort_key fst (AList.clearjunk (filter (\<lambda>kv. fst kv \<noteq> []) b))"
  "MaxGroupNum ref_env = 4" "GroupNum ref_env = 1"
  "Address ref_env = Base58Encode (replicate 25 0)" "range_perm ref_env site n = [0..<n]"
  by (simp_all add: ref_env_defs)

lemma ref_env_fields [simp]:
  "sha256 ref_env = Sum256" "ripemd160 ref_env = (\<lambda>m. take 20 (Sum256 m))"
  "ecdsa_Public ref_env = ecdsa_Public ref_json" "ecdsa_Sign ref_env = ecdsa_Sign ref_json"
  "ecdsa_Verify ref_env = ecdsa_Verify ref_json" "marshal_header ref_env = marshal_header ref_json"
  "marshal_block ref_env = marshal_block ref_json" "unmarshal_block ref_env = unmarshal_block ref_json"
  "marshal_txn ref_env = marshal_txn ref_json" "unmarshal_txn ref_env = unmarshal_txn ref_json"
  "marshal_outs ref_env = marshal_outs ref_json" "unmarshal_outs ref_env = unmarshal_outs ref_json"
  by (simp_all add: ref_env_defs)

lemma map_of_sort_key: "distinct (map fst b) \<Longrightarrow> map_of (sort_key fst b) = map_of b"
  by (subst map_of_inject_set) (simp_all add: distinct_map inj_on_def)

lemma distinct_sort_fst: "distinct (map fst (sort_key fst b)) = distinct (map fst b)"
  by (rule mset_eq_imp_distinct_iff) (simp add: mset_map)

lemma map_of_named_keys:
  "map_of (filter (\<lambda>kv. fst kv \<noteq> []) b) k = (if k = [] then None else map_of b k)"
  by (induction b) auto

interpretation ref_bolt: bolt_store ref_env
proof
  show "map_of (bolt_items ref_env b) = bolt_get ref_env b" for b
    by (rule ext) (simp only: ref_env_bolt map_of_sort_key distinct_clearjunk map_of_clearjunk map_of_named_keys)
  show "distinct (map fst (bolt_items ref_env b))" for b
    by (simp only: ref_env_bolt distinct_sort_fst distinct_clearjunk)
qed (auto simp: AList.delete_conv' split: if_splits)

interpretation ref_env_codec: json_codec ref_env
  by unfold_locales (auto simp: ref_codec.unmarshal_marshal_block ref_codec.marshal_block_finite
      ref_codec.marshal_header_finite)

interpretation ref_env_ecdsa: ecdsa_scheme ref_env
  using ref_ecdsa.sign_verify ref_ecdsa.truncates by unfold_locales auto

interpretation ref_env_digest: digest32 "sha256 ref_env"
  by unfold_locales simp

section \<open>Height keys\<close>

lemma int32_key:
  "in_i32 v \<Longrightarrow> interfaceToBytes (KInt32 v) =
     (if v < 256 then [word_of_int v]
      else if v < 65536 then [word_of_int v, word_of_int (v div 256)]
      else if v < 16777216 then [word_of_int v, word_of_int (v div 256), word_of_int (v div 65536)]
      else [])"
  by (simp add: numeral_eq_Suc i32_def)

declare interfaceToBytes.simps(3,4) [simp del]

lemma low_byte_mod: "(word_of_int (h mod 256) :: 8 word) = word_of_int h"
  by (simp add: word_of_int_eq_iff take_bit_eq_mod)

lemma low_bytes_eq:
  fixes h h' :: int
  assumes "h mod 256 = h' mod 256" and "h div 256 mod 256 = h' div 256 mod 256"
    and "h div 65536 = h' div 65536"
  shows "h = h'"
proof -
  have outer: "v div 65536 = v div 256 div 256" for v :: int
    using zdiv_zmult2_eq [of 256 v 256] by simp
  have "h div 256 = h' div 256"
    using assms(2,3) unfolding outer by (metis div_mult_mod_eq)
  then show ?thesis
    using assms(1) by (metis div_mult_mod_eq)
qed

lemma height_digits:
  fixes h h' :: int
  assumes "0 \<le> h" and "h < 2 ^ 24" and "0 \<le> h'" and "h' < 2 ^ 24"
    and "(if h < 256 then [word_of_int h]
      else if h < 65536 then [word_of_int h, word_of_int (h div 256)]
      else [word_of_int h, word_of_int (h div 256), word_of_int (h div 65536)]) =
     (if h' < 256 then [word_of_int h']
      else if h' < 65536 then [word_of_int h', word_of_int (h' div 256)]
      else [word_of_int h', word_of_int (h' div 256), word_of_int (h' div 65536) :: byte])"
  shows "h = h'"
proof -
  have small: "v div 256 = 0" "v div 65536 = 0" if "0 \<le> v" "v < 256" for v :: int
    using that div_pos_pos_trivial [of v] by simp_all
  have middle: "v div 65536 = 0" if "0 \<le> v" "v < 65536" for v :: int
    using that div_pos_pos_trivial [of v] by simp
  have large: "v div 65536 mod 256 = v div 65536" if "0 \<le> v" "v < 2 ^ 24" for v :: int
    using that by (intro mod_pos_pos_trivial) (simp_all add: div_less_iff_less_mult)
  show ?thesis
  proof (rule low_bytes_eq)
    show "h mod 256 = h' mod 256"
      using assms(5) by (simp add: word_of_int_byte_eq_iff split: if_splits)
    show "h div 256 mod 256 = h' div 256 mod 256"
      using assms(5) small [OF assms(1)] small [OF assms(3)]
      by (simp add: word_of_int_byte_eq_iff split: if_splits)
    show "h div 65536 = h' div 65536"
    proof (cases "h < 65536")
      case True
      then have "h' < 65536" using assms(5) by (auto split: if_splits)
      with True show ?thesis using middle [OF assms(1)] middle [OF assms(3)] by simp
    next
      case False
      then have "word_of_int (h div 65536) = (word_of_int (h' div 65536) :: byte)" using assms(5) by (auto split: if_splits)
      then have "h div 65536 mod 256 = h' div 65536 mod 256" by (simp add: word_of_int_byte_eq_iff)
      then show ?thesis using large [OF assms(1,2)] large [OF assms(3,4)] by simp
    qed
  qed
qed

lemma height_keys_inject:
  assumes "0 \<le> h" and "h < 2 ^ 24" and "0 \<le> h'" and "h' < 2 ^ 24"
  shows "interfaceToBytes (KInt32 h) \<noteq> [] \<and> length (interfaceToBytes (KInt32 h)) \<le> 3 \<and>
    (interfaceToBytes (KInt32 h) = interfaceToBytes (KInt32 h') \<longleftrightarrow> h = h')"
proof -
  have key: "interfaceToBytes (KInt32 v) =
     (if v < 256 then [word_of_int v]
      else if v < 65536 then [word_of_int v, word_of_int (v div 256)]
      else [word_of_int v, word_of_int (v div 256), word_of_int (v div 65536)])"
    if "0 \<le> v" "v < 2 ^ 24" for v
    using int32_key [of v] that by simp
  have "h = h'" if "interfaceToBytes (KInt32 h) = interfaceToBytes (KInt32 h')"
    using that unfolding key [OF assms(1,2)] key [OF assms(3,4)]
    by (rule height_digits [OF assms])
  moreover have "interfaceToBytes (KInt32 h) \<noteq> []" "length (interfaceToBytes (KInt32 h)) \<le> 3"
    unfolding key [OF assms(1,2)] by auto
  ultimately show ?thesis by blast
qed

text \<open>
  C40: outside the range from 0 to \<open>2 ^ 24 - 1\<close> heights are not told apart: every negative height reads and writes the entry of its low byte,
  so height \<open>-1\<close> that of height 255; from \<open>2 ^ 24\<close> on the key is empty, so that no block is found under such a height and storing one there ends the
  process.
\<close>

theorem height_keys_collide:
  assumes "bolt_store E" and "in_i32 h"
  shows "(h < 0 \<longrightarrow> db_Get E name g (KInt32 h) db = db_Get E name g (KInt32 (h mod 256)) db \<and>
      db_Set E name g (KInt32 h) v db = db_Set E name g (KInt32 (h mod 256)) v db) \<and>
    (2 ^ 24 \<le> h \<longrightarrow> db_Get E name g (KInt32 h) db = None \<and> db_Set E name g (KInt32 h) v db = Exit)"
proof (intro conjI impI)
  assume "h < 0"
  moreover have "h mod 256 < 256" "0 \<le> h mod 256" by simp_all
  then have "in_i32 (h mod 256)" by (auto intro: order_trans [of _ 0] order_less_le_trans [of _ 256])
  ultimately have "interfaceToBytes (KInt32 h) = interfaceToBytes (KInt32 (h mod 256))"
    using assms(2) int32_key [of h] int32_key [of "h mod 256"] \<open>h mod 256 < 256\<close> low_byte_mod by simp
  then show "db_Get E name g (KInt32 h) db = db_Get E name g (KInt32 (h mod 256)) db"
    "db_Set E name g (KInt32 h) v db = db_Set E name g (KInt32 (h mod 256)) v db"
    by (simp_all only: db_Get_def db_Set_def)
next
  assume "2 ^ 24 \<le> h"
  then have "interfaceToBytes (KInt32 h) = []" using assms(2) by (simp add: int32_key)
  then show "db_Get E name g (KInt32 h) db = None" "db_Set E name g (KInt32 h) v db = Exit"
    using bolt_store.bolt_put_blank [OF assms(1)] bolt_store.bolt_get_blank [OF assms(1)]
    by (simp_all add: db_Get_def db_Set_def split: option.splits)
qed

theorem height_keys_collide_witness:
  "db_Get ref_env ''Blocks'' 0 (KInt32 (-29)) (\<lambda>_ _. None) = db_Get ref_env ''Blocks'' 0 (KInt32 227) (\<lambda>_ _. None) \<and>
   db_Set ref_env ''Blocks'' 0 (KInt32 16777216) [] (\<lambda>_ _. None) = Exit"
  using height_keys_collide [OF ref_bolt.bolt_store_axioms, of "-29" "''Blocks''" 0 "\<lambda>_ _. None"]
    height_keys_collide [OF ref_bolt.bolt_store_axioms, of 16777216 "''Blocks''" 0 "\<lambda>_ _. None" "[]"]
  by simp

text \<open>
  After a successful \<^verbatim>\<open>Set\<close>, \<^verbatim>\<open>Get\<close> returns the value written for that key and the old value for every
  key with other bytes; every other bucket and every other group is unchanged.
\<close>

lemma set_then_get:
  assumes "bolt_store E" and "db_Set E name g k v db = Ok db'"
  shows "db_Get E name g k' db' = (if interfaceToBytes k' = interfaceToBytes k then Some v else db_Get E name g k' db) \<and>
    same_elsewhere name g db db'"
  using bolt_store.db_Get_Set [OF assms] db_frames(2) [OF assms(2)] by blast

end
