(* ===== verification/Mempool.thy ===== *)
theory Mempool
  imports Database
begin

text \<open>
  \<^verbatim>\<open>global/mempool\<close>: the transactions that wait to be mined, for one group. A pool is a Go map from
  32-byte keys, kept as an association list; where the source ranges over it, \<open>range_map\<close> gives the
  order. \<^verbatim>\<open>GetTxns\<close> sorts the pool so that a transaction comes after the pool transactions it spends
  and throws away what depends on a cycle; \<^verbatim>\<open>ExpandTxnOutput\<close> follows an output through the pool.
  Locking is in \<open>Node_State\<close>, where a pool is part of the state.
\<close>

type_synonym pool = "(bytes \<times> Transaction) list"

definition txn_key :: "'z json_scheme \<Rightarrow> Transaction \<Rightarrow> bytes" where
  "txn_key E txn = HashValue_Key (Transaction_Hash E txn)"

definition AddTxn :: "'z json_scheme \<Rightarrow> Transaction \<Rightarrow> pool \<Rightarrow> pool" where
  "AddTxn E txn m = AList.update (txn_key E txn) txn m"

definition GetTxn :: "HashValue \<Rightarrow> pool \<Rightarrow> Transaction option" where
  "GetTxn hash m = map_of m (HashValue_Key hash)"

definition Mempool_Delete :: "HashValue \<Rightarrow> pool \<Rightarrow> pool" where
  "Mempool_Delete hash m = AList.delete (HashValue_Key hash) m"

definition GetMempoolSize :: "pool \<Rightarrow> nat" where
  "GetMempoolSize m = length m"

section \<open>Sorting the pool\<close>

text \<open>
  The graph: \<open>head u\<close> is the list of destinations that \<^verbatim>\<open>head[u]\<close> starts, newest edge first. The map
  \<^verbatim>\<open>indeg\<close> has one entry per transaction number; \<open>None\<close> is an entry that \<^verbatim>\<open>delete\<close> removed, and reading
  an absent entry gives 0.
\<close>

definition indeg_at :: "int option list \<Rightarrow> nat \<Rightarrow> int" where
  "indeg_at indeg v = (if v < length indeg then case indeg ! v of None \<Rightarrow> 0 | Some c \<Rightarrow> c else 0)"

fun addedge :: "nat \<times> nat \<Rightarrow> (nat \<Rightarrow> nat list) \<times> int option list \<Rightarrow> (nat \<Rightarrow> nat list) \<times> int option list" where
  "addedge (u, v) (head, indeg) =
     (head(u := v # head u),
      let indeg = indeg[u := Some (indeg_at indeg u)]
      in indeg[v := Some (indeg_at indeg v + 1)])"

text \<open>\<^verbatim>\<open>keyToId\<close>: the last of the transactions with a key gives its number.\<close>

definition keyToId :: "'z json_scheme \<Rightarrow> Transaction list \<Rightarrow> bytes \<Rightarrow> nat" where
  "keyToId E txns key =
     (case map_of (rev (zip (map (txn_key E) txns) [0..<length txns])) key of None \<Rightarrow> 0 | Some i \<Rightarrow> i)"

definition topo_edges :: "('k, 'z) env_scheme \<Rightarrow> Transaction list \<Rightarrow> pool \<Rightarrow> (nat \<times> nat) list" where
  "topo_edges E txns m =
     concat (map (\<lambda>(k, txn). concat (map (\<lambda>vin.
       case map_of m (HashValue_Key (VoutHash vin)) of
         None \<Rightarrow> []
       | Some prevTxn \<Rightarrow> [(keyToId E txns (txn_key E prevTxn), keyToId E txns (txn_key E txn))])
       (Vin txn))) (range_map E 1 m))"

text \<open>The visit of one node: its counter is deleted and those of its successors are lowered.\<close>

definition lower :: "nat \<Rightarrow> int option list \<times> nat list \<Rightarrow> int option list \<times> nat list" where
  "lower v = (\<lambda>(indeg, nodes).
     let c = indeg_at indeg v - 1 in (indeg[v := Some c], if c = 0 then nodes @ [v] else nodes))"

definition topo_visit :: "(nat \<Rightarrow> nat list) \<Rightarrow> nat \<Rightarrow> int option list \<times> nat list \<Rightarrow> int option list \<times> nat list" where
  "topo_visit head u = (\<lambda>(indeg, nodes). fold lower (head u) (indeg[u := None], nodes))"

text \<open>
  One round of the outer loop visits \<^verbatim>\<open>nodes[lenBefore:lenAfter]\<close>, here \<open>wave\<close>, and the nodes it appends
  are the next round's. Every visit uses up a node or a unit of the remaining counters.
\<close>

definition open_counts :: "int option list \<Rightarrow> nat" where
  "open_counts indeg = sum_list (map (\<lambda>c. case c of None \<Rightarrow> 0 | Some c \<Rightarrow> nat c) indeg)"

lemma open_counts_update:
  "v < length indeg \<Longrightarrow>
   open_counts (indeg[v := c]) + (case indeg ! v of None \<Rightarrow> 0 | Some c \<Rightarrow> nat c) =
   open_counts indeg + (case c of None \<Rightarrow> 0 | Some c \<Rightarrow> nat c)"
  by (induction indeg arbitrary: v) (auto simp: open_counts_def split: nat.splits)

lemma lower_measure:
  "lower v (indeg, nodes) = (indeg', nodes') \<Longrightarrow>
   open_counts indeg' + length nodes' \<le> open_counts indeg + length nodes"
  using open_counts_update [of v indeg "Some (indeg_at indeg v - 1)"]
  by (cases "v < length indeg") (auto simp: lower_def indeg_at_def Let_def list_update_beyond split: if_splits option.splits)

lemma fold_lower_measure:
  "fold lower vs (indeg, nodes) = (indeg', nodes') \<Longrightarrow>
   open_counts indeg' + length nodes' \<le> open_counts indeg + length nodes"
proof (induction vs arbitrary: indeg nodes)
  case (Cons v vs)
  obtain indeg1 nodes1 where "lower v (indeg, nodes) = (indeg1, nodes1)" by fastforce
  with Cons lower_measure [OF this] show ?case by fastforce
qed simp

lemma topo_visit_measure:
  "topo_visit head u (indeg, nodes) = (indeg', nodes') \<Longrightarrow>
   open_counts indeg' + length nodes' \<le> open_counts indeg + length nodes"
  using fold_lower_measure [of "head u" "indeg[u := None]" nodes indeg' nodes'] open_counts_update [of u indeg None]
  by (cases "u < length indeg") (auto simp: topo_visit_def list_update_beyond)

lemma fold_visit_measure:
  "fold (topo_visit head) us (indeg, nodes) = (indeg', nodes') \<Longrightarrow>
   open_counts indeg' + length nodes' \<le> open_counts indeg + length nodes"
proof (induction us arbitrary: indeg nodes)
  case (Cons u us)
  obtain indeg1 nodes1 where "topo_visit head u (indeg, nodes) = (indeg1, nodes1)" by fastforce
  with Cons topo_visit_measure [OF this] show ?case by fastforce
qed simp

function topo_waves :: "(nat \<Rightarrow> nat list) \<Rightarrow> int option list \<Rightarrow> nat list \<Rightarrow> nat list" where
  "topo_waves head indeg wave =
     (if wave = [] then []
      else case fold (topo_visit head) wave (indeg, []) of
             (indeg', nodes) \<Rightarrow> wave @ topo_waves head indeg' nodes)"
  by pat_completeness auto
termination
proof (relation "measure (\<lambda>(head, indeg, wave). open_counts indeg + length wave)", goal_cases)
  case (2 head indeg wave indeg' nodes)
  then show ?case using fold_visit_measure [of head wave indeg "[]" indeg' nodes]
    by (cases wave) (auto split: prod.splits)
qed simp

declare topo_waves.simps [simp del]

definition topo_order :: "('k, 'z) env_scheme \<Rightarrow> Transaction list \<Rightarrow> pool \<Rightarrow> nat list" where
  "topo_order E txns m =
     (case fold addedge (topo_edges E txns m) (\<lambda>_. [], replicate (length txns) (Some 0)) of
        (head, indeg) \<Rightarrow>
          topo_waves head indeg (filter (\<lambda>i. indeg ! i = Some 0) (range_map E 2 [0..<length txns])))"

text \<open>
  \<^verbatim>\<open>GetTxns\<close>: the first 50 transactions in order, and the pool without the transactions the order does
  not reach. A node occurs in the order once (\<open>topo_waves_correct\<close>), so no pointer of the result is nil.
\<close>

definition GetTxns :: "('k, 'z) env_scheme \<Rightarrow> pool \<Rightarrow> Transaction list \<times> pool" where
  "GetTxns E m =
     (let txns = map snd (range_map E 0 m);
          nodes = topo_order E txns m
      in (map (nth txns) (take 50 nodes),
          fold (\<lambda>i. Mempool_Delete (Transaction_Hash E (txns ! i)))
               (filter (\<lambda>i. i \<notin> set nodes) [0..<length txns]) m))"

section \<open>Following an output through the pool\<close>

type_synonym expanded = "TxnOutput \<times> HashValue \<times> int"

text \<open>
  The outputs that the pool transaction \<open>txn\<close> gives back to the owner of an output it spends, once for
  every input that spends it.
\<close>

definition expand_txn :: "'z json_scheme \<Rightarrow> expanded \<Rightarrow> Transaction \<Rightarrow> expanded list" where
  "expand_txn E e txn =
     concat (map (\<lambda>vin.
       if IsLockedWithKey E (fst e) (PubKey vin) \<and> Value (fst e) = VoutValue vin
          \<and> HashValue_Equal (fst (snd e)) (VoutHash vin)
       then map (\<lambda>(i, out). (out, Transaction_Hash E txn, int i))
              (filter (\<lambda>(i, out). IsLockedWithKey E out (PubKey vin)) (enumerate 0 (Vout txn)))
       else []) (Vin txn))"

text \<open>A round of the outer loop; the \<open>i\<close>-th range statement it executes has number \<open>site + i\<close>.\<close>

definition expand_round :: "('k, 'z) env_scheme \<Rightarrow> pool \<Rightarrow> nat \<Rightarrow> expanded list \<Rightarrow> expanded list" where
  "expand_round E m site outs =
     concat (map (\<lambda>(i, e). concat (map (\<lambda>(k, txn). expand_txn E e txn) (range_map E i m)))
       (enumerate site outs))"

partial_function (option) expand_loop ::
  "('k, 'z) env_scheme \<Rightarrow> pool \<Rightarrow> nat \<Rightarrow> expanded list \<Rightarrow> expanded list option" where
  "expand_loop E m site outs =
     (let more = expand_round E m site outs
      in if more = [] then Some outs else expand_loop E m (site + length outs) more)"

definition ExpandTxnOutput ::
  "('k, 'z) env_scheme \<Rightarrow> TxnOutput \<Rightarrow> HashValue \<Rightarrow> int \<Rightarrow> pool \<Rightarrow> expanded list outcome" where
  "ExpandTxnOutput E out hash index m = returns (expand_loop E m 10 [(out, hash, index)])"

section \<open>Correctness of the order\<close>

text \<open>The graph that \<open>addedge\<close> builds from a list of edges between nodes below \<open>n\<close>.\<close>

lemma fold_addedge:
  assumes "\<forall>(u, v) \<in> set es. u < n \<and> v < n" and "length indeg = n" and "\<forall>v < n. indeg ! v \<noteq> None"
  shows "fold addedge es (head, indeg) =
    (\<lambda>u. rev (map snd (filter (\<lambda>e. fst e = u) es)) @ head u,
     map (\<lambda>v. Some (indeg_at indeg v + int (length (filter (\<lambda>e. snd e = v) es)))) [0..<n])"
  using assms
proof (induction es arbitrary: head indeg)
  case Nil
  then show ?case by (auto simp: indeg_at_def intro!: nth_equalityI)
next
  case (Cons e es)
  obtain u v where e: "e = (u, v)" by (cases e)
  let ?indeg = "(indeg[u := Some (indeg_at indeg u)])[v := Some (indeg_at (indeg[u := Some (indeg_at indeg u)]) v + 1)]"
  have "\<forall>w < n. ?indeg ! w \<noteq> None" using Cons.prems e by (auto simp: nth_list_update)
  moreover have "indeg_at ?indeg w = indeg_at indeg w + (if w = v then 1 else 0)" for w
    using Cons.prems e by (auto simp: indeg_at_def nth_list_update)
  ultimately show ?case
    using Cons e by (auto simp: Let_def fun_eq_iff)
qed

lemma fold_lower:
  assumes "\<forall>v \<in> set vs. v < length indeg \<and> int (count_list vs v) \<le> indeg_at indeg v"
  shows "\<exists>new. fold lower vs (indeg, nodes) =
      (map (\<lambda>v. if v \<in> set vs then Some (indeg_at indeg v - int (count_list vs v)) else indeg ! v) [0..<length indeg],
       nodes @ new) \<and> distinct new \<and> set new = {v \<in> set vs. indeg_at indeg v = int (count_list vs v)}"
  using assms
proof (induction vs arbitrary: indeg nodes)
  case Nil
  then show ?case by (auto intro!: nth_equalityI exI [of _ "[]"])
next
  case (Cons v vs)
  define c where "c = indeg_at indeg v - 1"
  define indeg1 where "indeg1 = indeg[v := Some c]"
  define nodes1 where "nodes1 = (if c = 0 then nodes @ [v] else nodes)"
  have at: "indeg_at indeg1 w = (if w = v then c else indeg_at indeg w)" for w
    using Cons.prems by (auto simp: indeg_at_def indeg1_def nth_list_update)
  have nth1: "indeg1 ! w = (if w = v then Some c else indeg ! w)" if "w < length indeg" for w
    using that by (simp add: indeg1_def nth_list_update)
  have len: "length indeg1 = length indeg" by (simp add: indeg1_def)
  have "\<forall>w \<in> set vs. w < length indeg1 \<and> int (count_list vs w) \<le> indeg_at indeg1 w"
    using Cons.prems by (auto simp: at len c_def split: if_splits)
  from Cons.IH [OF this, of nodes1] obtain new where new:
    "fold lower vs (indeg1, nodes1) =
      (map (\<lambda>w. if w \<in> set vs then Some (indeg_at indeg1 w - int (count_list vs w)) else indeg1 ! w) [0..<length indeg],
       nodes1 @ new)" "distinct new" "set new = {w \<in> set vs. indeg_at indeg1 w = int (count_list vs w)}"
    by (auto simp: len)
  have "v \<notin> set vs" if "c = 0"
    using Cons.prems that count_list_0_iff [of vs v] by (auto simp: c_def)
  then have extra: "v \<notin> set new" if "c = 0" using that new(3) by auto
  have step: "fold lower (v # vs) (indeg, nodes) = fold lower vs (indeg1, nodes1)"
    by (simp add: lower_def indeg1_def nodes1_def c_def)
  show ?case
    unfolding step new(1)
  proof (intro exI [of _ "(if c = 0 then [v] else []) @ new"] conjI)
    show "distinct ((if c = 0 then [v] else []) @ new)" using new(2) extra by auto
    show "set ((if c = 0 then [v] else []) @ new) =
        {w \<in> set (v # vs). indeg_at indeg w = int (count_list (v # vs) w)}"
    proof (intro set_eqI)
      fix w
      show "w \<in> set ((if c = 0 then [v] else []) @ new) \<longleftrightarrow>
          w \<in> {w \<in> set (v # vs). indeg_at indeg w = int (count_list (v # vs) w)}"
        using count_list_0_iff [of vs v] Cons.prems
        by (cases "w = v"; cases "v \<in> set vs") (simp_all add: new(3) at c_def algebra_simps)
    qed
    show "(map (\<lambda>w. if w \<in> set vs then Some (indeg_at indeg1 w - int (count_list vs w)) else indeg1 ! w) [0..<length indeg],
       nodes1 @ new) =
      (map (\<lambda>w. if w \<in> set (v # vs) then Some (indeg_at indeg w - int (count_list (v # vs) w)) else indeg ! w)
        [0..<length indeg], nodes @ (if c = 0 then [v] else []) @ new)"
      using count_list_0_iff [of vs v] Cons.prems
      by (simp add: nodes1_def at nth1) (simp add: c_def)
  qed
qed

text \<open>
  The invariant of the loop, for visited nodes \<open>P\<close> and pending nodes \<open>Q\<close>: counters count the edges
  from nodes not yet visited, exactly the nodes whose predecessors are all visited are in the
  list, and a node's predecessors stand before it.
\<close>

definition sources :: "(nat \<times> nat) list \<Rightarrow> nat \<Rightarrow> nat set" where
  "sources es v = {u. (u, v) \<in> set es}"

definition pending :: "(nat \<times> nat) list \<Rightarrow> nat set \<Rightarrow> nat \<Rightarrow> nat" where
  "pending es P v = length (filter (\<lambda>e. snd e = v \<and> fst e \<notin> P) es)"

definition precede :: "(nat \<times> nat) list \<Rightarrow> nat list \<Rightarrow> bool" where
  "precede es ns \<longleftrightarrow> (\<forall>i < length ns. sources es (ns ! i) \<subseteq> set (take i ns))"

definition topo_inv :: "(nat \<times> nat) list \<Rightarrow> nat \<Rightarrow> nat list \<Rightarrow> nat list \<Rightarrow> int option list \<Rightarrow> bool" where
  "topo_inv es n P Q indeg \<longleftrightarrow>
     distinct (P @ Q) \<and> set (P @ Q) = {v. v < n \<and> sources es v \<subseteq> set P} \<and> precede es (P @ Q) \<and>
     indeg = map (\<lambda>v. if v \<in> set P then None else Some (int (pending es (set P) v))) [0..<n]"

lemma pending_0_iff: "pending es P v = 0 \<longleftrightarrow> sources es v \<subseteq> P"
  by (auto simp: pending_def sources_def filter_empty_conv)

lemma pending_insert:
  "u \<notin> P \<Longrightarrow> pending es P v = pending es (insert u P) v + count_list (map snd (filter (\<lambda>e. fst e = u) es)) v"
  by (induction es) (auto simp: pending_def)

lemma precede_append:
  assumes "precede es ns" and "\<forall>v \<in> set new. sources es v \<subseteq> set ns"
  shows "precede es (ns @ new)"
  unfolding precede_def
proof (intro allI impI)
  fix i
  assume i: "i < length (ns @ new)"
  show "sources es ((ns @ new) ! i) \<subseteq> set (take i (ns @ new))"
  proof (cases "i < length ns")
    case True
    then show ?thesis using assms(1) by (auto simp: precede_def nth_append)
  next
    case False
    then have "new ! (i - length ns) \<in> set new" using i by (intro nth_mem) auto
    with False show ?thesis using assms(2) by (auto simp: nth_append)
  qed
qed

lemma topo_visit_inv:
  assumes inv: "topo_inv es n P (u # Q @ nodes) indeg"
    and head: "head = (\<lambda>u. rev (map snd (filter (\<lambda>e. fst e = u) es)))"
    and es: "\<forall>(u, v) \<in> set es. u < n \<and> v < n"
    and visit: "topo_visit head u (indeg, nodes) = (indeg', nodes')"
  shows "topo_inv es n (P @ [u]) (Q @ nodes') indeg'"
proof -
  have u: "u \<notin> set P" "u < n" using inv by (auto simp: topo_inv_def)
  have src: "sources es u \<subseteq> set P" using inv by (auto simp: topo_inv_def)
  have len: "length indeg = n" using inv by (simp add: topo_inv_def)
  define vs where "vs = head u"
  have cnt: "count_list vs v = pending es (set P) v - pending es (insert u (set P)) v"
      "pending es (insert u (set P)) v \<le> pending es (set P) v" for v
    using pending_insert [OF u(1), of es v] by (simp_all add: vs_def head count_list_rev)
  have vs_iff: "v \<in> set vs \<longleftrightarrow> u \<in> sources es v" for v
    by (force simp: vs_def head sources_def)
  have vs_P: "v < n \<and> v \<notin> insert u (set P)" if "v \<in> set vs" for v
  proof -
    have "v < n" using that es by (auto simp: vs_iff sources_def)
    moreover have "u \<in> sources es v" using that by (simp add: vs_iff)
    moreover have "sources es w \<subseteq> set P" if "w \<in> insert u (set P)" for w
      using inv that by (auto simp: topo_inv_def)
    ultimately show ?thesis using u(1) by blast
  qed
  let ?d = "indeg[u := None]"
  have d_nth: "?d ! v = (if v \<in> insert u (set P) then None else Some (int (pending es (set P) v)))"
    if "v < n" for v
    using that inv by (cases "v = u") (simp_all add: topo_inv_def)
  have at: "indeg_at ?d v = int (pending es (set P) v)" if "v \<in> set vs" for v
    using vs_P [OF that] len d_nth [of v] by (simp add: indeg_at_def)
  have "\<forall>v \<in> set vs. v < length ?d \<and> int (count_list vs v) \<le> indeg_at ?d v"
    using vs_P at cnt by (simp add: len)
  from fold_lower [OF this, of nodes] obtain new where new: "fold lower vs (?d, nodes) =
      (map (\<lambda>v. if v \<in> set vs then Some (indeg_at ?d v - int (count_list vs v)) else ?d ! v) [0..<n], nodes @ new)"
      "distinct new" "set new = {v \<in> set vs. indeg_at ?d v = int (count_list vs v)}"
    by (auto simp: len)
  have new_set: "set new = {v \<in> set vs. sources es v \<subseteq> insert u (set P)}"
    unfolding new(3) using at cnt by (auto simp: pending_0_iff [symmetric])
  have out: "nodes' = nodes @ new"
      "indeg' = map (\<lambda>v. if v \<in> set vs then Some (indeg_at ?d v - int (count_list vs v)) else ?d ! v) [0..<n]"
    using visit new(1) by (auto simp: topo_visit_def vs_def)
  have indeg': "indeg' = map (\<lambda>v. if v \<in> set (P @ [u]) then None else Some (int (pending es (set (P @ [u])) v))) [0..<n]"
    unfolding out(2)
  proof (intro map_cong refl)
    fix v
    assume "v \<in> set [0..<n]"
    then have v: "v < n" by simp
    show "(if v \<in> set vs then Some (indeg_at ?d v - int (count_list vs v)) else ?d ! v) =
        (if v \<in> set (P @ [u]) then None else Some (int (pending es (set (P @ [u])) v)))"
      using vs_P [of v] at [of v] cnt [of v] count_list_0_iff [of vs v] d_nth [OF v]
      by (cases "v \<in> set vs") auto
  qed
  have old: "distinct (P @ u # Q @ nodes)" "set (P @ u # Q @ nodes) = {v. v < n \<and> sources es v \<subseteq> set P}"
      "precede es (P @ u # Q @ nodes)"
    using inv by (simp_all add: topo_inv_def)
  have fresh: "\<forall>v \<in> set new. \<not> sources es v \<subseteq> set P"
    using u(1) by (auto simp: new_set vs_iff)
  have "distinct ((P @ [u]) @ Q @ nodes')"
    using old(1,2) fresh new(2) by (auto simp: out(1))
  moreover have "set ((P @ [u]) @ Q @ nodes') = {v. v < n \<and> sources es v \<subseteq> set (P @ [u])}"
  proof -
    have "v \<in> set new \<longleftrightarrow> v < n \<and> sources es v \<subseteq> insert u (set P) \<and> \<not> sources es v \<subseteq> set P" for v
      using vs_P [of v] fresh by (auto simp: new_set vs_iff)
    then show ?thesis using old(2) by (auto simp: out(1))
  qed
  moreover have "precede es ((P @ [u]) @ Q @ nodes')"
    using precede_append [OF old(3), of new] by (auto simp: new_set out(1))
  ultimately show ?thesis using indeg' by (simp only: topo_inv_def)
qed

lemma fold_visit_inv:
  assumes head: "head = (\<lambda>u. rev (map snd (filter (\<lambda>e. fst e = u) es)))"
    and es: "\<forall>(u, v) \<in> set es. u < n \<and> v < n"
  shows "topo_inv es n P (us @ nodes) indeg \<Longrightarrow> fold (topo_visit head) us (indeg, nodes) = (indeg', nodes') \<Longrightarrow>
    topo_inv es n (P @ us) nodes' indeg'"
proof (induction us arbitrary: P indeg nodes)
  case (Cons u us)
  obtain indeg1 nodes1 where visit: "topo_visit head u (indeg, nodes) = (indeg1, nodes1)" by fastforce
  have "topo_inv es n (P @ [u]) (us @ nodes1) indeg1"
    using topo_visit_inv [OF _ head es visit] Cons.prems(1) by simp
  from Cons.IH [OF this] show ?case using Cons.prems(2) visit by simp
qed simp

lemma topo_waves_inv:
  assumes head: "head = (\<lambda>u. rev (map snd (filter (\<lambda>e. fst e = u) es)))"
    and es: "\<forall>(u, v) \<in> set es. u < n \<and> v < n"
  shows "topo_inv es n P wave indeg \<Longrightarrow> \<exists>indeg'. topo_inv es n (P @ topo_waves head indeg wave) [] indeg'"
proof (induction "open_counts indeg + length wave" arbitrary: P indeg wave rule: less_induct)
  case less
  show ?case
  proof (cases "wave = []")
    case True
    then show ?thesis using less.prems by (auto simp: topo_waves.simps)
  next
    case False
    obtain indeg1 nodes where visit: "fold (topo_visit head) wave (indeg, []) = (indeg1, nodes)" by fastforce
    have "topo_inv es n (P @ wave) nodes indeg1"
      using fold_visit_inv [OF head es _ visit] less.prems by simp
    moreover have "open_counts indeg1 + length nodes < open_counts indeg + length wave"
      using fold_visit_measure [OF visit] False by (cases wave) auto
    ultimately have "\<exists>indeg'. topo_inv es n ((P @ wave) @ topo_waves head indeg1 nodes) [] indeg'"
      using less.hyps by blast
    then show ?thesis using False visit by (simp add: topo_waves.simps [of head indeg wave])
  qed
qed

text \<open>
  The order of a graph given by its edges: every node at most once, predecessors first, and a node
  is left out exactly when it is on a cycle or can be reached from one.
\<close>

lemma topo_waves_correct:
  assumes es: "\<forall>(u, v) \<in> set es. u < n \<and> v < n"
    and start: "distinct start" "set start = {..<n}"
    and graph: "fold addedge es (\<lambda>_. [], replicate n (Some 0)) = (head, indeg)"
  defines "ns \<equiv> topo_waves head indeg (filter (\<lambda>i. indeg ! i = Some 0) start)"
  shows "distinct ns" and "precede es ns" and "set ns = {..<n} \<inter> Wellfounded.acc (set es)"
proof -
  have g: "head = (\<lambda>u. rev (map snd (filter (\<lambda>e. fst e = u) es)))"
      "indeg = map (\<lambda>v. Some (int (pending es {} v))) [0..<n]"
    using graph fold_addedge [OF es, of "replicate n (Some 0)"]
    by (auto simp: indeg_at_def pending_def)
  have sub: "sources es v \<subseteq> {..<n}" for v using es by (auto simp: sources_def)
  let ?start = "filter (\<lambda>i. indeg ! i = Some 0) start"
  have zero: "indeg ! v = Some 0 \<longleftrightarrow> sources es v \<subseteq> {}" if "v < n" for v
    using that pending_0_iff [of es "{}" v] unfolding g(2) by simp
  have first: "set ?start = {v. v < n \<and> sources es v \<subseteq> {}}"
    unfolding set_filter start(2) using zero by blast
  then have "precede es ([] @ ?start)"
    by (intro precede_append) (auto simp: precede_def)
  with first have "topo_inv es n [] ?start indeg"
    using start(1) by (simp add: topo_inv_def g(2))
  from topo_waves_inv [OF g(1) es this] obtain indeg' where inv: "topo_inv es n ns [] indeg'"
    by (auto simp: ns_def)
  then show "distinct ns" "precede es ns" by (simp_all add: topo_inv_def)
  have mem: "v \<in> set ns \<longleftrightarrow> v < n \<and> sources es v \<subseteq> set ns" for v
    using inv by (auto simp: topo_inv_def)
  have "ns ! i \<in> Wellfounded.acc (set es)" if "i < length ns" for i
    using that
  proof (induction i rule: less_induct)
    case (less i)
    have "u \<in> Wellfounded.acc (set es)" if u: "(u, ns ! i) \<in> set es" for u
    proof -
      have "u \<in> set (take i ns)"
        using u \<open>precede es ns\<close> less.prems by (auto simp: precede_def sources_def)
      then obtain j where "j < i" "j < length ns" "u = ns ! j" by (auto simp: in_set_conv_nth)
      then show ?thesis using less.IH by blast
    qed
    then show ?case by (blast intro: Wellfounded.acc.accI)
  qed
  then have "v \<in> Wellfounded.acc (set es)" if "v \<in> set ns" for v
    using that by (metis in_set_conv_nth)
  then have "set ns \<subseteq> {..<n} \<inter> Wellfounded.acc (set es)" using mem by blast
  moreover have "v < n \<longrightarrow> v \<in> set ns" if "v \<in> Wellfounded.acc (set es)" for v
    using that
  proof (induction rule: Wellfounded.acc.induct)
    case (accI v)
    then show ?case using mem [of v] sub [of v] by (auto simp: sources_def)
  qed
  ultimately show "set ns = {..<n} \<inter> Wellfounded.acc (set es)" by blast
qed

section \<open>Correctness of GetTxns\<close>

text \<open>A Go \<open>range\<close> visits every entry of a map once, in some order.\<close>

locale go_ranges =
  fixes E :: "('k, 'z) env_scheme"
  assumes range_perm_mset: "mset (range_perm E site n) = mset [0..<n]"
begin

lemma mset_range_map [simp]: "mset (range_map E site xs) = mset xs"
proof -
  have "mset (range_map E site xs) = image_mset (nth xs) (mset [0..<length xs])"
    by (simp only: range_map_def mset_map range_perm_mset)
  also have "\<dots> = mset (map (nth xs) [0..<length xs])" by (simp only: mset_map)
  finally show ?thesis by (simp only: map_nth)
qed

lemma set_range_map [simp]: "set (range_map E site xs) = set xs"
  by (rule mset_eq_setD) simp

lemma length_range_map [simp]: "length (range_map E site xs) = length xs"
  by (rule mset_eq_length) simp

lemma distinct_range_map: "distinct (map f (range_map E site xs)) \<longleftrightarrow> distinct (map f xs)"
  by (rule mset_eq_imp_distinct_iff) (simp add: mset_map)

end

interpretation ref_ranges: go_ranges ref_env
  by unfold_locales simp

text \<open>
  In a pool filled by \<^verbatim>\<open>AddTxn\<close> the keys are those of the transactions. \<open>spent_by m\<close> relates the key of
  a pool transaction to the keys of the pool transactions that spend it.
\<close>

definition pool_ok :: "'z json_scheme \<Rightarrow> pool \<Rightarrow> bool" where
  "pool_ok E m \<longleftrightarrow> distinct (map fst m) \<and> (\<forall>(k, txn) \<in> set m. k = txn_key E txn)"

definition spends :: "Transaction \<Rightarrow> bytes set" where
  "spends txn = (\<lambda>vin. HashValue_Key (VoutHash vin)) ` set (Vin txn)"

definition spent_by :: "pool \<Rightarrow> (bytes \<times> bytes) set" where
  "spent_by m = {(p, k). p \<in> fst ` set m \<and> (\<exists>txn. (k, txn) \<in> set m \<and> p \<in> spends txn)}"

lemma edge_images:
  "(\<Union>x \<in> set m. \<Union>p \<in> spends (snd x). if p \<in> fst ` set m then {(f p, f (fst x))} else {}) =
   (\<lambda>(p, k). (f p, f k)) ` spent_by m"  (is "?l = ?r")
proof
  show "?l \<subseteq> ?r"
  proof
    fix e
    assume "e \<in> ?l"
    then obtain k t p where "(k, t) \<in> set m" "p \<in> spends t" "p \<in> fst ` set m" "e = (f p, f k)"
      by (force split: if_splits)
    then show "e \<in> ?r" by (auto simp: spent_by_def intro!: image_eqI [where x = "(p, k)"])
  qed
  show "?r \<subseteq> ?l"
  proof
    fix e
    assume "e \<in> ?r"
    then obtain k t p where "(k, t) \<in> set m" "p \<in> spends t" "p \<in> fst ` set m" "e = (f p, f k)"
      by (auto simp: spent_by_def)
    then show "e \<in> ?l" by (intro UN_I [where a = "(k, t)"] UN_I [where a = p]) simp_all
  qed
qed

lemma acc_transfer:
  assumes inj: "inj_on f A" and r: "r \<subseteq> A \<times> A" and img: "s = (\<lambda>(x, y). (f x, f y)) ` r" and x: "x \<in> A"
  shows "f x \<in> Wellfounded.acc s \<longleftrightarrow> x \<in> Wellfounded.acc r"
proof
  assume "x \<in> Wellfounded.acc r"
  then show "f x \<in> Wellfounded.acc s"
    using x
  proof (induction rule: Wellfounded.acc.induct)
    case (accI x)
    show ?case
    proof (rule Wellfounded.acc.accI)
      fix z
      assume "(z, f x) \<in> s"
      then obtain a b where "(a, b) \<in> r" "z = f a" "f x = f b" by (auto simp: img)
      moreover from this have "b = x" using inj r accI.prems by (auto dest: inj_onD)
      ultimately show "z \<in> Wellfounded.acc s" using accI.IH r by blast
    qed
  qed
next
  have "\<forall>x \<in> A. y = f x \<longrightarrow> x \<in> Wellfounded.acc r" if "y \<in> Wellfounded.acc s" for y
    using that
  proof (induction rule: Wellfounded.acc.induct)
    case (accI y)
    show ?case
    proof (intro ballI impI, rule Wellfounded.acc.accI)
      fix x z
      assume x: "x \<in> A" "y = f x" "(z, x) \<in> r"
      then have "(f z, y) \<in> s" "z \<in> A" using r by (force simp: img)+
      then show "z \<in> Wellfounded.acc r" using accI.IH by blast
    qed
  qed
  then show "f x \<in> Wellfounded.acc s \<Longrightarrow> x \<in> Wellfounded.acc r" using x by blast
qed

context go_ranges
begin

lemma GetTxns_graph:
  assumes ok: "pool_ok E m"
  defines "txns \<equiv> map snd (range_map E 0 m)"
  defines "ks \<equiv> map fst (range_map E 0 m)"
  shows "map (txn_key E) txns = ks"
    and "i < length m \<Longrightarrow> keyToId E txns (ks ! i) = i"
    and "\<forall>(u, v) \<in> set (topo_edges E txns m). u < length m \<and> v < length m"
    and "(\<lambda>(u, v). (ks ! u, ks ! v)) ` set (topo_edges E txns m) = spent_by m"
    and "distinct ks" and "set ks = fst ` set m" and "length ks = length m"
proof -
  have keys: "k = txn_key E t" if "(k, t) \<in> set m" for k t
    using ok that by (auto simp: pool_ok_def)
  show ks: "map (txn_key E) txns = ks"
    using keys by (auto simp: txns_def ks_def)
  show dks: "distinct ks"
    using ok by (simp add: ks_def distinct_range_map pool_ok_def)
  show lks: "length ks = length m" by (simp add: ks_def)
  show sks: "set ks = fst ` set m" by (simp add: ks_def)
  have lt: "length txns = length m" by (simp add: txns_def)
  show id: "keyToId E txns (ks ! i) = i" if "i < length m" for i
  proof -
    have "map_of (rev (zip ks [0..<length m])) = map_of (zip ks [0..<length m])"
      using dks by (intro map_of_inject_set [THEN iffD2]) (simp_all add: lks rev_map [symmetric])
    then show ?thesis
      using that dks by (simp add: keyToId_def ks lt map_of_zip_nth lks)
  qed
  have mo: "map_of m k = Some t \<longleftrightarrow> (k, t) \<in> set m" for k t
    using ok by (simp add: pool_ok_def)
  have idk: "keyToId E txns k < length m \<and> ks ! keyToId E txns k = k" if "k \<in> fst ` set m" for k
    using that id unfolding sks [symmetric] by (auto simp: in_set_conv_nth lks)
  have edges: "set (topo_edges E txns m) =
      (\<lambda>(p, k). (keyToId E txns p, keyToId E txns k)) ` spent_by m"
  proof -
    have entry: "set (case map_of m p of None \<Rightarrow> []
          | Some prevTxn \<Rightarrow> [(keyToId E txns (txn_key E prevTxn), v)]) =
        (if p \<in> fst ` set m then {(keyToId E txns p, v)} else {})" for p v
    proof (cases "map_of m p")
      case None
      then have "p \<notin> fst ` set m" by (simp add: map_of_eq_None_iff)
      with None show ?thesis by simp
    next
      case (Some t)
      then have "(p, t) \<in> set m" by (simp add: mo)
      then have "p = txn_key E t" "p \<in> fst ` set m" using keys by force+
      with Some show ?thesis by simp
    qed
    have "set (topo_edges E txns m) =
        (\<Union>x \<in> set m. \<Union>p \<in> spends (snd x).
          if p \<in> fst ` set m then {(keyToId E txns p, keyToId E txns (txn_key E (snd x)))} else {})"
      by (simp only: topo_edges_def spends_def entry case_prod_beta set_concat set_map set_range_map
          image_image)
    also have "\<dots> = (\<Union>x \<in> set m. \<Union>p \<in> spends (snd x).
          if p \<in> fst ` set m then {(keyToId E txns p, keyToId E txns (fst x))} else {})"
      using keys by (intro SUP_cong refl) (metis prod.collapse)
    also have "\<dots> = (\<lambda>(p, k). (keyToId E txns p, keyToId E txns k)) ` spent_by m"
      by (rule edge_images)
    finally show ?thesis .
  qed
  have sub: "p \<in> fst ` set m" "k \<in> fst ` set m" if "(p, k) \<in> spent_by m" for p k
    using that by (force simp: spent_by_def)+
  show "\<forall>(u, v) \<in> set (topo_edges E txns m). u < length m \<and> v < length m"
    using idk [OF sub(1)] idk [OF sub(2)] by (auto simp: edges)
  have "(\<lambda>(u, v). (ks ! u, ks ! v)) ` set (topo_edges E txns m) = (\<lambda>e. e) ` spent_by m"
    unfolding edges image_image using idk [OF sub(1)] idk [OF sub(2)] by (intro image_cong) auto
  then show "(\<lambda>(u, v). (ks ! u, ks ! v)) ` set (topo_edges E txns m) = spent_by m" by simp
qed

lemma fold_Mempool_Delete:
  "fold (\<lambda>i. Mempool_Delete (h i)) is m = filter (\<lambda>e. \<forall>i \<in> set is. fst e \<noteq> HashValue_Key (h i)) m"
  by (induction "is" arbitrary: m) (auto simp: Mempool_Delete_def AList.delete_eq intro!: filter_cong)

lemma GetTxns_order:
  assumes ok: "pool_ok E m"
  obtains txns ks ns where "map (txn_key E) txns = ks" and "distinct ks" and "set (zip ks txns) = set m"
    and "length ks = length m" and "distinct ns" and "set ns = {v. v < length m \<and> ks ! v \<in> Wellfounded.acc (spent_by m)}"
    and "\<forall>i < length ns. \<forall>p. (p, ks ! (ns ! i)) \<in> spent_by m \<longrightarrow> p \<in> (!) ks ` set (take i ns)"
    and "GetTxns E m = (map (nth txns) (take 50 ns),
           filter (\<lambda>e. \<forall>i \<in> {0..<length m} - set ns. fst e \<noteq> ks ! i) m)"
proof -
  define txns where "txns = map snd (range_map E 0 m)"
  define ks where "ks = map fst (range_map E 0 m)"
  define es where "es = topo_edges E txns m"
  note g = GetTxns_graph [OF ok, folded txns_def ks_def, folded es_def]
  obtain head indeg where graph: "fold addedge es (\<lambda>_. [], replicate (length m) (Some 0)) = (head, indeg)"
    by fastforce
  define start where "start = range_map E 2 [0..<length m]"
  have start: "distinct start" "set start = {..<length m}"
    using distinct_range_map [of id 2 "[0..<length m]"] by (auto simp: start_def)
  define ns where "ns = topo_waves head indeg (filter (\<lambda>i. indeg ! i = Some 0) start)"
  note o = topo_waves_correct [OF g(3) start graph, folded ns_def]
  have inj: "inj_on ((!) ks) {..<length m}" using g(5,7) by (simp add: inj_on_nth)
  have acc: "ks ! v \<in> Wellfounded.acc (spent_by m) \<longleftrightarrow> v \<in> Wellfounded.acc (set es)" if "v < length m" for v
    using g(3) that by (intro acc_transfer [OF inj _ g(4) [symmetric]]) auto
  have lt: "length txns = length m" by (simp add: txns_def)
  have order: "topo_order E txns m = ns"
    by (simp add: topo_order_def lt es_def [symmetric] graph start_def ns_def)
  show thesis
  proof (rule that [of txns ks ns])
    show "set (zip ks txns) = set m" by (simp add: ks_def txns_def zip_map_fst_snd)
    show "set ns = {v. v < length m \<and> ks ! v \<in> Wellfounded.acc (spent_by m)}"
      using o(3) acc by auto
    show "\<forall>i < length ns. \<forall>p. (p, ks ! (ns ! i)) \<in> spent_by m \<longrightarrow> p \<in> (!) ks ` set (take i ns)"
    proof (intro allI impI)
      fix i p
      assume i: "i < length ns" and p: "(p, ks ! (ns ! i)) \<in> spent_by m"
      obtain u v where uv: "(u, v) \<in> set es" "p = ks ! u" "ks ! (ns ! i) = ks ! v"
        using p unfolding g(4) [symmetric] by auto
      have "ns ! i < length m" using o(3) nth_mem [OF i] by auto
      then have "v = ns ! i" using uv g(3) inj by (auto dest: inj_onD)
      then have "u \<in> set (take i ns)" using o(2) i uv(1) by (auto simp: precede_def sources_def)
      then show "p \<in> (!) ks ` set (take i ns)" using uv(2) by blast
    qed
    have "HashValue_Key (Transaction_Hash E (txns ! i)) = ks ! i" if "i < length m" for i
      using that g(1) by (metis lt nth_map txn_key_def)
    then show "GetTxns E m = (map (nth txns) (take 50 ns),
        filter (\<lambda>e. \<forall>i \<in> {0..<length m} - set ns. fst e \<noteq> ks ! i) m)"
      by (auto simp: GetTxns_def Let_def txns_def [symmetric] order fold_Mempool_Delete lt intro!: filter_cong)
  qed (use g o in auto)
qed

lemma GetTxns_pool:
  assumes ok: "pool_ok E m" and r: "GetTxns E m = (ret, m')"
  shows "m' = filter (\<lambda>(k, txn). k \<in> Wellfounded.acc (spent_by m)) m"
proof -
  obtain txns ks ns where
    g: "map (txn_key E) txns = ks" "distinct ks" "set (zip ks txns) = set m" "length ks = length m" "distinct ns"
      "set ns = {v. v < length m \<and> ks ! v \<in> Wellfounded.acc (spent_by m)}"
    and before: "\<forall>i < length ns. \<forall>p. (p, ks ! (ns ! i)) \<in> spent_by m \<longrightarrow> p \<in> (!) ks ` set (take i ns)"
    and eq: "GetTxns E m = (map (nth txns) (take 50 ns),
        filter (\<lambda>e. \<forall>i \<in> {0..<length m} - set ns. fst e \<noteq> ks ! i) m)"
    by (rule GetTxns_order [OF ok])
  have "m' = filter (\<lambda>e. \<forall>i \<in> {0..<length m} - set ns. fst e \<noteq> ks ! i) m" using r eq by simp
  also have "\<dots> = filter (\<lambda>(k, txn). k \<in> Wellfounded.acc (spent_by m)) m"
  proof (rule filter_cong [OF refl])
    fix e
    assume "e \<in> set m"
    then obtain j where j: "j < length m" "fst e = ks ! j"
      using g(3,4) by (metis in_set_zip)
    then have "(\<exists>i \<in> {0..<length m} - set ns. fst e = ks ! i) \<longleftrightarrow> j \<notin> set ns"
      using g(2,4) by (auto simp: nth_eq_iff_index_eq)
    then show "(\<forall>i \<in> {0..<length m} - set ns. fst e \<noteq> ks ! i) \<longleftrightarrow> (case e of (k, txn) \<Rightarrow> k \<in> Wellfounded.acc (spent_by m))"
      using j g(6) by (auto simp: case_prod_beta)
  qed
  finally show ?thesis .
qed

lemma GetTxns_valid: "pool_ok E m \<Longrightarrow> GetTxns E m = (ret, m') \<Longrightarrow> pool_ok E m'"
  using GetTxns_pool [of m ret m'] by (auto simp: pool_ok_def distinct_map_filter)

lemma GetTxns_list:
  assumes ok: "pool_ok E m" and r: "GetTxns E m = (ret, m')"
  shows "length ret = min 50 (length m')" and "distinct (map (txn_key E) ret)" and "set ret \<subseteq> snd ` set m'"
    and "\<And>i p. i < length ret \<Longrightarrow> p \<in> spends (ret ! i) \<Longrightarrow> p \<in> fst ` set m \<Longrightarrow>
      \<exists>j < i. txn_key E (ret ! j) = p"
proof -
  obtain txns ks ns where
    g: "map (txn_key E) txns = ks" "distinct ks" "set (zip ks txns) = set m" "length ks = length m" "distinct ns"
      "set ns = {v. v < length m \<and> ks ! v \<in> Wellfounded.acc (spent_by m)}"
    and before: "\<forall>i < length ns. \<forall>p. (p, ks ! (ns ! i)) \<in> spent_by m \<longrightarrow> p \<in> (!) ks ` set (take i ns)"
    and eq: "GetTxns E m = (map (nth txns) (take 50 ns),
        filter (\<lambda>e. \<forall>i \<in> {0..<length m} - set ns. fst e \<noteq> ks ! i) m)"
    by (rule GetTxns_order [OF ok])
  have ret: "ret = map (nth txns) (take 50 ns)" using r eq by simp
  have lt: "length txns = length m" using g(1,4) by (metis length_map)
  have bound: "v < length m" if "v \<in> set ns" for v using that g(6) by simp
  have key: "txn_key E (txns ! v) = ks ! v" if "v < length m" for v
    using g(1) that lt by (metis nth_map)
  have keys: "map (txn_key E) ret = map (nth ks) (take 50 ns)"
    using key bound by (auto simp: ret dest: in_set_takeD)
  have inj: "inj_on ((!) ks) (set ns)"
    using g(2,4) bound by (auto simp: inj_on_def nth_eq_iff_index_eq)
  show "distinct (map (txn_key E) ret)"
    unfolding keys using g(5) inj by (auto simp: distinct_map intro: inj_on_subset dest: in_set_takeD)
  have m': "m' = filter (\<lambda>(k, txn). k \<in> Wellfounded.acc (spent_by m)) m"
    by (rule GetTxns_pool [OF ok r])
  have entry: "(ks ! v, txns ! v) \<in> set m" if "v < length m" for v
    unfolding g(3) [symmetric] set_zip using that g(4) lt by auto
  have "fst ` set m' = (!) ks ` set ns"
  proof
    show "(!) ks ` set ns \<subseteq> fst ` set m'"
      using entry g(6) by (force simp: m')
    show "fst ` set m' \<subseteq> (!) ks ` set ns"
    proof
      fix k
      assume "k \<in> fst ` set m'"
      then obtain t where "(k, t) \<in> set (zip ks txns)" and k: "k \<in> Wellfounded.acc (spent_by m)"
        by (auto simp: m' g(3))
      then obtain j where "j < length m" "ks ! j = k" using g(4) by (auto simp: in_set_zip)
      then show "k \<in> (!) ks ` set ns" using k g(6) by auto
    qed
  qed
  moreover have "distinct (map fst m')" using ok by (simp add: m' pool_ok_def distinct_map_filter)
  ultimately have "length m' = length ns"
    using g(5) inj by (metis card_image distinct_card length_map set_map)
  then show "length ret = min 50 (length m')" by (simp add: ret min.commute)
  show "set ret \<subseteq> snd ` set m'"
  proof
    fix t
    assume "t \<in> set ret"
    then obtain v where v: "v \<in> set ns" "t = txns ! v" by (auto simp: ret dest: in_set_takeD)
    then have "(ks ! v, t) \<in> set m'" using entry [of v] g(6) by (auto simp: m')
    then show "t \<in> snd ` set m'" by force
  qed
  show "\<exists>j < i. txn_key E (ret ! j) = p"
    if i: "i < length ret" and p: "p \<in> spends (ret ! i)" "p \<in> fst ` set m" for i p
  proof -
    have i': "i < length ns" "i < 50" "ret ! i = txns ! (ns ! i)" using i by (auto simp: ret)
    have "(p, ks ! (ns ! i)) \<in> spent_by m"
      using p i' entry [of "ns ! i"] bound [of "ns ! i"] by (auto simp: spent_by_def)
    then have "p \<in> (!) ks ` set (take i ns)" using before i' by blast
    then obtain j where j: "j < i" "p = ks ! (ns ! j)" by (auto simp: in_set_conv_nth)
    moreover have "map (txn_key E) ret ! j = ks ! (ns ! j)"
      unfolding keys using j i' by simp
    ultimately show ?thesis using i by (intro exI [of _ j]) simp
  qed
qed

lemma GetTxns_wf:
  assumes ok: "pool_ok E m" and r: "GetTxns E m = (ret, m')"
  shows "wf (spent_by m')"
proof -
  have m': "m' = filter (\<lambda>(k, txn). k \<in> Wellfounded.acc (spent_by m)) m"
    by (rule GetTxns_pool [OF ok r])
  then have "spent_by m' \<subseteq> spent_by m" by (auto simp: spent_by_def)
  then have mono: "Wellfounded.acc (spent_by m) \<subseteq> Wellfounded.acc (spent_by m')" by (rule acc_subset)
  have "k \<in> Wellfounded.acc (spent_by m')" for k
  proof (cases "k \<in> fst ` set m'")
    case True
    then show ?thesis using mono by (auto simp: m')
  next
    case False
    then have "(p, k) \<notin> spent_by m'" for p by (force simp: spent_by_def)
    then show ?thesis by (blast intro: Wellfounded.acc.accI)
  qed
  then show ?thesis by (simp add: wf_iff_acc)
qed

end

lemma finite_spent_by [simp]: "finite (spent_by m)"
proof (rule finite_subset)
  show "spent_by m \<subseteq> fst ` set m \<times> fst ` set m" by (force simp: spent_by_def)
qed simp

text \<open>Without a cycle the pool is kept whole.\<close>

lemma acyclic_acc: "acyclic (spent_by m) \<Longrightarrow> k \<in> Wellfounded.acc (spent_by m)"
  using finite_acyclic_wf [of "spent_by m"] by (simp add: wf_iff_acc)

section \<open>The interface of a pool\<close>

text \<open>
  What the rest of the node relies on: \<open>lookup\<close> by hash after \<open>add\<close> and \<open>remove\<close>. Hashes with the same
  key are the same entry.
\<close>

locale txn_pool =
  fixes lookup :: "HashValue \<Rightarrow> 'p \<Rightarrow> Transaction option"
    and add :: "Transaction \<Rightarrow> 'p \<Rightarrow> 'p"
    and remove :: "HashValue \<Rightarrow> 'p \<Rightarrow> 'p"
    and valid :: "'p \<Rightarrow> bool"
    and hash :: "Transaction \<Rightarrow> HashValue"
  assumes lookup_add: "lookup h (add t p) = (if HashValue_Key h = HashValue_Key (hash t) then Some t else lookup h p)"
    and lookup_remove: "lookup h (remove h' p) = (if HashValue_Key h = HashValue_Key h' then None else lookup h p)"
    and valid_add: "valid p \<Longrightarrow> valid (add t p)"
    and valid_remove: "valid p \<Longrightarrow> valid (remove h p)"
    and lookup_valid: "valid p \<Longrightarrow> lookup h p = Some t \<Longrightarrow> HashValue_Key (hash t) = HashValue_Key h"
begin

lemma lookup_removes:
  "lookup h (fold (\<lambda>t. remove (hash t)) ts p) =
     (if \<exists>t \<in> set ts. HashValue_Key h = HashValue_Key (hash t) then None else lookup h p)"
  by (induction ts arbitrary: p) (auto simp: lookup_remove)

lemma valid_removes: "valid p \<Longrightarrow> valid (fold (\<lambda>t. remove (hash t)) ts p)"
  by (induction ts arbitrary: p) (auto simp: valid_remove)

end

lemma set_alist_update: "set (AList.update k v al) \<subseteq> insert (k, v) (set al)"
  by (induction al) auto

interpretation mempool: txn_pool GetTxn "AddTxn E" Mempool_Delete "pool_ok E" "Transaction_Hash E" for E :: "'z json_scheme"
proof
  show "pool_ok E (AddTxn E t p)" if "pool_ok E p" for t p
    using that set_alist_update [of "txn_key E t" t p]
    by (auto simp: pool_ok_def AddTxn_def distinct_update)
  show "pool_ok E (Mempool_Delete h p)" if "pool_ok E p" for h p
    using that by (auto simp: pool_ok_def Mempool_Delete_def AList.delete_eq distinct_map_filter)
  show "HashValue_Key (Transaction_Hash E t) = HashValue_Key h" if "pool_ok E p" "GetTxn h p = Some t" for p h t
    using that by (auto simp: pool_ok_def GetTxn_def txn_key_def)
qed (auto simp: GetTxn_def AddTxn_def Mempool_Delete_def AList.update_conv' AList.delete_conv' txn_key_def)

section \<open>Following an output\<close>

lemma expand_txn_memD:
  assumes "(out, h, i) \<in> set (expand_txn E e txn)"
  shows "h = Transaction_Hash E txn" and "0 \<le> i" and "i < int (length (Vout txn))" and "Vout txn ! nat i = out"
    and "PubKeyHash out = PubKeyHash (fst e)" and "HashValue_Key (fst (snd e)) \<in> spends txn"
  using assms
  by (auto simp: expand_txn_def in_set_enumerate_eq IsLockedWithKey_def HashValue_Equal_def spends_def
      split: if_splits)

context go_ranges
begin

lemma set_expand_round:
  "set (expand_round E m site outs) = (\<Union>e \<in> set outs. \<Union>(k, txn) \<in> set m. set (expand_txn E e txn))"
proof (induction outs arbitrary: site)
  case (Cons e outs)
  have "expand_round E m site (e # outs) =
      concat (map (\<lambda>(k, txn). expand_txn E e txn) (range_map E site m)) @ expand_round E m (Suc site) outs"
    by (simp add: expand_round_def)
  then show ?case by (simp add: Cons.IH case_prod_beta)
qed (simp add: expand_round_def)

text \<open>
  On a pool without cycles the loop returns, and its result has every property that the first outputs
  have and a round passes on.
\<close>

lemma expand_loop_correct:
  assumes ok: "pool_ok E m" and wf: "wf (spent_by m)"
    and keep: "\<And>e e' k txn. P e \<Longrightarrow> (k, txn) \<in> set m \<Longrightarrow> e' \<in> set (expand_txn E e txn) \<Longrightarrow> P e'"
    and outs: "outs \<noteq> []" "\<forall>e \<in> set outs. P e" "\<forall>e \<in> set outs. HashValue_Key (fst (snd e)) \<in> fst ` set m"
  shows "\<exists>res. expand_loop E m site outs = Some res \<and> res \<noteq> [] \<and> (\<forall>e \<in> set res. P e) \<and>
    (\<forall>e \<in> set res. \<forall>(k, txn) \<in> set m. expand_txn E e txn = [])"
proof -
  define r where "r = max_ext ((spent_by m)\<inverse>)"
  have "wf r"
    unfolding r_def using wf by (intro max_ext_wf finite_acyclic_wf_converse) (auto intro: wf_acyclic)
  then show ?thesis
    using outs
  proof (induction "(\<lambda>e. HashValue_Key (fst (snd e))) ` set outs" arbitrary: outs site rule: wf_induct_rule)
    case less
    define more where "more = expand_round E m site outs"
    have set_more: "set more = (\<Union>e \<in> set outs. \<Union>(k, txn) \<in> set m. set (expand_txn E e txn))"
      by (simp add: more_def set_expand_round)
    have step: "\<exists>e' \<in> set outs. (HashValue_Key (fst (snd e')), HashValue_Key (fst (snd e))) \<in> spent_by m"
      if mem: "e \<in> set more" for e
    proof -
      obtain e' k txn where e: "e' \<in> set outs" "(k, txn) \<in> set m" "e \<in> set (expand_txn E e' txn)"
        using mem by (fastforce simp: set_more)
      have "HashValue_Key (fst (snd e)) = k"
        using ok e(2) expand_txn_memD(1) [of "fst e" "fst (snd e)" "snd (snd e)" E e' txn] e(3)
        by (auto simp: pool_ok_def txn_key_def)
      moreover have "HashValue_Key (fst (snd e')) \<in> spends txn"
        using expand_txn_memD(6) [of "fst e" "fst (snd e)" "snd (snd e)" E e' txn] e(3) by simp
      ultimately show ?thesis using e(1,2) less.prems by (auto simp: spent_by_def)
    qed
    show ?case
    proof (cases "more = []")
      case True
      then have "\<forall>e \<in> set outs. \<forall>(k, txn) \<in> set m. expand_txn E e txn = []"
        using set_more by auto
      then show ?thesis using True less.prems by (subst expand_loop.simps) (simp add: more_def)
    next
      case False
      have "((\<lambda>e. HashValue_Key (fst (snd e))) ` set more, (\<lambda>e. HashValue_Key (fst (snd e))) ` set outs) \<in> r"
        using step False less.prems(1) by (auto simp: r_def max_ext.simps)
      moreover have "\<forall>e \<in> set more. HashValue_Key (fst (snd e)) \<in> fst ` set m"
        using step by (force simp: spent_by_def)
      moreover have "\<forall>e \<in> set more. P e"
        using less.prems(2) keep by (fastforce simp: set_more)
      ultimately show ?thesis
        using False less.hyps [of more "site + length outs"]
        by (subst expand_loop.simps) (simp add: more_def [symmetric])
    qed
  qed
qed

lemma ExpandTxnOutput_ok:
  assumes ok: "pool_ok E m" and wf: "wf (spent_by m)" and start: "P (out, hash, index)"
    and keep: "\<And>e e' k txn. P e \<Longrightarrow> (k, txn) \<in> set m \<Longrightarrow> e' \<in> set (expand_txn E e txn) \<Longrightarrow> P e'"
  shows "\<exists>res. ExpandTxnOutput E out hash index m = Ok res \<and> res \<noteq> [] \<and> (\<forall>e \<in> set res. P e) \<and>
    (\<forall>e \<in> set res. \<forall>(k, txn) \<in> set m. expand_txn E e txn = [])"
proof (cases "expand_round E m 10 [(out, hash, index)] = []")
  case True
  then have "\<forall>(k, txn) \<in> set m. expand_txn E (out, hash, index) txn = []"
    using set_expand_round [of m 10 "[(out, hash, index)]"] by auto
  then show ?thesis using True start by (simp add: ExpandTxnOutput_def expand_loop.simps [of E m 10])
next
  case False
  define more where "more = expand_round E m 10 [(out, hash, index)]"
  have set_more: "set more = (\<Union>(k, txn) \<in> set m. set (expand_txn E (out, hash, index) txn))"
    by (simp add: more_def set_expand_round)
  have "HashValue_Key (fst (snd e)) \<in> fst ` set m" if mem: "e \<in> set more" for e
  proof -
    obtain k txn where "(k, txn) \<in> set m" "e \<in> set (expand_txn E (out, hash, index) txn)"
      using mem by (fastforce simp: set_more)
    then show ?thesis
      using ok expand_txn_memD(1) [of "fst e" "fst (snd e)" "snd (snd e)" E "(out, hash, index)" txn]
      by (force simp: pool_ok_def txn_key_def)
  qed
  moreover have "\<forall>e \<in> set more. P e" using start keep by (fastforce simp: set_more)
  ultimately have "\<exists>res. expand_loop E m 11 more = Some res \<and> res \<noteq> [] \<and> (\<forall>e \<in> set res. P e) \<and>
      (\<forall>e \<in> set res. \<forall>(k, txn) \<in> set m. expand_txn E e txn = [])"
    using False keep by (intro expand_loop_correct [OF ok wf]) (auto simp: more_def)
  then show ?thesis
    using False by (simp add: ExpandTxnOutput_def expand_loop.simps [of E m 10] more_def)
qed

end

section \<open>Properties\<close>

text \<open>
  C11: \<^verbatim>\<open>GetTxns\<close> keeps exactly the pool transactions that do not depend on a cycle of the pool. It returns
  the first 50 of them or all if there are fewer, each once, and every pool transaction that a
  returned transaction spends is returned before it.
\<close>

theorem GetTxns_correct:
  assumes "go_ranges E" and "pool_ok E m" and "GetTxns E m = (ret, m')"
  shows "m' = filter (\<lambda>(k, txn). k \<in> Wellfounded.acc (spent_by m)) m \<and>
    length ret = min 50 (length m') \<and> distinct (map (txn_key E) ret) \<and> set ret \<subseteq> snd ` set m' \<and>
    (\<forall>i < length ret. \<forall>vin \<in> set (Vin (ret ! i)). HashValue_Key (VoutHash vin) \<in> fst ` set m \<longrightarrow>
      (\<exists>j < i. txn_key E (ret ! j) = HashValue_Key (VoutHash vin)))"
  using go_ranges.GetTxns_pool [OF assms] go_ranges.GetTxns_list [OF assms]
  by (auto simp: spends_def)

definition sample_parent :: Transaction where
  "sample_parent = \<lparr>Vin = [], Vout = [\<lparr>Value = 5, PubKeyHash = PublicKey_Hash ref_env [1]\<rparr>]\<rparr>"

definition sample_child :: Transaction where
  "sample_child = \<lparr>
     Vin = [\<lparr>VoutHash = Transaction_Hash ref_env sample_parent, VoutIndex = 0, VoutValue = 5, Signature = [], PubKey = [1]\<rparr>],
     Vout = [\<lparr>Value = 5, PubKeyHash = []\<rparr>]\<rparr>"

lemma sample_pool_ok: "pool_ok ref_env (AddTxn ref_env t (AddTxn ref_env t' []))"
  by (intro mempool.valid_add) (simp add: pool_ok_def)

theorem GetTxns_correct_witness:
  "distinct (map (txn_key ref_env) (fst (GetTxns ref_env (AddTxn ref_env sample_child (AddTxn ref_env sample_parent [])))))"
  using GetTxns_correct [OF ref_ranges.go_ranges_axioms sample_pool_ok prod.collapse [symmetric]] by blast

text \<open>
  When no pool transaction depends on itself \<^verbatim>\<open>GetTxns\<close> removes nothing, and a pool of at most 50
  transactions is returned whole.
\<close>

lemma GetTxns_acyclic:
  assumes "go_ranges E" and "pool_ok E m" and "acyclic (spent_by m)"
  shows "snd (GetTxns E m) = m \<and> (length m \<le> 50 \<longrightarrow> mset (fst (GetTxns E m)) = mset (map snd m))"
proof -
  obtain ret m' where r: "GetTxns E m = (ret, m')" by fastforce
  have m': "m' = m"
    using go_ranges.GetTxns_pool [OF assms(1,2) r] acyclic_acc [OF assms(3)] by (simp add: case_prod_beta)
  note l = go_ranges.GetTxns_list [OF assms(1,2) r, unfolded m']
  have "mset ret = mset (map snd m)" if "length m \<le> 50"
  proof -
    have "distinct ret" using l(2) by (simp add: distinct_map)
    moreover have "map (txn_key E) (map snd m) = map fst m" using assms(2) by (auto simp: pool_ok_def)
    then have "distinct (map (txn_key E) (map snd m))" using assms(2) by (simp only: pool_ok_def)
    then have "distinct (map snd m)" unfolding distinct_map [of "txn_key E"] by blast
    moreover from calculation have "set ret = set (map snd m)"
      using l(1,3) that distinct_card [of ret] distinct_card [of "map snd m"] by (intro card_subset_eq) auto
    ultimately show ?thesis using set_eq_iff_mset_eq_distinct by blast
  qed
  with r m' show ?thesis by simp
qed

text \<open>
  C27: in a pool from which \<^verbatim>\<open>GetTxns\<close> has removed the cycles, \<^verbatim>\<open>ExpandTxnOutput\<close> returns. Its result is not
  empty and holds only outputs of the owner of the given one: that output itself or outputs of pool
  transactions under their hash and index. None of them is passed on to its owner by a
  pool transaction.
\<close>

theorem ExpandTxnOutput_correct:
  assumes "go_ranges E" and "pool_ok E m" and "GetTxns E m = (ret, m')"
  shows "\<exists>res. ExpandTxnOutput E out hash index m' = Ok res \<and> res \<noteq> [] \<and>
    (\<forall>(txo, h, i) \<in> set res. PubKeyHash txo = PubKeyHash out \<and>
      ((txo, h, i) = (out, hash, index) \<or>
       (\<exists>(k, txn) \<in> set m'. h = Transaction_Hash E txn \<and> oindex (Vout txn) i = Ok txo))) \<and>
    (\<forall>e \<in> set res. \<forall>(k, txn) \<in> set m'. expand_txn E e txn = [])"
proof -
  have m': "m' = filter (\<lambda>(k, txn). k \<in> Wellfounded.acc (spent_by m)) m"
    by (rule go_ranges.GetTxns_pool [OF assms])
  have ok: "pool_ok E m'" by (rule go_ranges.GetTxns_valid [OF assms])
  define P where "P = (\<lambda>(txo, h, i). PubKeyHash txo = PubKeyHash out \<and> ((txo, h, i) = (out, hash, index) \<or>
      (\<exists>(k, txn) \<in> set m'. h = Transaction_Hash E txn \<and> oindex (Vout txn) i = Ok txo)))"
  have keep: "P e'" if "P e" "(k, txn) \<in> set m'" "e' \<in> set (expand_txn E e txn)" for e e' k txn
    using that expand_txn_memD [of "fst e'" "fst (snd e')" "snd (snd e')" E e txn]
    by (auto simp: P_def oindex_Ok_iff split: prod.splits)
  have "P (out, hash, index)" by (simp add: P_def)
  from go_ranges.ExpandTxnOutput_ok [OF assms(1) ok go_ranges.GetTxns_wf [OF assms], of P, OF this keep]
  show ?thesis by (simp only: P_def)
qed

theorem ExpandTxnOutput_correct_witness:
  "\<exists>res. ExpandTxnOutput ref_env (Vout sample_parent ! 0) [7] 0
     (snd (GetTxns ref_env (AddTxn ref_env sample_child (AddTxn ref_env sample_parent [])))) = Ok res \<and> res \<noteq> []"
  using ExpandTxnOutput_correct [OF ref_ranges.go_ranges_axioms sample_pool_ok prod.collapse [symmetric]] by blast

text \<open>
  An output that pool transactions spend without giving anything back to its owner is returned as
  if it were free: \<^verbatim>\<open>ExpandTxnOutput\<close> leaves the loop with the outputs of the last round, spent or not.
\<close>

lemma ExpandTxnOutput_spent:
  assumes "go_ranges E"
    and "\<forall>(k, txn) \<in> set m. \<forall>vin \<in> set (Vin txn). \<forall>txo \<in> set (Vout txn). \<not> IsLockedWithKey E txo (PubKey vin)"
  shows "ExpandTxnOutput E out hash index m = Ok [(out, hash, index)]"
proof -
  have "expand_txn E (out, hash, index) txn = []" if "(k, txn) \<in> set m" for k txn
    using assms(2) that by (fastforce simp: expand_txn_def in_set_enumerate_eq filter_empty_conv dest: nth_mem)
  then have "set (expand_round E m 10 [(out, hash, index)]) = {}"
    using go_ranges.set_expand_round [OF assms(1), of m 10 "[(out, hash, index)]"] by (auto simp: case_prod_beta)
  then show ?thesis by (simp add: ExpandTxnOutput_def expand_loop.simps [of E m 10])
qed

end
