(* ===== verification/Node_State.thy ===== *)
theory Node_State
  imports Mempool
begin

text \<open>
  The state of a node that the packages \<^verbatim>\<open>core\<close> and \<^verbatim>\<open>api\<close> share, and the access functions around it: the
  buckets of every group, the memory pools, the cached heights with their \<^verbatim>\<open>sync.Once\<close> flags, decoding of
  stored values (\<^verbatim>\<open>core/block.go\<close>, \<^verbatim>\<open>core/transaction.go\<close>, \<^verbatim>\<open>core/transaction_output.go\<close>), and
  \<^verbatim>\<open>GetMempool\<close>. A pool that \<^verbatim>\<open>GetMempool\<close> has not made yet is empty; reading a height that was never
  cached gives 0. Mutexes are taken and released inside one operation and are not part of the state.
\<close>

record 'k node =
  node_dbs :: "'k dbs"
  onceGetHeight :: "int \<Rightarrow> bool"
  cacheHeight :: "int \<Rightarrow> int"
  onceBlockheadGetHeight :: "int \<Rightarrow> bool"
  cacheBlockheadHeight :: "int \<Rightarrow> int"
  mempools :: "int \<Rightarrow> pool"

section \<open>Buckets\<close>

text \<open>The database handles of \<^verbatim>\<open>global/inherit_db.go\<close>: each names the bolt buckets of one kind of data.\<close>

abbreviation Blocks :: string where
  "Blocks \<equiv> ''Blocks''"

abbreviation Blockheads :: string where
  "Blockheads \<equiv> ''Blockheads''"

abbreviation UTXOs :: string where
  "UTXOs \<equiv> ''UTXOSet''"

abbreviation Txns_db :: string where
  "Txns_db \<equiv> ''Txns''"

abbreviation lastest_key :: key where
  "lastest_key \<equiv> KString ''lastest''"

definition node_Get :: "('k, 'z) env_scheme \<Rightarrow> string \<Rightarrow> int \<Rightarrow> key \<Rightarrow> 'k node \<Rightarrow> bytes option" where
  "node_Get E name g key s = db_Get E name g key (node_dbs s)"

definition node_Set :: "('k, 'z) env_scheme \<Rightarrow> string \<Rightarrow> int \<Rightarrow> key \<Rightarrow> bytes \<Rightarrow> 'k node \<Rightarrow> 'k node outcome" where
  "node_Set E name g key val s = obind (db_Set E name g key val (node_dbs s)) (\<lambda>db. Ok (s\<lparr>node_dbs := db\<rparr>))"

definition node_Delete :: "('k, 'z) env_scheme \<Rightarrow> string \<Rightarrow> int \<Rightarrow> key \<Rightarrow> 'k node \<Rightarrow> 'k node outcome" where
  "node_Delete E name g key s = obind (db_Delete E name g key (node_dbs s)) (\<lambda>db. Ok (s\<lparr>node_dbs := db\<rparr>))"

definition node_Clear :: "('k, 'z) env_scheme \<Rightarrow> string \<Rightarrow> int \<Rightarrow> 'k node \<Rightarrow> 'k node" where
  "node_Clear E name g s = s\<lparr>node_dbs := db_Clear E name g (node_dbs s)\<rparr>"

section \<open>Decoding of stored values\<close>

text \<open>
  \<^verbatim>\<open>BytesToBlock\<close> does not return for bytes that cannot be decoded: \<^verbatim>\<open>PrintStack\<close> leaves \<^verbatim>\<open>prefixMutex\<close> locked (see \<open>Logging\<close>), and
  \<^verbatim>\<open>log.Err\<close> then waits for it. The other two functions print the stack too, but return what was decoded; there the first log line
  after them would wait, which is not visible in their results.
\<close>

definition BytesToBlock :: "'z json_scheme \<Rightarrow> bytes option \<Rightarrow> Block option outcome" where
  "BytesToBlock E bytes =
     (case bytes of None \<Rightarrow> Ok None
      | Some b \<Rightarrow> (case unmarshal_block E b of (block, err) \<Rightarrow> if err then Hang else Ok (Some block)))"

definition BytesToTransaction :: "'z json_scheme \<Rightarrow> bytes \<Rightarrow> Transaction" where
  "BytesToTransaction E bytes = fst (unmarshal_txn E bytes)"

definition BytesToTxnOutputs :: "'z json_scheme \<Rightarrow> bytes \<Rightarrow> TxnOutput list" where
  "BytesToTxnOutputs E bytes = fst (unmarshal_outs E bytes)"

section \<open>Groups and pools\<close>

definition group_mod :: "('k, 'z) env_scheme \<Rightarrow> int \<Rightarrow> int outcome" where
  "group_mod E g = (if MaxGroupNum E = 0 then Panic else Ok (gomod g (MaxGroupNum E)))"

definition GetGroup :: "('k, 'z) env_scheme \<Rightarrow> int outcome" where
  "GetGroup E = GetGroupByAddress (MaxGroupNum E) (Address E)"

text \<open>
  The functions of \<^verbatim>\<open>mempool/global.go\<close>: \<^verbatim>\<open>GetMempool\<close>, the operation, \<^verbatim>\<open>Release\<close>.
\<close>

definition with_mempool ::
  "('k, 'z) env_scheme \<Rightarrow> int \<Rightarrow> (pool \<Rightarrow> ('a \<times> pool) outcome) \<Rightarrow> 'k node \<Rightarrow> ('a \<times> 'k node) outcome" where
  "with_mempool E g f s =
     obind (group_mod E g) (\<lambda>mg.
     obind (f (mempools s mg)) (\<lambda>(x, m). Ok (x, s\<lparr>mempools := (mempools s)(mg := m)\<rparr>)))"

definition mempool_AddTxn :: "('k, 'z) env_scheme \<Rightarrow> int \<Rightarrow> Transaction \<Rightarrow> 'k node \<Rightarrow> 'k node outcome" where
  "mempool_AddTxn E g txn s = obind (with_mempool E g (\<lambda>m. Ok ((), AddTxn E txn m)) s) (\<lambda>(_, s). Ok s)"

definition mempool_GetMempoolSize :: "('k, 'z) env_scheme \<Rightarrow> int \<Rightarrow> 'k node \<Rightarrow> (nat \<times> 'k node) outcome" where
  "mempool_GetMempoolSize E g s = with_mempool E g (\<lambda>m. Ok (GetMempoolSize m, m)) s"

definition mempool_GetTxn :: "('k, 'z) env_scheme \<Rightarrow> int \<Rightarrow> HashValue \<Rightarrow> 'k node \<Rightarrow> (Transaction option \<times> 'k node) outcome" where
  "mempool_GetTxn E g hash s = with_mempool E g (\<lambda>m. Ok (GetTxn hash m, m)) s"

definition mempool_GetTxns :: "('k, 'z) env_scheme \<Rightarrow> int \<Rightarrow> 'k node \<Rightarrow> (Transaction list \<times> 'k node) outcome" where
  "mempool_GetTxns E g s = with_mempool E g (\<lambda>m. Ok (GetTxns E m)) s"

definition mempool_ExpandTxnOutput ::
  "('k, 'z) env_scheme \<Rightarrow> int \<Rightarrow> TxnOutput \<Rightarrow> HashValue \<Rightarrow> int \<Rightarrow> 'k node \<Rightarrow> (expanded list \<times> 'k node) outcome" where
  "mempool_ExpandTxnOutput E g out hash index s =
     with_mempool E g (\<lambda>m. obind (ExpandTxnOutput E out hash index m) (\<lambda>r. Ok (r, m))) s"

section \<open>Shared facts\<close>

lemma node_Get_frame:
  assumes "same_elsewhere name g (node_dbs s) (node_dbs s')" and "(name', g') \<noteq> (name, g)"
  shows "node_Get E name' g' k s' = node_Get E name' g' k s"
  using same_elsewhere_Get [OF assms, of E k] by (simp add: node_Get_def)

lemma node_Set_eq_Ok:
  "node_Set E name g k v s = Ok s' \<longleftrightarrow> (\<exists>db. db_Set E name g k v (node_dbs s) = Ok db \<and> s' = s\<lparr>node_dbs := db\<rparr>)"
  by (auto simp: node_Set_def)

lemma same_mempools [simp]: "s\<lparr>mempools := (mempools s)(g := mempools s g)\<rparr> = (s :: 'k node)"
  by simp

text \<open>Reading a pool changes nothing.\<close>

lemma mempool_GetTxn_eq:
  "mempool_GetTxn E g hash s = obind (group_mod E g) (\<lambda>mg. Ok (GetTxn hash (mempools s mg), s))"
  by (simp add: mempool_GetTxn_def with_mempool_def)

context bolt_store
begin

lemma node_Set_ok:
  assumes "interfaceToBytes k \<noteq> []"
  shows "\<exists>db. node_Set E name g k v s = Ok (s\<lparr>node_dbs := db\<rparr>)"
  using bucket.Set_ok [OF assms, of name g v "node_dbs s"] by (auto simp: node_Set_def)

lemma node_Get_Set:
  assumes "node_Set E name g k v s = Ok s'"
  shows "node_Get E name' g' k' s' =
    (if name' = name \<and> g' = g \<and> interfaceToBytes k' = interfaceToBytes k then Some v else node_Get E name' g' k' s)"
proof -
  obtain db where db: "db_Set E name g k v (node_dbs s) = Ok db" "s' = s\<lparr>node_dbs := db\<rparr>"
    using assms by (auto simp: node_Set_eq_Ok)
  then show ?thesis
    using db_Get_Set [OF db(1), of k'] same_elsewhere_Get [OF db_frames(2) [OF db(1)], of name' g' E k']
    by (cases "(name', g') = (name, g)") (auto simp: node_Get_def)
qed

lemma node_Get_Delete:
  assumes "node_Delete E name g k s = Ok s'"
  shows "node_Get E name' g' k' s' =
    (if name' = name \<and> g' = g \<and> interfaceToBytes k' = interfaceToBytes k then None else node_Get E name' g' k' s)"
proof -
  obtain db where db: "db_Delete E name g k (node_dbs s) = Ok db" "s' = s\<lparr>node_dbs := db\<rparr>"
    using assms by (auto simp: node_Delete_def)
  moreover from db(1) have "node_dbs s name g \<noteq> None" by (auto simp: db_Delete_def split: option.splits)
  ultimately show ?thesis
    using db_Get_Delete [OF _ db(1), of k'] same_elsewhere_Get [OF db_frames(3) [OF db(1)], of name' g' E k']
    by (cases "(name', g') = (name, g)") (auto simp: node_Get_def)
qed

end

end
