(* ===== verification/Blockchain.thy ===== *)
theory Blockchain
  imports Node_State
begin

text \<open>
  \<^verbatim>\<open>core/blockhead.go\<close> and \<^verbatim>\<open>core/blockchain.go\<close>: the stored chain of a group. A block is stored under its
  hash, its hash under its height, the newest block under \<^verbatim>\<open>"lastest"\<close>, and every transaction under its
  hash; \<open>g\<close> is the field \<^verbatim>\<open>group\<close> of the receiver. A nil block is \<open>None\<close>.
\<close>

section \<open>Heads of blocks\<close>

definition Blockhead_GetLastest :: "('k, 'z) env_scheme \<Rightarrow> int \<Rightarrow> 'k node \<Rightarrow> Block option outcome" where
  "Blockhead_GetLastest E g s = BytesToBlock E (node_Get E Blockheads g lastest_key s)"

definition Blockhead_GetHeight :: "('k, 'z) env_scheme \<Rightarrow> int \<Rightarrow> 'k node \<Rightarrow> (int \<times> 'k node) outcome" where
  "Blockhead_GetHeight E g s =
     obind (if onceBlockheadGetHeight s g then Ok s
            else obind (Blockhead_GetLastest E g s) (\<lambda>lastest.
              Ok (s\<lparr>onceBlockheadGetHeight := (onceBlockheadGetHeight s)(g := True),
                    cacheBlockheadHeight := (cacheBlockheadHeight s)(g :=
                      (case lastest of None \<Rightarrow> -1 | Some b \<Rightarrow> Height b))\<rparr>)))
       (\<lambda>s. Ok (cacheBlockheadHeight s g, s))"

text \<open>The guards are evaluated from left to right and stop at the first that holds.\<close>

definition AddBlockhead :: "('k, 'z) env_scheme \<Rightarrow> int \<Rightarrow> Block option \<Rightarrow> 'k node \<Rightarrow> (bool \<times> 'k node) outcome" where
  "AddBlockhead E g block s =
     (case block of None \<Rightarrow> Ok (False, s)
      | Some b \<Rightarrow>
          if node_Get E Blockheads g (KInt32 (Height b)) s \<noteq> None then Ok (False, s)
          else obind (Block_Verify E b) (\<lambda>verified.
            if \<not> verified then Ok (False, s)
            else obind (Blockhead_GetHeight E g s) (\<lambda>(h, s).
              if i32 (h + 1) \<noteq> Height b then Ok (False, s)
              else obind (Encode (marshal_block E (b\<lparr>Txns := []\<rparr>))) (\<lambda>bytes.
                   obind (node_Set E Blockheads g (KInt32 (Height b)) bytes
                     (s\<lparr>cacheBlockheadHeight := (cacheBlockheadHeight s)(g := Height b)\<rparr>)) (\<lambda>s.
                   obind (node_Set E Blockheads g lastest_key bytes s) (\<lambda>s. Ok (True, s)))))))"

definition GetBlockheadByHeight :: "('k, 'z) env_scheme \<Rightarrow> int \<Rightarrow> int \<Rightarrow> 'k node \<Rightarrow> Block option outcome" where
  "GetBlockheadByHeight E g height s = BytesToBlock E (node_Get E Blockheads g (KInt32 height) s)"

section \<open>Reading the chain\<close>

definition GetBlockchain :: "('k, 'z) env_scheme \<Rightarrow> int \<Rightarrow> int outcome" where
  "GetBlockchain E g = group_mod E g"

definition GetLastest :: "('k, 'z) env_scheme \<Rightarrow> int \<Rightarrow> 'k node \<Rightarrow> Block option outcome" where
  "GetLastest E g s = BytesToBlock E (node_Get E Blocks g lastest_key s)"

definition GetBlockByHash :: "('k, 'z) env_scheme \<Rightarrow> int \<Rightarrow> HashValue \<Rightarrow> 'k node \<Rightarrow> Block option outcome" where
  "GetBlockByHash E g hash s = BytesToBlock E (node_Get E Blocks g (KBytes hash) s)"

text \<open>
  A missing height gives a nil hash, which is looked up as the empty key. The source repeats a read that
  gave nil; the repetition reads the same state.
\<close>

definition block_at :: "('k, 'z) env_scheme \<Rightarrow> int \<Rightarrow> key \<Rightarrow> 'k node \<Rightarrow> Block option outcome" where
  "block_at E g key s =
     (let hash = (case node_Get E Blocks g key s of None \<Rightarrow> [] | Some h \<Rightarrow> h)
      in BytesToBlock E (node_Get E Blocks g (KBytes hash) s))"

definition GetGenesis :: "('k, 'z) env_scheme \<Rightarrow> int \<Rightarrow> 'k node \<Rightarrow> Block option outcome" where
  "GetGenesis E g s = block_at E g (KInt 0) s"

definition GetBlockByHeight :: "('k, 'z) env_scheme \<Rightarrow> int \<Rightarrow> int \<Rightarrow> 'k node \<Rightarrow> Block option outcome" where
  "GetBlockByHeight E g height s = block_at E g (KInt32 height) s"

definition SetBlockByHeight :: "('k, 'z) env_scheme \<Rightarrow> int \<Rightarrow> int \<Rightarrow> Block \<Rightarrow> 'k node \<Rightarrow> 'k node outcome" where
  "SetBlockByHeight E g height b s =
     obind (Block_Hash E b) (\<lambda>hash. node_Set E Blocks g (KInt height) hash s)"

text \<open>\<^verbatim>\<open>SetLastest\<close> reads a field of the block, so a nil block panics.\<close>

definition SetLastest :: "('k, 'z) env_scheme \<Rightarrow> int \<Rightarrow> Block option \<Rightarrow> 'k node \<Rightarrow> 'k node outcome" where
  "SetLastest E g block s =
     (case block of None \<Rightarrow> Panic
      | Some b \<Rightarrow>
          obind (Encode (marshal_block E b)) (\<lambda>bytes.
          obind (node_Set E Blocks g lastest_key bytes s) (\<lambda>s.
            Ok (s\<lparr>cacheHeight := (cacheHeight s)(g := Height b)\<rparr>))))"

definition GetHeight :: "('k, 'z) env_scheme \<Rightarrow> int \<Rightarrow> 'k node \<Rightarrow> (int \<times> 'k node) outcome" where
  "GetHeight E g s =
     obind (if onceGetHeight s g then Ok s
            else obind (GetLastest E g s) (\<lambda>lastest.
              Ok (s\<lparr>onceGetHeight := (onceGetHeight s)(g := True),
                    cacheHeight := (cacheHeight s)(g := (case lastest of None \<Rightarrow> -1 | Some b \<Rightarrow> Height b))\<rparr>)))
       (\<lambda>s. Ok (cacheHeight s g, s))"

text \<open>\<^verbatim>\<open>Begin\<close> and \<^verbatim>\<open>Next\<close>: the blocks from the newest back to the first whose predecessor is not stored.\<close>

partial_function (option) iterate_blocks ::
  "('k, 'z) env_scheme \<Rightarrow> int \<Rightarrow> 'k node \<Rightarrow> HashValue \<Rightarrow> Block list outcome option" where
  "iterate_blocks E g s hash =
     (if hash = [] then Some (Ok [])
      else case BytesToBlock E (node_Get E Blocks g (KBytes hash) s) of
             Ok (Some b) \<Rightarrow> Option.bind (iterate_blocks E g s (PrevHash b)) (\<lambda>r. Some (obind r (\<lambda>bs. Ok (b # bs))))
           | Ok None \<Rightarrow> Some (Ok [])
           | Exit \<Rightarrow> Some Exit | Panic \<Rightarrow> Some Panic | Hang \<Rightarrow> Some Hang)"

definition chain_blocks :: "('k, 'z) env_scheme \<Rightarrow> int \<Rightarrow> 'k node \<Rightarrow> Block list outcome" where
  "chain_blocks E g s =
     obind (GetLastest E g s) (\<lambda>lastest.
       case lastest of None \<Rightarrow> Panic
       | Some b \<Rightarrow> obind (Block_Hash E b) (\<lambda>hash. obind (returns (iterate_blocks E g s hash)) id))"

definition FindTxn :: "('k, 'z) env_scheme \<Rightarrow> int \<Rightarrow> HashValue \<Rightarrow> 'k node \<Rightarrow> Transaction option" where
  "FindTxn E g hash s =
     (case node_Get E Txns_db g (KBytes hash) s of None \<Rightarrow> None
      | Some b \<Rightarrow> if b = [] then None else Some (BytesToTransaction E b))"

section \<open>Changing the chain\<close>

definition txn_index_put :: "('k, 'z) env_scheme \<Rightarrow> int \<Rightarrow> Transaction \<Rightarrow> 'k node \<Rightarrow> 'k node outcome" where
  "txn_index_put E g txn s = node_Set E Txns_db g (KBytes (Transaction_Hash E txn)) (marshal_txn E txn) s"

definition TxnReindex :: "('k, 'z) env_scheme \<Rightarrow> int \<Rightarrow> 'k node \<Rightarrow> 'k node outcome" where
  "TxnReindex E g s =
     (let s = node_Clear E Txns_db g s
      in obind (chain_blocks E g s) (\<lambda>blocks. ofold (txn_index_put E g) (concat (map Txns blocks)) s))"

text \<open>
  The closure \<^verbatim>\<open>verify\<close> of \<^verbatim>\<open>AddBlock\<close>: every input comes from an indexed transaction or, recursively, from
  the pool. \<open>verify_vins\<close> is its loop.
\<close>

partial_function (option) verify_vins ::
  "('k, 'z) env_scheme \<Rightarrow> int \<Rightarrow> 'k node \<Rightarrow> pool \<Rightarrow> TxnInput list \<Rightarrow> bool option" where
  "verify_vins E g s m vins =
     (case vins of [] \<Rightarrow> Some True
      | vin # vins \<Rightarrow>
          if FindTxn E g (VoutHash vin) s \<noteq> None then verify_vins E g s m vins
          else case GetTxn (VoutHash vin) m of
                 None \<Rightarrow> Some False
               | Some t \<Rightarrow> Option.bind (verify_vins E g s m (Vin t))
                   (\<lambda>ok. if \<not> ok then Some False else verify_vins E g s m vins))"

definition drop_unverified :: "('k, 'z) env_scheme \<Rightarrow> int \<Rightarrow> 'k node \<Rightarrow> Transaction \<Rightarrow> pool \<Rightarrow> pool outcome" where
  "drop_unverified E g s txn m =
     obind (returns (verify_vins E g s m (Vin txn)))
       (\<lambda>ok. Ok (if ok then m else Mempool_Delete (Transaction_Hash E txn) m))"

definition AddBlock :: "('k, 'z) env_scheme \<Rightarrow> int \<Rightarrow> Block option \<Rightarrow> 'k node \<Rightarrow> 'k node outcome" where
  "AddBlock E g block s =
     (case block of None \<Rightarrow> Ok s
      | Some b \<Rightarrow>
          obind (GetHeight E g s) (\<lambda>(h, s).
          if i32 (h + 1) \<noteq> Height b then Ok s
          else obind (Encode (marshal_block E b)) (\<lambda>bytes.
               obind (SetLastest E g (Some b) s) (\<lambda>s.
               obind (Block_Hash E b) (\<lambda>hash.
               obind (node_Set E Blocks g (KBytes hash) bytes s) (\<lambda>s.
               obind (node_Set E Blocks g (KInt32 (Height b)) hash s) (\<lambda>s.
               obind (AddBlockhead E g (Some b) s) (\<lambda>(_, s).
               obind (ofold (txn_index_put E g) (Txns b) s) (\<lambda>s.
               obind (with_mempool E (Group b) (\<lambda>m.
                 let m = fold (\<lambda>txn. Mempool_Delete (Transaction_Hash E txn)) (Txns b) m;
                     (txns, m) = GetTxns E m
                 in obind (ofold (drop_unverified E g s) txns m) (\<lambda>m. Ok ((), m))) s) (\<lambda>(_, s). Ok s))))))))))"

definition DeleteBlock :: "('k, 'z) env_scheme \<Rightarrow> int \<Rightarrow> Block \<Rightarrow> 'k node \<Rightarrow> 'k node outcome" where
  "DeleteBlock E g b s =
     obind (Block_Hash E b) (\<lambda>hash.
     obind (node_Delete E Blocks g (KBytes hash) s) (\<lambda>s.
     obind (node_Delete E Blocks g (KInt32 (Height b)) s) (\<lambda>s.
     obind (node_Delete E Blockheads g (KInt32 (Height b)) s) (\<lambda>s.
       ofold (\<lambda>txn. node_Delete E Txns_db g (KBytes (Transaction_Hash E txn))) (Txns b) s))))"

section \<open>Signing and verifying with the stored transactions\<close>

text \<open>
  The loop that \<^verbatim>\<open>SignTransaction\<close> and \<^verbatim>\<open>VerifyTransaction\<close> share: the transactions spent, by the text of their
  hash; \<open>Inr\<close> is the hash that neither the chain nor the pool has.
\<close>

fun collect_prevs ::
  "('k, 'z) env_scheme \<Rightarrow> int \<Rightarrow> TxnInput list \<Rightarrow> (bytes \<rightharpoonup> Transaction) \<Rightarrow> 'k node \<Rightarrow>
   ((bytes \<rightharpoonup> Transaction) + HashValue) outcome" where
  "collect_prevs E g [] prevs s = Ok (Inl prevs)"
| "collect_prevs E g (vin # vins) prevs s =
     (case FindTxn E g (VoutHash vin) s of
        Some t \<Rightarrow> collect_prevs E g vins (prevs(HashValue_String (Transaction_Hash E t) \<mapsto> t)) s
      | None \<Rightarrow>
          obind (mempool_GetTxn E g (VoutHash vin) s) (\<lambda>(found, _).
            case found of
              None \<Rightarrow> Ok (Inr (VoutHash vin))
            | Some t \<Rightarrow> collect_prevs E g vins (prevs(HashValue_String (Transaction_Hash E t) \<mapsto> t)) s))"

datatype txn_error = NotFound HashValue | SignFailed | VerifyFalse

definition SignTransaction ::
  "('k, 'z) env_scheme \<Rightarrow> int \<Rightarrow> PrivateKey \<Rightarrow> (nat \<Rightarrow> nat) \<Rightarrow> Transaction \<Rightarrow> 'k node \<Rightarrow>
   (Transaction \<times> txn_error option) outcome" where
  "SignTransaction E g sk rnd txn s =
     obind (collect_prevs E g (Vin txn) Map.empty s) (\<lambda>r.
       case r of Inr h \<Rightarrow> Ok (txn, Some (NotFound h))
       | Inl hashedTxn \<Rightarrow>
           obind (Transaction_Sign E sk rnd hashedTxn txn) (\<lambda>(txn, err). Ok (txn, if err then Some SignFailed else None)))"

definition VerifyTransaction ::
  "('k, 'z) env_scheme \<Rightarrow> int \<Rightarrow> Transaction \<Rightarrow> 'k node \<Rightarrow> txn_error option outcome" where
  "VerifyTransaction E g txn s =
     (if IsCoinbase txn then Ok None
      else obind (collect_prevs E g (Vin txn) Map.empty s) (\<lambda>r.
        case r of Inr h \<Rightarrow> Ok (Some (NotFound h))
        | Inl prevTxns \<Rightarrow>
            obind (Transaction_Verify E prevTxns txn) (\<lambda>ok. Ok (if ok then None else Some VerifyFalse))))"

end
