(* ===== verification/Chain_Invariant.thy ===== *)
theory Chain_Invariant
  imports Blockchain
begin

text \<open>
  The invariant of a stored chain and the operations of \<open>Blockchain\<close> against it. \<open>chain_ok E g bs s\<close>
  says that the state \<open>s\<close> stores for group \<open>g\<close> exactly the chain \<open>bs\<close>, oldest block first.
  \<open>node_env\<close> collects what the node relies on outside its own code.
\<close>

section \<open>The environment's contract\<close>

locale node_env =
  bolt_store E + json_codec E + digests E + go_ranges E for E :: "('k, 'z) env_scheme" +
  assumes MaxGroupNum_pos: "0 < MaxGroupNum E"

interpretation ref_node: node_env ref_env
  by unfold_locales simp_all

section \<open>A stored chain\<close>

fun linked :: "'z json_scheme \<Rightarrow> HashValue \<Rightarrow> Block list \<Rightarrow> bool" where
  "linked E prev [] \<longleftrightarrow> True"
| "linked E prev (b # bs) \<longleftrightarrow> PrevHash b = prev \<and> (\<exists>h. Block_Hash E b = Ok h \<and> linked E h bs)"

fun tip_hash :: "'z json_scheme \<Rightarrow> HashValue \<Rightarrow> Block list \<Rightarrow> HashValue" where
  "tip_hash E prev [] = prev"
| "tip_hash E prev (b # bs) = tip_hash E (case Block_Hash E b of Ok h \<Rightarrow> h | _ \<Rightarrow> []) bs"

definition block_stored :: "('k, 'z) env_scheme \<Rightarrow> int \<Rightarrow> Block \<Rightarrow> 'k node \<Rightarrow> bool" where
  "block_stored E g b s \<longleftrightarrow>
     (\<exists>hash bytes. Block_Hash E b = Ok hash \<and> marshal_block E b = Some bytes \<and>
        node_Get E Blocks g (KBytes hash) s = Some bytes \<and>
        node_Get E Blocks g (KInt32 (Height b)) s = Some hash)"

definition lastest_stored :: "('k, 'z) env_scheme \<Rightarrow> int \<Rightarrow> Block list \<Rightarrow> 'k node \<Rightarrow> bool" where
  "lastest_stored E g bs s \<longleftrightarrow>
     node_Get E Blocks g lastest_key s = (if bs = [] then None else marshal_block E (last bs))"

definition chain_ok :: "('k, 'z) env_scheme \<Rightarrow> int \<Rightarrow> Block list \<Rightarrow> 'k node \<Rightarrow> bool" where
  "chain_ok E g bs s \<longleftrightarrow>
     length bs \<le> 2 ^ 24 \<and> (\<forall>i < length bs. Height (bs ! i) = int i) \<and> linked E [] bs \<and>
     (\<forall>b \<in> set bs. block_stored E g b s) \<and> lastest_stored E g bs s \<and>
     (\<forall>h. int (length bs) \<le> h \<longrightarrow> h < 2 ^ 24 \<longrightarrow> node_Get E Blocks g (KInt32 h) s = None) \<and>
     (onceGetHeight s g \<longrightarrow> cacheHeight s g = int (length bs) - 1)"

lemma linked_append:
  "linked E prev (bs @ [b]) \<longleftrightarrow> linked E prev bs \<and> PrevHash b = tip_hash E prev bs \<and> (\<exists>h. Block_Hash E b = Ok h)"
  by (induction bs arbitrary: prev) auto

text \<open>What a state keeps of the stored chain.\<close>

definition same_blocks :: "('k, 'z) env_scheme \<Rightarrow> int \<Rightarrow> 'k node \<Rightarrow> 'k node \<Rightarrow> bool" where
  "same_blocks E g s s' \<longleftrightarrow>
     (\<forall>k. node_Get E Blocks g k s' = node_Get E Blocks g k s) \<and>
     cacheHeight s' = cacheHeight s \<and> onceGetHeight s' = onceGetHeight s"

lemma same_blocks_refl [simp]: "same_blocks E g s s"
  by (simp add: same_blocks_def)

lemma same_blocks_trans: "same_blocks E g s t \<Longrightarrow> same_blocks E g t u \<Longrightarrow> same_blocks E g s u"
  by (simp add: same_blocks_def)

lemma chain_ok_same_blocks: "same_blocks E g s s' \<Longrightarrow> chain_ok E g bs s' = chain_ok E g bs s"
  by (simp add: same_blocks_def chain_ok_def block_stored_def lastest_stored_def)

lemma node_Get_simps [simp]:
  "node_Get E name g k (s\<lparr>onceGetHeight := a\<rparr>) = node_Get E name g k s"
  "node_Get E name g k (s\<lparr>cacheHeight := c\<rparr>) = node_Get E name g k s"
  "node_Get E name g k (s\<lparr>onceBlockheadGetHeight := a\<rparr>) = node_Get E name g k s"
  "node_Get E name g k (s\<lparr>cacheBlockheadHeight := c\<rparr>) = node_Get E name g k s"
  "node_Get E name g k (s\<lparr>mempools := p\<rparr>) = node_Get E name g k s"
  by (simp_all add: node_Get_def)

definition keeps_other :: "('k, 'z) env_scheme \<Rightarrow> string \<Rightarrow> int \<Rightarrow> 'k node \<Rightarrow> 'k node \<Rightarrow> bool" where
  "keeps_other E name g s s' \<longleftrightarrow>
     (\<forall>name' g' k. (name', g') \<noteq> (name, g) \<longrightarrow> node_Get E name' g' k s' = node_Get E name' g' k s)"

lemma keeps_other_refl [simp]: "keeps_other E name g s s"
  by (simp add: keeps_other_def)

lemma keeps_other_trans: "keeps_other E name g s t \<Longrightarrow> keeps_other E name g t u \<Longrightarrow> keeps_other E name g s u"
  by (simp add: keeps_other_def)

text \<open>The stored head of the newest block can be decoded.\<close>

definition heads_ok :: "('k, 'z) env_scheme \<Rightarrow> int \<Rightarrow> 'k node \<Rightarrow> bool" where
  "heads_ok E g s \<longleftrightarrow> (\<forall>bytes. node_Get E Blockheads g lastest_key s = Some bytes \<longrightarrow> \<not> snd (unmarshal_block E bytes))"

section \<open>Keys of the bucket of blocks\<close>

lemma height_key_props:
  assumes "0 \<le> h" "h < 2 ^ 24"
  shows "interfaceToBytes (KInt32 h) \<noteq> []" "length (interfaceToBytes (KInt32 h)) \<le> 3"
  using assms int32_key [of h] by auto

lemma height_key_eq_iff:
  assumes "0 \<le> h" "h < 2 ^ 24" "0 \<le> h'" "h' < 2 ^ 24"
  shows "interfaceToBytes (KInt32 h) = interfaceToBytes (KInt32 h') \<longleftrightarrow> h = h'"
  using height_keys_inject [OF assms] by blast

lemma lastest_key_bytes [simp]: "length (interfaceToBytes lastest_key) = 7" "interfaceToBytes lastest_key \<noteq> []"
  by (simp_all add: ascii_def)

declare interfaceToBytes.simps(2) [simp del]

context node_env
begin

lemma Block_Hash_length: "Block_Hash E b = Ok h \<Longrightarrow> length h = 32"
  by (auto simp: Block_Hash_def Let_def)

lemma Block_Hash_ok: "Target b = Fin q \<Longrightarrow> \<exists>h. Block_Hash E b = Ok h"
  using marshal_header_finite [of "BlockHeader.truncate b" q]
  by (auto simp: Block_Hash_def BlockHeader_Hash_def Encode_def Let_def BlockHeader.truncate_def)

lemma Block_Verify_ok:
  assumes "Target b = Fin q" and "1 \<le> q"
  shows "\<exists>v. Block_Verify E b = Ok v"
proof -
  have "0 < truncate_rat q" using assms(2) by (simp add: truncate_rat_def)
  then show ?thesis
    using Block_Hash_ok [OF assms(1)] assms(1) by (auto simp: Block_Verify_def GetTarget_def)
qed

lemma BytesToBlock_marshal: "BytesToBlock E (marshal_block E b) = Ok (if marshal_block E b = None then None else Some b)"
  using unmarshal_marshal_block [of b] by (auto simp: BytesToBlock_def split: option.splits)

lemma BytesToBlock_Some: "marshal_block E b = Some bytes \<Longrightarrow> BytesToBlock E (Some bytes) = Ok (Some b)"
  using BytesToBlock_marshal [of b] by simp

lemma group_mod_ok: "group_mod E g = Ok (gomod g (MaxGroupNum E))"
  using MaxGroupNum_pos by (simp add: group_mod_def)

lemma chain_marshal: "chain_ok E g bs s \<Longrightarrow> b \<in> set bs \<Longrightarrow> marshal_block E b \<noteq> None"
  by (auto simp: chain_ok_def block_stored_def)

lemma GetLastest_chain:
  assumes "chain_ok E g bs s"
  shows "GetLastest E g s = Ok (if bs = [] then None else Some (last bs))"
proof (cases "bs = []")
  case True
  then show ?thesis using assms by (simp add: GetLastest_def chain_ok_def lastest_stored_def BytesToBlock_def)
next
  case False
  then have "marshal_block E (last bs) \<noteq> None" using chain_marshal [OF assms] by simp
  then show ?thesis
    using assms False BytesToBlock_marshal [of "last bs"] by (simp add: GetLastest_def chain_ok_def lastest_stored_def)
qed

lemma last_Height:
  assumes "chain_ok E g bs s" and "bs \<noteq> []"
  shows "Height (last bs) = int (length bs) - 1"
proof -
  have "length bs - 1 < length bs" using assms(2) by (cases bs) auto
  then have "Height (bs ! (length bs - 1)) = int (length bs - 1)"
    using assms(1) by (simp add: chain_ok_def)
  then show ?thesis using assms(2) by (simp add: last_conv_nth of_nat_diff Suc_leI)
qed

lemma GetHeight_chain:
  assumes "chain_ok E g bs s"
  shows "\<exists>s'. GetHeight E g s = Ok (int (length bs) - 1, s') \<and> chain_ok E g bs s' \<and> onceGetHeight s' g \<and>
    node_dbs s' = node_dbs s \<and> mempools s' = mempools s \<and>
    onceBlockheadGetHeight s' = onceBlockheadGetHeight s \<and> cacheBlockheadHeight s' = cacheBlockheadHeight s"
proof (cases "onceGetHeight s g")
  case True
  then show ?thesis using assms by (auto simp: GetHeight_def chain_ok_def)
next
  case False
  have "(case if bs = [] then None else Some (last bs) of None \<Rightarrow> -1 | Some b \<Rightarrow> Height b) = int (length bs) - 1"
    using last_Height [OF assms] by simp
  then show ?thesis
    using False assms by (auto simp: GetHeight_def GetLastest_chain [OF assms] chain_ok_def block_stored_def lastest_stored_def)
qed

lemma chain_block_at:
  assumes "chain_ok E g bs s" and "i < length bs"
  shows "GetBlockByHeight E g (int i) s = Ok (Some (bs ! i))"
proof -
  have "block_stored E g (bs ! i) s" "Height (bs ! i) = int i" using assms by (simp_all add: chain_ok_def)
  then show ?thesis by (auto simp: GetBlockByHeight_def block_at_def block_stored_def BytesToBlock_Some)
qed

lemma node_Get_blank: "node_Get E name g (KBytes []) s = None"
  by (simp add: node_Get_def db_Get_def split: option.splits)

lemma chain_no_block_at:
  assumes "chain_ok E g bs s" and "int (length bs) \<le> h" and "h < 2 ^ 24"
  shows "GetBlockByHeight E g h s = Ok None"
proof -
  have "node_Get E Blocks g (KInt32 h) s = None" using assms unfolding chain_ok_def by blast
  then show ?thesis
    by (simp add: GetBlockByHeight_def block_at_def node_Get_blank BytesToBlock_def)
qed

lemma chain_hash_inject:
  assumes "chain_ok E g bs s" "b \<in> set bs" "b' \<in> set bs" "Block_Hash E b = Ok h" "Block_Hash E b' = Ok h"
  shows "b = b'"
proof -
  have "block_stored E g b s" "block_stored E g b' s" using assms(1-3) unfolding chain_ok_def by blast+
  then show ?thesis using assms(4,5) marshal_block_inject by (auto simp: block_stored_def)
qed

text \<open>Going back from the newest block visits the whole chain.\<close>

lemma iterate_chain:
  assumes "linked E [] bs" and "\<forall>b \<in> set bs. block_stored E g b s"
  shows "iterate_blocks E g s (tip_hash E [] bs) = Some (Ok (rev bs))"
  using assms
proof (induction bs rule: rev_induct)
  case Nil
  then show ?case by (simp add: iterate_blocks.simps)
next
  case (snoc b bs)
  obtain h bytes where b: "Block_Hash E b = Ok h" "marshal_block E b = Some bytes"
      "node_Get E Blocks g (KBytes h) s = Some bytes"
    using snoc.prems(2) by (auto simp: block_stored_def)
  have tip: "tip_hash E p (bs @ [b]) = h" for p by (induction bs arbitrary: p) (simp_all add: b(1))
  have "h \<noteq> []" using Block_Hash_length [OF b(1)] by auto
  then show ?case
    using snoc b by (subst iterate_blocks.simps) (simp add: tip BytesToBlock_Some linked_append)
qed

lemma tip_hash_last: "bs \<noteq> [] \<Longrightarrow> Block_Hash E (last bs) = Ok h \<Longrightarrow> tip_hash E p bs = h"
  by (induction bs arbitrary: p) (auto split: if_splits)

lemma chain_blocks_chain:
  assumes "chain_ok E g bs s" and "bs \<noteq> []"
  shows "chain_blocks E g s = Ok (rev bs)"
proof -
  obtain h where h: "Block_Hash E (last bs) = Ok h"
    using assms by (force simp: chain_ok_def block_stored_def)
  have "iterate_blocks E g s h = Some (Ok (rev bs))"
    using iterate_chain [of bs g s] assms tip_hash_last [OF assms(2) h] by (simp add: chain_ok_def)
  then show ?thesis using h assms by (simp add: chain_blocks_def GetLastest_chain)
qed

section \<open>Adding a block\<close>

lemma put_block:
  assumes ok: "chain_ok E g bs s" and once: "onceGetHeight s g"
    and b: "Height b = int (length bs)" "length bs < 2 ^ 24" "PrevHash b = tip_hash E [] bs"
    and enc: "Block_Hash E b = Ok hash" "marshal_block E b = Some bytes"
    and fresh: "\<forall>b' \<in> set bs. Block_Hash E b' \<noteq> Ok hash"
  shows "\<exists>s1 s2 s3. SetLastest E g (Some b) s = Ok s1 \<and> node_Set E Blocks g (KBytes hash) bytes s1 = Ok s2 \<and>
    node_Set E Blocks g (KInt32 (Height b)) hash s2 = Ok s3 \<and> chain_ok E g (bs @ [b]) s3 \<and> onceGetHeight s3 g \<and>
    keeps_other E Blocks g s s3 \<and> mempools s3 = mempools s \<and> onceBlockheadGetHeight s3 = onceBlockheadGetHeight s \<and>
    cacheBlockheadHeight s3 = cacheBlockheadHeight s"
proof -
  have hash: "length hash = 32" by (rule Block_Hash_length [OF enc(1)])
  then have "hash \<noteq> []" by auto
  have h: "0 \<le> Height b" "Height b < 2 ^ 24" using b by simp_all
  note hk = height_key_props [OF h]
  obtain db1 where db1: "node_Set E Blocks g lastest_key bytes s = Ok (s\<lparr>node_dbs := db1\<rparr>)"
    using node_Set_ok [of lastest_key Blocks g bytes s] by auto
  define s1 where "s1 = s\<lparr>node_dbs := db1, cacheHeight := (cacheHeight s)(g := Height b)\<rparr>"
  obtain db2 where db2: "node_Set E Blocks g (KBytes hash) bytes s1 = Ok (s1\<lparr>node_dbs := db2\<rparr>)"
    using node_Set_ok [of "KBytes hash" Blocks g bytes s1] \<open>hash \<noteq> []\<close> by auto
  obtain db3 where db3: "node_Set E Blocks g (KInt32 (Height b)) hash (s1\<lparr>node_dbs := db2\<rparr>) = Ok (s1\<lparr>node_dbs := db3\<rparr>)"
    using node_Set_ok [of "KInt32 (Height b)" Blocks g hash "s1\<lparr>node_dbs := db2\<rparr>"] hk(1) by auto
  define s3 where "s3 = s1\<lparr>node_dbs := db3\<rparr>"
  have last: "SetLastest E g (Some b) s = Ok s1"
    using db1 by (simp add: SetLastest_def Encode_def enc s1_def)
  have get1: "node_Get E name g' k s1 = node_Get E name g' k (s\<lparr>node_dbs := db1\<rparr>)" for name g' k
    by (simp add: s1_def node_Get_def)
  have get: "node_Get E name g' k s3 =
      (if name = Blocks \<and> g' = g then
         if interfaceToBytes k = interfaceToBytes (KInt32 (Height b)) then Some hash
         else if interfaceToBytes k = hash then Some bytes
         else if interfaceToBytes k = interfaceToBytes lastest_key then Some bytes
         else node_Get E name g' k s
       else node_Get E name g' k s)" for name g' k
    unfolding s3_def
    by (simp only: node_Get_Set [OF db3] node_Get_Set [OF db2] get1 node_Get_Set [OF db1] interfaceToBytes.simps(1) split: if_split) auto
  have len: "interfaceToBytes k \<noteq> interfaceToBytes k'" if "length (interfaceToBytes k) \<noteq> length (interfaceToBytes k')" for k k'
    using that by metis
  have kh: "interfaceToBytes (KInt32 (Height b)) \<noteq> h'" if "length h' = 32" for h'
    using hk(2) that by auto
  have kl: "interfaceToBytes lastest_key \<noteq> h'" if "length h' = 32" for h'
    using lastest_key_bytes(1) that by (metis numeral_eq_iff semiring_norm(89) semiring_norm(90))
  have lh: "interfaceToBytes lastest_key \<noteq> interfaceToBytes (KInt32 h')" if "0 \<le> h'" "h' < 2 ^ 24" for h'
    using height_key_props(2) [OF that] lastest_key_bytes(1) by (intro notI) simp
  have old: "block_stored E g b' s3" if mem: "b' \<in> set bs" for b'
  proof -
    obtain i where i: "i < length bs" "b' = bs ! i" using mem by (auto simp: in_set_conv_nth)
    then have hb: "Height b' = int i" using ok by (simp add: chain_ok_def)
    then have bound: "0 \<le> Height b'" "Height b' < 2 ^ 24" using i(1) b(2) by simp_all
    obtain h' bytes' where st: "Block_Hash E b' = Ok h'" "marshal_block E b' = Some bytes'"
        "node_Get E Blocks g (KBytes h') s = Some bytes'" "node_Get E Blocks g (KInt32 (Height b')) s = Some h'"
      using ok mem by (auto simp: chain_ok_def block_stored_def)
    have "h' \<noteq> hash" using fresh mem st(1) by auto
    moreover have "length h' = 32" by (rule Block_Hash_length [OF st(1)])
    moreover have "interfaceToBytes (KInt32 (Height b')) \<noteq> interfaceToBytes (KInt32 (Height b))"
      using height_key_eq_iff [OF bound h] hb b(1) i(1) by simp
    moreover have "interfaceToBytes (KInt32 (Height b')) \<noteq> hash"
      using height_key_props(2) [OF bound] hash by auto
    ultimately show ?thesis
      using st kh [of h'] kl [of h'] lh [OF bound] by (auto simp: block_stored_def get)
  qed
  have "chain_ok E g (bs @ [b]) s3"
    unfolding chain_ok_def
  proof (intro conjI)
    show "length (bs @ [b]) \<le> 2 ^ 24" using b(2) by simp
    show "\<forall>i < length (bs @ [b]). Height ((bs @ [b]) ! i) = int i"
      using ok b(1) by (auto simp: chain_ok_def nth_append less_Suc_eq)
    show "linked E [] (bs @ [b])" using ok b(3) enc(1) by (simp add: linked_append chain_ok_def)
    have "block_stored E g b s3"
      using enc kh [OF hash] by (simp add: block_stored_def get)
    then show "\<forall>b' \<in> set (bs @ [b]). block_stored E g b' s3" using old by auto
    show "lastest_stored E g (bs @ [b]) s3"
      using kl [OF hash] lh [OF h] by (simp add: lastest_stored_def get enc(2))
    show "\<forall>h'. int (length (bs @ [b])) \<le> h' \<longrightarrow> h' < 2 ^ 24 \<longrightarrow> node_Get E Blocks g (KInt32 h') s3 = None"
    proof (intro allI impI)
      fix h' :: int
      assume h': "int (length (bs @ [b])) \<le> h'" "h' < 2 ^ 24"
      then have bound: "0 \<le> h'" by simp
      have "interfaceToBytes (KInt32 h') \<noteq> interfaceToBytes (KInt32 (Height b))"
        using height_key_eq_iff [OF bound h'(2) h] h'(1) b(1) by simp
      moreover have "interfaceToBytes (KInt32 h') \<noteq> hash"
        using height_key_props(2) [OF bound h'(2)] hash by auto
      moreover have "node_Get E Blocks g (KInt32 h') s = None"
        using ok h' by (simp add: chain_ok_def)
      ultimately show "node_Get E Blocks g (KInt32 h') s3 = None"
        using lh [OF bound h'(2)] by (simp add: get)
    qed
    show "onceGetHeight s3 g \<longrightarrow> cacheHeight s3 g = int (length (bs @ [b])) - 1"
      by (simp add: s3_def s1_def b(1))
  qed
  moreover have "onceGetHeight s3 g" "mempools s3 = mempools s"
      "onceBlockheadGetHeight s3 = onceBlockheadGetHeight s" "cacheBlockheadHeight s3 = cacheBlockheadHeight s"
    using once by (simp_all add: s3_def s1_def)
  moreover have "keeps_other E Blocks g s s3" by (auto simp: keeps_other_def get)
  ultimately show ?thesis using last db2 db3 [folded s3_def] by blast
qed

lemma node_Set_keeps_other: "node_Set E name g k v s = Ok s' \<Longrightarrow> keeps_other E name g s s'"
  by (auto simp: keeps_other_def node_Get_Set)

lemma AddBlockhead_ok:
  assumes heads: "heads_ok E g s" and target: "Target b = Fin q" "1 \<le> q"
    and height: "0 \<le> Height b" "Height b < 2 ^ 24"
  shows "\<exists>added s'. AddBlockhead E g (Some b) s = Ok (added, s') \<and> heads_ok E g s' \<and> keeps_other E Blockheads g s s' \<and>
    mempools s' = mempools s \<and> cacheHeight s' = cacheHeight s \<and> onceGetHeight s' = onceGetHeight s"
proof -
  obtain v where v: "Block_Verify E b = Ok v" using Block_Verify_ok [OF target] by blast
  have "\<exists>lastest. Blockhead_GetLastest E g s = Ok lastest"
    using heads by (auto simp: Blockhead_GetLastest_def BytesToBlock_def heads_ok_def split: option.splits prod.splits)
  then obtain h s1 where h: "Blockhead_GetHeight E g s = Ok (h, s1)" "node_dbs s1 = node_dbs s" "mempools s1 = mempools s"
      "cacheHeight s1 = cacheHeight s" "onceGetHeight s1 = onceGetHeight s"
    by (cases "onceBlockheadGetHeight s g") (auto simp: Blockhead_GetHeight_def)
  have same: "node_Get E name g' k s1 = node_Get E name g' k s" for name g' k
    using h(2) by (simp add: node_Get_def)
  obtain bytes where bytes: "marshal_block E (b\<lparr>Txns := []\<rparr>) = Some bytes"
    using marshal_block_finite [of "b\<lparr>Txns := []\<rparr>" q] target(1) by auto
  define s2 where "s2 = s1\<lparr>cacheBlockheadHeight := (cacheBlockheadHeight s1)(g := Height b)\<rparr>"
  obtain db3 where s3: "node_Set E Blockheads g (KInt32 (Height b)) bytes s2 = Ok (s2\<lparr>node_dbs := db3\<rparr>)"
    using node_Set_ok [OF height_key_props(1) [OF height]] by blast
  obtain db4 where s4: "node_Set E Blockheads g lastest_key bytes (s2\<lparr>node_dbs := db3\<rparr>) = Ok (s2\<lparr>node_dbs := db4\<rparr>)"
    using node_Set_ok [OF lastest_key_bytes(2), of Blockheads g bytes "s2\<lparr>node_dbs := db3\<rparr>"] by auto
  have get2: "node_Get E name g' k s2 = node_Get E name g' k s" for name g' k
    by (simp add: s2_def same)
  have keeps: "keeps_other E Blockheads g s (s2\<lparr>node_dbs := db4\<rparr>)"
    by (auto simp: keeps_other_def node_Get_Set [OF s4] node_Get_Set [OF s3] get2)
  moreover have "heads_ok E g (s2\<lparr>node_dbs := db4\<rparr>)"
    using unmarshal_marshal_block [OF bytes] by (simp add: heads_ok_def node_Get_Set [OF s4])
  moreover have "heads_ok E g s1" "keeps_other E Blockheads g s s1"
    using heads by (simp_all add: heads_ok_def keeps_other_def same)
  ultimately show ?thesis
    using v heads h s3 s4 bytes by (auto simp: AddBlockhead_def s2_def Encode_def)
qed

lemma hash_key: "interfaceToBytes (KBytes (Transaction_Hash E t)) \<noteq> []"
  by (simp add: Transaction_Hash_def)

lemma FindTxn_put:
  assumes "txn_index_put E g t s = Ok s'"
  shows "FindTxn E g h s' = (if h = Transaction_Hash E t then Some t else FindTxn E g h s)"
  using assms
  by (auto simp: FindTxn_def txn_index_put_def node_Get_Set BytesToTransaction_def)

text \<open>Indexing the transactions of a block.\<close>

lemma txn_index_ok:
  "\<exists>s'. ofold (txn_index_put E g) ts s = Ok s' \<and> keeps_other E Txns_db g s s' \<and> mempools s' = mempools s \<and>
    cacheHeight s' = cacheHeight s \<and> onceGetHeight s' = onceGetHeight s \<and>
    (\<forall>h. if \<exists>t \<in> set ts. Transaction_Hash E t = h
         then \<exists>t \<in> set ts. Transaction_Hash E t = h \<and> FindTxn E g h s' = Some t
         else FindTxn E g h s' = FindTxn E g h s)"
proof (induction ts arbitrary: s)
  case (Cons t ts)
  obtain db where put: "txn_index_put E g t s = Ok (s\<lparr>node_dbs := db\<rparr>)"
    using node_Set_ok [OF hash_key [of t], of Txns_db g "marshal_txn E t" s] by (auto simp: txn_index_put_def)
  have keeps: "keeps_other E Txns_db g s (s\<lparr>node_dbs := db\<rparr>)"
    using put node_Set_keeps_other by (auto simp: txn_index_put_def)
  from Cons.IH [of "s\<lparr>node_dbs := db\<rparr>"] obtain s' where s':
    "ofold (txn_index_put E g) ts (s\<lparr>node_dbs := db\<rparr>) = Ok s'" "keeps_other E Txns_db g (s\<lparr>node_dbs := db\<rparr>) s'"
    "mempools s' = mempools s" "cacheHeight s' = cacheHeight s" "onceGetHeight s' = onceGetHeight s"
    and find: "\<And>h. if \<exists>t \<in> set ts. Transaction_Hash E t = h
         then \<exists>t \<in> set ts. Transaction_Hash E t = h \<and> FindTxn E g h s' = Some t
         else FindTxn E g h s' = FindTxn E g h (s\<lparr>node_dbs := db\<rparr>)"
    by auto
  have "if \<exists>t \<in> set (t # ts). Transaction_Hash E t = h
      then \<exists>t \<in> set (t # ts). Transaction_Hash E t = h \<and> FindTxn E g h s' = Some t
      else FindTxn E g h s' = FindTxn E g h s" for h
    using find [of h] FindTxn_put [OF put, of h] by (auto split: if_splits)
  moreover have "ofold (txn_index_put E g) (t # ts) s = Ok s'" using put s'(1) by simp
  ultimately show ?case using s'(3-5) keeps_other_trans [OF keeps s'(2)] by blast
qed simp

end

section \<open>What verify decides\<close>

text \<open>
  A hash is resolvable when it is indexed, or when it is that of a pool transaction whose inputs all
  spend resolvable hashes.
\<close>

inductive resolvable :: "('k, 'z) env_scheme \<Rightarrow> int \<Rightarrow> 'k node \<Rightarrow> pool \<Rightarrow> HashValue \<Rightarrow> bool"
  for E g s m where
  indexed: "FindTxn E g h s \<noteq> None \<Longrightarrow> resolvable E g s m h"
| pooled: "GetTxn h m = Some t \<Longrightarrow> \<forall>vin \<in> set (Vin t). resolvable E g s m (VoutHash vin) \<Longrightarrow> resolvable E g s m h"

inductive_simps resolvable_unfold: "resolvable E g s m h"

definition inputs_resolvable :: "('k, 'z) env_scheme \<Rightarrow> int \<Rightarrow> 'k node \<Rightarrow> pool \<Rightarrow> Transaction \<Rightarrow> bool" where
  "inputs_resolvable E g s m t \<longleftrightarrow> (\<forall>vin \<in> set (Vin t). resolvable E g s m (VoutHash vin))"

lemma verify_vins_list:
  assumes "\<forall>vin \<in> set vins. \<forall>t. GetTxn (VoutHash vin) m = Some t \<longrightarrow>
    verify_vins E g s m (Vin t) = Some (inputs_resolvable E g s m t)"
  shows "verify_vins E g s m vins = Some (\<forall>vin \<in> set vins. resolvable E g s m (VoutHash vin))"
  using assms
proof (induction vins)
  case Nil
  then show ?case by (simp add: verify_vins.simps)
next
  case (Cons vin vins)
  have "verify_vins E g s m (vin # vins) =
      (if FindTxn E g (VoutHash vin) s \<noteq> None then verify_vins E g s m vins
       else case GetTxn (VoutHash vin) m of None \<Rightarrow> Some False
            | Some t \<Rightarrow> if inputs_resolvable E g s m t then verify_vins E g s m vins else Some False)"
    using Cons.prems by (subst verify_vins.simps) (auto split: option.splits)
  then show ?case
    using Cons by (auto simp: inputs_resolvable_def resolvable_unfold [of E g s m "VoutHash vin"] split: option.splits)
qed

lemma verify_vins_pool:
  assumes ok: "pool_ok E m" and wf: "wf (spent_by m)"
  shows "(k, t) \<in> set m \<Longrightarrow> verify_vins E g s m (Vin t) = Some (inputs_resolvable E g s m t)"
  using wf
proof (induction k arbitrary: t rule: wf_induct_rule)
  case (less k)
  have "verify_vins E g s m (Vin t') = Some (inputs_resolvable E g s m t')"
    if "vin \<in> set (Vin t)" "GetTxn (VoutHash vin) m = Some t'" for vin t'
  proof -
    have mem: "(HashValue_Key (VoutHash vin), t') \<in> set m"
      using that(2) by (auto simp: GetTxn_def dest: map_of_SomeD)
    then have "(HashValue_Key (VoutHash vin), k) \<in> spent_by m"
      using that(1) less.prems by (force simp: spent_by_def spends_def)
    from less.IH [OF this mem] show ?thesis .
  qed
  then show ?case
    using verify_vins_list [of "Vin t" m E g s] by (simp add: inputs_resolvable_def)
qed

lemma verify_vins_correct:
  assumes "pool_ok E m" and "wf (spent_by m)"
  shows "verify_vins E g s m (Vin t) = Some (inputs_resolvable E g s m t)"
proof -
  have "verify_vins E g s m (Vin t') = Some (inputs_resolvable E g s m t')" if "GetTxn h m = Some t'" for h t'
    using verify_vins_pool [OF assms] that by (auto simp: GetTxn_def dest: map_of_SomeD)
  then show ?thesis using verify_vins_list [of "Vin t" m E g s] by (simp add: inputs_resolvable_def)
qed

text \<open>Removing a transaction with an unresolvable input changes no other answer.\<close>

lemma resolvable_delete:
  assumes bad: "GetTxn h m = Some t" "\<not> inputs_resolvable E g s m t"
  shows "resolvable E g s (Mempool_Delete h m) h' \<longleftrightarrow> resolvable E g s m h'"
proof
  assume "resolvable E g s m h'"
  then show "resolvable E g s (Mempool_Delete h m) h'"
  proof (induction rule: resolvable.induct)
    case (pooled h' t')
    have "HashValue_Key h' \<noteq> HashValue_Key h"
    proof
      assume "HashValue_Key h' = HashValue_Key h"
      then have "t' = t" using pooled.hyps bad(1) by (simp add: GetTxn_def)
      then show False using bad(2) pooled.IH by (auto simp: inputs_resolvable_def)
    qed
    then have "GetTxn h' (Mempool_Delete h m) = Some t'" using pooled.hyps by (simp add: mempool.lookup_remove)
    then show ?case using pooled.IH by (auto intro: resolvable.pooled)
  qed (rule resolvable.indexed)
next
  assume "resolvable E g s (Mempool_Delete h m) h'"
  then show "resolvable E g s m h'"
  proof (induction rule: resolvable.induct)
    case (pooled h' t')
    then have "GetTxn h' m = Some t'" by (auto simp: mempool.lookup_remove split: if_splits)
    then show ?case using pooled.IH by (auto intro: resolvable.pooled)
  qed (rule resolvable.indexed)
qed

lemma spent_by_mono: "set m' \<subseteq> set m \<Longrightarrow> spent_by m' \<subseteq> spent_by m"
  by (auto simp: spent_by_def)

lemma Mempool_Delete_filter: "Mempool_Delete h m = filter (\<lambda>(k, t). k \<noteq> HashValue_Key h) m"
  by (auto simp: Mempool_Delete_def AList.delete_eq intro!: filter_cong)

lemma drop_loop:
  assumes "pool_ok E m" and "wf (spent_by m)" and "distinct (map (txn_key E) txns)"
    and "\<forall>t \<in> set txns. GetTxn (Transaction_Hash E t) m = Some t"
  shows "ofold (drop_unverified E g s) txns m =
    Ok (filter (\<lambda>(k, t). \<forall>t' \<in> set txns. k = txn_key E t' \<longrightarrow> inputs_resolvable E g s m t') m)"
  using assms
proof (induction txns arbitrary: m)
  case (Cons t txns)
  define m1 where "m1 = (if inputs_resolvable E g s m t then m else Mempool_Delete (Transaction_Hash E t) m)"
  have step: "drop_unverified E g s t m = Ok m1"
    using verify_vins_correct [OF Cons.prems(1,2)] by (simp add: drop_unverified_def m1_def)
  have m1: "m1 = filter (\<lambda>(k, u). k = txn_key E t \<longrightarrow> inputs_resolvable E g s m t) m"
    by (auto simp: m1_def Mempool_Delete_filter txn_key_def intro!: filter_cong filter_True [symmetric])
  have same: "inputs_resolvable E g s m1 = inputs_resolvable E g s m"
    using resolvable_delete [of "Transaction_Hash E t" m t E g s] Cons.prems(4)
    by (auto simp: m1_def inputs_resolvable_def fun_eq_iff)
  have "pool_ok E m1" using Cons.prems(1) by (simp add: m1_def mempool.valid_remove)
  moreover have "wf (spent_by m1)"
    using Cons.prems(2) by (rule wf_subset) (auto intro!: spent_by_mono simp: m1)
  moreover have "GetTxn (Transaction_Hash E u) m1 = Some u" if "u \<in> set txns" for u
  proof -
    have "txn_key E u \<noteq> txn_key E t" using Cons.prems(3) that by (force simp: image_iff)
    then show ?thesis using Cons.prems(4) that by (auto simp: m1_def mempool.lookup_remove txn_key_def)
  qed
  ultimately have "ofold (drop_unverified E g s) txns m1 =
      Ok (filter (\<lambda>(k, u). \<forall>t' \<in> set txns. k = txn_key E t' \<longrightarrow> inputs_resolvable E g s m1 t') m1)"
    using Cons.prems(3) by (intro Cons.IH) auto
  then show ?case
    unfolding same by (simp add: step) (auto simp: m1 intro!: filter_cong)
qed simp

text \<open>The pool of a group after a block: its transactions are taken out, then what \<^verbatim>\<open>verify\<close> rejects.\<close>

definition pool_after :: "('k, 'z) env_scheme \<Rightarrow> int \<Rightarrow> 'k node \<Rightarrow> Block \<Rightarrow> pool \<Rightarrow> pool" where
  "pool_after E g s b m =
     (let (ret, m') = GetTxns E (fold (\<lambda>t. Mempool_Delete (Transaction_Hash E t)) (Txns b) m)
      in filter (\<lambda>(k, t). \<forall>t' \<in> set ret. k = txn_key E t' \<longrightarrow> inputs_resolvable E g s m' t') m')"

context node_env
begin

lemma GetTxns_lookup:
  assumes "pool_ok E m" and "GetTxns E m = (ret, m')" and "t \<in> set ret"
  shows "GetTxn (Transaction_Hash E t) m' = Some t"
proof -
  have ok: "pool_ok E m'" by (rule GetTxns_valid [OF assms(1,2)])
  obtain k where "(k, t) \<in> set m'" using GetTxns_list(3) [OF assms(1,2)] assms(3) by force
  moreover from this have "k = txn_key E t" using ok by (auto simp: pool_ok_def)
  ultimately show ?thesis using ok by (simp add: GetTxn_def pool_ok_def txn_key_def)
qed

lemma pool_step:
  assumes "pool_ok E m"
  shows "(let m = fold (\<lambda>txn. Mempool_Delete (Transaction_Hash E txn)) (Txns b) m;
              (txns, m) = GetTxns E m
          in obind (ofold (drop_unverified E g s) txns m) (\<lambda>m. Ok ((), m))) = Ok ((), pool_after E g s b m)"
proof -
  define m1 where "m1 = fold (\<lambda>txn. Mempool_Delete (Transaction_Hash E txn)) (Txns b) m"
  have ok: "pool_ok E m1" unfolding m1_def by (rule mempool.valid_removes [OF assms])
  obtain ret m2 where r: "GetTxns E m1 = (ret, m2)" by fastforce
  have "pool_ok E m2"
    using GetTxns_pool [OF ok r] ok by (auto simp: pool_ok_def distinct_map_filter)
  then have "ofold (drop_unverified E g s) ret m2 =
      Ok (filter (\<lambda>(k, t). \<forall>t' \<in> set ret. k = txn_key E t' \<longrightarrow> inputs_resolvable E g s m2 t') m2)"
    using GetTxns_wf [OF ok r] GetTxns_list(2) [OF ok r] GetTxns_lookup [OF ok r] by (intro drop_loop) auto
  then show ?thesis by (simp add: pool_after_def m1_def [symmetric] r)
qed

lemma pool_after_ok:
  assumes "pool_ok E m"
  shows "pool_ok E (pool_after E g s b m)"
    and "wf (spent_by (pool_after E g s b m))"
    and "t \<in> set (Txns b) \<Longrightarrow> GetTxn (Transaction_Hash E t) (pool_after E g s b m) = None"
proof -
  define m1 where "m1 = fold (\<lambda>txn. Mempool_Delete (Transaction_Hash E txn)) (Txns b) m"
  have ok: "pool_ok E m1" unfolding m1_def by (rule mempool.valid_removes [OF assms])
  obtain ret m2 where r: "GetTxns E m1 = (ret, m2)" by fastforce
  have m2: "m2 = filter (\<lambda>(k, txn). k \<in> Wellfounded.acc (spent_by m1)) m1" by (rule GetTxns_pool [OF ok r])
  have sub: "set (pool_after E g s b m) \<subseteq> set m2"
    by (auto simp: pool_after_def m1_def [symmetric] r)
  show "wf (spent_by (pool_after E g s b m))"
    by (rule wf_subset [OF GetTxns_wf [OF ok r] spent_by_mono [OF sub]])
  show "pool_ok E (pool_after E g s b m)"
    using ok by (auto simp: pool_after_def m1_def [symmetric] r m2 pool_ok_def distinct_map_filter)
  show "GetTxn (Transaction_Hash E t) (pool_after E g s b m) = None" if "t \<in> set (Txns b)"
  proof -
    have "GetTxn (Transaction_Hash E t) m1 = None"
      unfolding m1_def mempool.lookup_removes using that by auto
    then have "HashValue_Key (Transaction_Hash E t) \<notin> fst ` set m1" by (simp add: GetTxn_def map_of_eq_None_iff)
    moreover have "set (pool_after E g s b m) \<subseteq> set m1" using sub by (auto simp: m2)
    ultimately show ?thesis by (auto simp: GetTxn_def map_of_eq_None_iff)
  qed
qed

lemma AddBlock_ok:
  assumes ok: "chain_ok E g bs s" and heads: "heads_ok E g s"
    and pool: "pool_ok E (mempools s (gomod (Group b) (MaxGroupNum E)))"
    and b: "Height b = int (length bs)" "length bs < 2 ^ 24" "PrevHash b = tip_hash E [] bs"
    and target: "Target b = Fin q" "1 \<le> q"
    and fresh: "\<forall>b' \<in> set bs. Block_Hash E b' \<noteq> Block_Hash E b"
  shows "\<exists>s' s''. AddBlock E g (Some b) s = Ok s' \<and> chain_ok E g (bs @ [b]) s' \<and> heads_ok E g s' \<and>
    same_blocks E g s'' s' \<and> node_dbs s'' = node_dbs s' \<and>
    mempools s' = (mempools s)(gomod (Group b) (MaxGroupNum E) :=
      pool_after E g s'' b (mempools s (gomod (Group b) (MaxGroupNum E)))) \<and>
    (\<forall>t \<in> set (Txns b). \<exists>t' \<in> set (Txns b). Transaction_Hash E t' = Transaction_Hash E t \<and>
      FindTxn E g (Transaction_Hash E t) s' = Some t')"
proof -
  let ?mg = "gomod (Group b) (MaxGroupNum E)"
  obtain hash where hash: "Block_Hash E b = Ok hash" using Block_Hash_ok [OF target(1)] by blast
  obtain bytes where bytes: "marshal_block E b = Some bytes" using marshal_block_finite [OF target(1)] by blast
  obtain s0 where s0: "GetHeight E g s = Ok (int (length bs) - 1, s0)" "chain_ok E g bs s0" "onceGetHeight s0 g"
      "node_dbs s0 = node_dbs s" "mempools s0 = mempools s"
    using GetHeight_chain [OF ok] by blast
  obtain s1 s2 s3 where s3: "SetLastest E g (Some b) s0 = Ok s1" "node_Set E Blocks g (KBytes hash) bytes s1 = Ok s2"
      "node_Set E Blocks g (KInt32 (Height b)) hash s2 = Ok s3" "chain_ok E g (bs @ [b]) s3"
      "keeps_other E Blocks g s0 s3" "mempools s3 = mempools s0"
    using put_block [OF s0(2,3) b hash bytes fresh [unfolded hash]] by blast
  have height: "0 \<le> Height b" "Height b < 2 ^ 24" using b(1,2) by simp_all
  have "heads_ok E g s3"
    using heads s0(4) s3(5) by (simp add: heads_ok_def keeps_other_def node_Get_def)
  then obtain added s4 where s4: "AddBlockhead E g (Some b) s3 = Ok (added, s4)" "heads_ok E g s4"
      "keeps_other E Blockheads g s3 s4" "mempools s4 = mempools s3" "cacheHeight s4 = cacheHeight s3"
      "onceGetHeight s4 = onceGetHeight s3"
    using AddBlockhead_ok [OF _ target, of g s3] height by blast
  obtain s5 where s5: "ofold (txn_index_put E g) (Txns b) s4 = Ok s5" "keeps_other E Txns_db g s4 s5"
      "mempools s5 = mempools s4" "cacheHeight s5 = cacheHeight s4" "onceGetHeight s5 = onceGetHeight s4"
    and find: "\<forall>h. if \<exists>t \<in> set (Txns b). Transaction_Hash E t = h
         then \<exists>t \<in> set (Txns b). Transaction_Hash E t = h \<and> FindTxn E g h s5 = Some t
         else FindTxn E g h s5 = FindTxn E g h s4"
    using txn_index_ok by blast
  define s6 where "s6 = s5\<lparr>mempools := (mempools s5)(?mg := pool_after E g s5 b (mempools s5 ?mg))\<rparr>"
  have mem: "mempools s5 = mempools s" using s5(3) s4(4) s3(6) s0(5) by simp
  have "with_mempool E (Group b) (\<lambda>m.
      let m = fold (\<lambda>txn. Mempool_Delete (Transaction_Hash E txn)) (Txns b) m;
          (txns, m) = GetTxns E m
      in obind (ofold (drop_unverified E g s5) txns m) (\<lambda>m. Ok ((), m))) s5 = Ok ((), s6)"
    unfolding with_mempool_def group_mod_ok obind.simps pool_step [OF pool [folded mem]] by (simp add: s6_def)
  moreover have "i32 (int (length bs) - 1 + 1) = Height b"
    using b by (simp add: i32_id)
  ultimately have add: "AddBlock E g (Some b) s = Ok s6"
    using s0(1) s3(1-3) s4(1) s5(1) by (simp add: AddBlock_def Encode_def bytes hash)
  have same: "same_blocks E g s3 s5" "same_blocks E g s5 s6"
    using s4(3,5,6) s5(2,4,5) by (simp_all add: same_blocks_def keeps_other_def s6_def)
  then have "chain_ok E g (bs @ [b]) s6"
    using s3(4) chain_ok_same_blocks by blast
  moreover have "heads_ok E g s6"
    using s4(2) s5(2) by (simp add: heads_ok_def keeps_other_def s6_def)
  moreover have "FindTxn E g h s6 = FindTxn E g h s5" for h by (simp add: FindTxn_def s6_def)
  then have "\<forall>t \<in> set (Txns b). \<exists>t' \<in> set (Txns b). Transaction_Hash E t' = Transaction_Hash E t \<and>
      FindTxn E g (Transaction_Hash E t) s6 = Some t'"
    using find by (metis (full_types))
  ultimately show ?thesis
    using add same(2) mem by (intro exI [of _ s6] exI [of _ s5]) (simp add: s6_def)
qed

end

text \<open>What can be traced depends on the buckets only, and height 0 has one key as \<^verbatim>\<open>int\<close> and as \<^verbatim>\<open>int32\<close>.\<close>

lemma inputs_resolvable_dbs:
  assumes "node_dbs s'' = node_dbs s'"
  shows "inputs_resolvable E g s'' = inputs_resolvable E g s'"
proof -
  have find: "FindTxn E g h s'' = FindTxn E g h s'" for h using assms by (simp add: FindTxn_def node_Get_def)
  have "resolvable E g a m h \<Longrightarrow> (\<And>h. FindTxn E g h a = FindTxn E g h b) \<Longrightarrow> resolvable E g b m h" for a b m h
    by (induction rule: resolvable.induct) (auto intro: resolvable.intros)
  then have "resolvable E g s'' m h = resolvable E g s' m h" for m h using find by metis
  then show ?thesis by (simp add: inputs_resolvable_def fun_eq_iff)
qed

lemma genesis_key_reads: "node_Get E name g (KInt 0) s = node_Get E name g (KInt32 0) s"
proof -
  have "interfaceToBytes (KInt 0) = interfaceToBytes (KInt32 0)"
    by (simp add: interfaceToBytes.simps numeral_eq_Suc i64_def i32_def)
  then show ?thesis by (simp only: node_Get_def db_Get_def)
qed


section \<open>Properties\<close>

text \<open>
  C3: adding a block that continues the stored chain returns, and the chain is then stored with the new
  block at its end: newest block, lookup by hash, lookup by height, links and cached height
  are those of the longer chain. Every transaction hash of the block is indexed. The block continues
  the chain when its height is the chain's length, its \<^verbatim>\<open>PrevHash\<close> the hash of the newest block, and its
  own hash is not already that of a stored block.
\<close>

theorem AddBlock_extends_chain:
  assumes "node_env E" and "chain_ok E g bs s" and "heads_ok E g s"
    and "pool_ok E (mempools s (gomod (Group b) (MaxGroupNum E)))"
    and "Height b = int (length bs)" and "length bs < 2 ^ 24" and "PrevHash b = tip_hash E [] bs"
    and "Target b = Fin q" and "1 \<le> q"
    and "\<forall>b' \<in> set bs. Block_Hash E b' \<noteq> Block_Hash E b"
  shows "\<exists>s'. AddBlock E g (Some b) s = Ok s' \<and> chain_ok E g (bs @ [b]) s' \<and> heads_ok E g s' \<and>
    pool_ok E (mempools s' (gomod (Group b) (MaxGroupNum E))) \<and>
    (\<forall>t \<in> set (Txns b). \<exists>t' \<in> set (Txns b). Transaction_Hash E t' = Transaction_Hash E t \<and>
      FindTxn E g (Transaction_Hash E t) s' = Some t')"
  using node_env.AddBlock_ok [OF assms] node_env.pool_after_ok(1) [OF assms(1,4)] by fastforce

definition empty_node :: "ref_bucket node" where
  "empty_node = \<lparr>node_dbs = \<lambda>_ _. None, onceGetHeight = \<lambda>_. False, cacheHeight = \<lambda>_. 0,
     onceBlockheadGetHeight = \<lambda>_. False, cacheBlockheadHeight = \<lambda>_. 0, mempools = \<lambda>_. []\<rparr>"

definition sample_genesis :: Block where
  "sample_genesis = \<lparr>Group = 0, Height = 0, PrevHash = [], Timestamp = 7, MerkleRoot = [], Target = Fin 1,
     GroupBase = 0, BatchSize = 1, BatchMerklePath = [], Nonce = 3, Txns = [sample_parent]\<rparr>"

lemma empty_chain: "chain_ok ref_env g [] empty_node" "heads_ok ref_env g empty_node"
  "pool_ok ref_env (mempools empty_node mg)"
  by (simp_all add: chain_ok_def lastest_stored_def empty_node_def node_Get_def db_Get_def heads_ok_def pool_ok_def)

text \<open>The reference node's address has a hash of zeros, so its group is 0.\<close>

lemma zero_address: "address_hash (Base58Encode (replicate 25 0)) = Ok (replicate 20 0)"
  by (simp add: address_hash_def oslice_def Base58Decode_Encode Let_def)

lemma ref_group: "GetGroup ref_env = Ok 0"
  using zero_address by (simp add: GetGroup_def GetGroupByAddress_def GetGroupByPubKeyHash_def oindex_def)

theorem AddBlock_extends_chain_witness:
  "\<exists>s'. AddBlock ref_env 0 (Some sample_genesis) empty_node = Ok s' \<and> chain_ok ref_env 0 [sample_genesis] s'"
  using AddBlock_extends_chain [OF ref_node.node_env_axioms empty_chain, of sample_genesis 1 0]
  by (auto simp: sample_genesis_def)

text \<open>
  C26: after a block is added, the pool of its group holds none of the block's transactions and no cycle,
  and of the transactions that \<^verbatim>\<open>GetTxns\<close> lists it keeps exactly those all of whose inputs can be traced
  through the pool to indexed transactions.
\<close>

theorem AddBlock_pool:
  assumes "node_env E" and "chain_ok E g bs s" and "heads_ok E g s"
    and "pool_ok E (mempools s (gomod (Group b) (MaxGroupNum E)))"
    and "Height b = int (length bs)" and "length bs < 2 ^ 24" and "PrevHash b = tip_hash E [] bs"
    and "Target b = Fin q" and "1 \<le> q"
    and "\<forall>b' \<in> set bs. Block_Hash E b' \<noteq> Block_Hash E b"
    and "AddBlock E g (Some b) s = Ok s'"
    and "GetTxns E (fold (\<lambda>t. Mempool_Delete (Transaction_Hash E t)) (Txns b)
           (mempools s (gomod (Group b) (MaxGroupNum E)))) = (ret, m)"
  shows "(\<forall>t \<in> set (Txns b). GetTxn (Transaction_Hash E t) (mempools s' (gomod (Group b) (MaxGroupNum E))) = None) \<and>
    wf (spent_by (mempools s' (gomod (Group b) (MaxGroupNum E)))) \<and>
    mempools s' (gomod (Group b) (MaxGroupNum E)) =
      filter (\<lambda>(k, t). \<forall>t' \<in> set ret. k = txn_key E t' \<longrightarrow> inputs_resolvable E g s' m t') m"
proof -
  let ?mg = "gomod (Group b) (MaxGroupNum E)"
  obtain s'' where s'': "node_dbs s'' = node_dbs s'" and pool: "mempools s' ?mg = pool_after E g s'' b (mempools s ?mg)"
    using node_env.AddBlock_ok [OF assms(1-10)] assms(11) by auto
  have "inputs_resolvable E g s'' = inputs_resolvable E g s'"
    by (rule inputs_resolvable_dbs [OF s''])
  then have "pool_after E g s'' b (mempools s ?mg) = pool_after E g s' b (mempools s ?mg)"
    by (simp add: pool_after_def)
  also have "\<dots> = filter (\<lambda>(k, t). \<forall>t' \<in> set ret. k = txn_key E t' \<longrightarrow> inputs_resolvable E g s' m t') m"
    using assms(12) by (simp add: pool_after_def)
  finally show ?thesis
    using pool node_env.pool_after_ok(2,3) [OF assms(1,4)] by metis
qed

theorem AddBlock_pool_witness:
  "\<exists>s'. AddBlock ref_env 0 (Some sample_genesis) empty_node = Ok s' \<and>
     GetTxn (Transaction_Hash ref_env sample_parent) (mempools s' 0) = None"
proof -
  obtain s' where s': "AddBlock ref_env 0 (Some sample_genesis) empty_node = Ok s'"
    using ref_node.AddBlock_ok [OF empty_chain, of sample_genesis 1 0] by (auto simp: sample_genesis_def)
  show ?thesis
    using AddBlock_pool [OF ref_node.node_env_axioms empty_chain _ _ _ _ _ _ s' prod.collapse [symmetric], of 1] s'
    by (auto simp: sample_genesis_def)
qed

text \<open>
  A stored chain is read back: the newest block, the height, the first block, the block at every height of
  the chain and none above it.
\<close>

lemma chain_reads:
  assumes "node_env E" and "chain_ok E g bs s" and "bs \<noteq> []" and "0 \<le> h" and "h < 2 ^ 24"
  shows "GetLastest E g s = Ok (Some (last bs)) \<and> GetGenesis E g s = Ok (Some (hd bs)) \<and>
    (\<exists>s'. GetHeight E g s = Ok (int (length bs) - 1, s')) \<and>
    GetBlockByHeight E g h s = Ok (if h < int (length bs) then Some (bs ! nat h) else None)"
proof -
  have "GetGenesis E g s = GetBlockByHeight E g 0 s"
    by (simp add: GetGenesis_def GetBlockByHeight_def block_at_def genesis_key_reads)
  then show ?thesis
    using node_env.GetLastest_chain [OF assms(1,2)] node_env.GetHeight_chain [OF assms(1,2)]
      node_env.chain_block_at [OF assms(1,2), of 0] node_env.chain_block_at [OF assms(1,2), of "nat h"]
      node_env.chain_no_block_at [OF assms(1,2), of h] assms(3-5)
    by (auto simp: hd_conv_nth)
qed

text \<open>
  C20: going back from the newest block ends, and visits every block of the stored chain from the newest to
  the first; rebuilding the index of transactions then returns, leaves the chain as it is and indexes every
  transaction hash of the chain.
\<close>

theorem chain_iteration:
  assumes "node_env E" and "chain_ok E g bs s" and "bs \<noteq> []"
  shows "chain_blocks E g s = Ok (rev bs) \<and>
    (\<exists>s'. TxnReindex E g s = Ok s' \<and> chain_ok E g bs s' \<and>
      (\<forall>b \<in> set bs. \<forall>t \<in> set (Txns b). \<exists>t'. Transaction_Hash E t' = Transaction_Hash E t \<and>
         FindTxn E g (Transaction_Hash E t) s' = Some t'))"
proof -
  define s1 where "s1 = node_Clear E Txns_db g s"
  have same: "same_blocks E g s s1"
    by (simp add: same_blocks_def s1_def node_Clear_def node_Get_def db_Get_def db_Clear_def db_bucket_def)
  then have ok: "chain_ok E g bs s1" using assms(2) chain_ok_same_blocks by blast
  define ts where "ts = concat (map Txns (rev bs))"
  obtain s' where s': "ofold (txn_index_put E g) ts s1 = Ok s'" "keeps_other E Txns_db g s1 s'"
      "cacheHeight s' = cacheHeight s1" "onceGetHeight s' = onceGetHeight s1"
    and find: "\<And>h. \<exists>t \<in> set ts. Transaction_Hash E t = h \<Longrightarrow>
         \<exists>t \<in> set ts. Transaction_Hash E t = h \<and> FindTxn E g h s' = Some t"
    using node_env.txn_index_ok [OF assms(1), of g ts s1] by (metis (full_types))
  have "same_blocks E g s1 s'" using s'(2-4) by (simp add: same_blocks_def keeps_other_def)
  then have "chain_ok E g bs s'" using ok chain_ok_same_blocks by blast
  moreover have "TxnReindex E g s = Ok s'"
    using s'(1) node_env.chain_blocks_chain [OF assms(1) ok assms(3)]
    by (simp add: TxnReindex_def s1_def [symmetric] ts_def)
  moreover have "\<exists>t'. Transaction_Hash E t' = Transaction_Hash E t \<and> FindTxn E g (Transaction_Hash E t) s' = Some t'"
    if "b \<in> set bs" "t \<in> set (Txns b)" for b t
    using find [of "Transaction_Hash E t"] that by (auto simp: ts_def)
  ultimately show ?thesis
    using node_env.chain_blocks_chain [OF assms] by blast
qed

theorem chain_iteration_witness:
  "\<exists>s'. AddBlock ref_env 0 (Some sample_genesis) empty_node = Ok s' \<and> chain_blocks ref_env 0 s' = Ok [sample_genesis]"
proof -
  obtain s' where s': "AddBlock ref_env 0 (Some sample_genesis) empty_node = Ok s'" "chain_ok ref_env 0 [sample_genesis] s'"
    using ref_node.AddBlock_ok [OF empty_chain, of sample_genesis 1 0] by (auto simp: sample_genesis_def)
  then show ?thesis using chain_iteration [OF ref_node.node_env_axioms s'(2)] by simp
qed

text \<open>
  A block that is nil or whose height is not the next one is ignored: no bucket, pool or cached height of
  another group changes, and the chain stays as it is.
\<close>

lemma AddBlock_ignores:
  assumes "node_env E" and "chain_ok E g bs s"
    and "case block of None \<Rightarrow> True | Some b \<Rightarrow> Height b \<noteq> int (length bs)"
  shows "\<exists>s'. AddBlock E g block s = Ok s' \<and> chain_ok E g bs s' \<and> node_dbs s' = node_dbs s \<and> mempools s' = mempools s"
proof (cases block)
  case None
  then show ?thesis using assms(2) by (simp add: AddBlock_def)
next
  case (Some b)
  obtain s' where s': "GetHeight E g s = Ok (int (length bs) - 1, s')" "chain_ok E g bs s'" "node_dbs s' = node_dbs s"
      "mempools s' = mempools s"
    using node_env.GetHeight_chain [OF assms(1,2)] by blast
  have "length bs \<le> 2 ^ 24" using assms(2) by (simp add: chain_ok_def)
  then have "i32 (int (length bs) - 1 + 1) \<noteq> Height b" using Some assms(3) by (simp add: i32_id)
  then show ?thesis using s' Some by (simp add: AddBlock_def)
qed

end
