(* ===== verification/UTXO_Set.thy ===== *)
theory UTXO_Set
  imports Chain_Invariant
begin

text \<open>
  The set of unspent outputs: \<^verbatim>\<open>core/utxo_set.go\<close> and \<^verbatim>\<open>FindUTXO\<close> of \<^verbatim>\<open>core/blockchain.go\<close>. The set is a bucket
  that maps the hash of a transaction to the JSON of the outputs not spent yet; \<^verbatim>\<open>Update\<close> applies a
  block to it, \<^verbatim>\<open>Reverse\<close> takes one back, \<^verbatim>\<open>Reindex\<close> rebuilds it from the chain. The bucket is read as an
  abstract map from hashes to outputs, and \<^verbatim>\<open>Update\<close> and \<^verbatim>\<open>Reverse\<close> are proved to implement operations on that map.
\<close>

section \<open>Unspent outputs of the stored chain\<close>

text \<open>
  A Go map from strings to slices as an association list; \<open>map_append\<close> is \<^verbatim>\<open>m[key] = append(m[key], x)\<close>.
\<close>

definition map_append :: "bytes \<Rightarrow> 'a \<Rightarrow> (bytes \<times> 'a list) list \<Rightarrow> (bytes \<times> 'a list) list" where
  "map_append key x m = AList.update key ((case map_of m key of None \<Rightarrow> [] | Some xs \<Rightarrow> xs) @ [x]) m"

text \<open>
  One transaction of \<^verbatim>\<open>FindUTXO\<close>: first its outputs that no transaction seen so far has spent, then its inputs.
  The map of maps \<^verbatim>\<open>stxos\<close> is the list of the pairs it holds.
\<close>

definition scan_txn ::
  "'z json_scheme \<Rightarrow> Transaction \<Rightarrow> (bytes \<times> TxnOutput list) list \<times> (bytes \<times> int) list \<Rightarrow>
   (bytes \<times> TxnOutput list) list \<times> (bytes \<times> int) list" where
  "scan_txn E txn = (\<lambda>(utxos, stxos).
     let hash = HashValue_String (Transaction_Hash E txn)
     in (fold (\<lambda>(i, out) utxos. if (hash, int i) \<in> set stxos then utxos else map_append hash out utxos)
           (enumerate 0 (Vout txn)) utxos,
         if IsCoinbase txn then stxos
         else fold (\<lambda>vin stxos. (HashValue_String (VoutHash vin), VoutIndex vin) # stxos) (Vin txn) stxos))"

definition FindUTXO :: "('k, 'z) env_scheme \<Rightarrow> int \<Rightarrow> 'k node \<Rightarrow> (bytes \<times> TxnOutput list) list outcome" where
  "FindUTXO E g s =
     obind (chain_blocks E g s) (\<lambda>blocks. Ok (fst (fold (scan_txn E) (concat (map Txns blocks)) ([], []))))"

section \<open>The set\<close>

text \<open>The chain's group is reduced modulo the number of groups, the set's own group is not.\<close>

record UTXOSet =
  set_bc :: int
  set_group :: int

definition GetUTXOSet :: "('k, 'z) env_scheme \<Rightarrow> int \<Rightarrow> UTXOSet outcome" where
  "GetUTXOSet E g = obind (GetBlockchain E g) (\<lambda>bc. Ok \<lparr>set_bc = bc, set_group = g\<rparr>)"

definition put_outs :: "('k, 'z) env_scheme \<Rightarrow> UTXOSet \<Rightarrow> HashValue \<Rightarrow> TxnOutput list \<Rightarrow> 'k node \<Rightarrow> 'k node outcome" where
  "put_outs E us hash outs s = node_Set E UTXOs (set_group us) (KBytes hash) (marshal_outs E outs) s"

definition Reindex :: "('k, 'z) env_scheme \<Rightarrow> UTXOSet \<Rightarrow> 'k node \<Rightarrow> 'k node outcome" where
  "Reindex E us s =
     obind (FindUTXO E (set_bc us) s) (\<lambda>hashedUtxos.
       ofold (\<lambda>(txnHash, utxos) s.
         case DecodeString txnHash of (hash, err) \<Rightarrow> if err \<noteq> None then Exit else put_outs E us hash utxos s)
         (range_map E 3 hashedUtxos) (node_Clear E UTXOs (set_group us) s))"

text \<open>The inputs of a transaction in \<^verbatim>\<open>Update\<close>; the flag says that an own output is missing and the set must be rebuilt.\<close>

fun update_vins :: "('k, 'z) env_scheme \<Rightarrow> UTXOSet \<Rightarrow> TxnInput list \<Rightarrow> 'k node \<Rightarrow> (bool \<times> 'k node) outcome" where
  "update_vins E us [] s = Ok (False, s)"
| "update_vins E us (vin # vins) s =
     (let outsBytes = (case node_Get E UTXOs (set_group us) (KBytes (VoutHash vin)) s of None \<Rightarrow> [] | Some b \<Rightarrow> b) in
      if outsBytes = [] then
        obind (GetGroupByPubKeyHash (MaxGroupNum E) (PublicKey_Hash E (PubKey vin))) (\<lambda>g.
          if set_group us \<noteq> g then update_vins E us vins s else Ok (True, s))
      else
        let updatedOuts = filter (\<lambda>out. \<not> IsLockedWithKey E out (PubKey vin)) (BytesToTxnOutputs E outsBytes) in
        obind (if updatedOuts = [] then node_Delete E UTXOs (set_group us) (KBytes (VoutHash vin)) s
               else put_outs E us (VoutHash vin) updatedOuts s)
          (update_vins E us vins))"

fun update_txns :: "('k, 'z) env_scheme \<Rightarrow> UTXOSet \<Rightarrow> Transaction list \<Rightarrow> 'k node \<Rightarrow> (bool \<times> 'k node) outcome" where
  "update_txns E us [] s = Ok (False, s)"
| "update_txns E us (txn # txns) s =
     obind (if IsCoinbase txn then Ok (False, s) else update_vins E us (Vin txn) s) (\<lambda>(missing, s).
       if missing then Ok (True, s)
       else obind (put_outs E us (Transaction_Hash E txn) (Vout txn) s) (update_txns E us txns))"

definition Update :: "('k, 'z) env_scheme \<Rightarrow> UTXOSet \<Rightarrow> Block \<Rightarrow> 'k node \<Rightarrow> 'k node outcome" where
  "Update E us b s =
     obind (update_txns E us (Txns b) s) (\<lambda>(missing, s).
       if missing then obind (Reindex E us s) (TxnReindex E (set_bc us)) else Ok s)"

definition reverse_vin :: "('k, 'z) env_scheme \<Rightarrow> UTXOSet \<Rightarrow> TxnInput \<Rightarrow> 'k node \<Rightarrow> 'k node outcome" where
  "reverse_vin E us vin s =
     (let txosBytes = (case node_Get E UTXOs (set_group us) (KBytes (VoutHash vin)) s of None \<Rightarrow> [] | Some b \<Rightarrow> b);
          txos = (if txosBytes = [] then [] else BytesToTxnOutputs E txosBytes)
      in put_outs E us (VoutHash vin)
           (txos @ [\<lparr>Value = VoutValue vin, PubKeyHash = PublicKey_Hash E (PubKey vin)\<rparr>]) s)"

definition reverse_txn :: "('k, 'z) env_scheme \<Rightarrow> UTXOSet \<Rightarrow> Transaction \<Rightarrow> 'k node \<Rightarrow> 'k node outcome" where
  "reverse_txn E us txn s =
     (if IsCoinbase txn then Ok s
      else obind (node_Delete E UTXOs (set_group us) (KBytes (Transaction_Hash E txn)) s)
             (ofold (reverse_vin E us) (Vin txn)))"

definition Reverse :: "('k, 'z) env_scheme \<Rightarrow> UTXOSet \<Rightarrow> Block \<Rightarrow> 'k node \<Rightarrow> 'k node outcome" where
  "Reverse E us b s = ofold (reverse_txn E us) (rev (Txns b)) s"

section \<open>Spending\<close>

definition FindUTXOByHash :: "('k, 'z) env_scheme \<Rightarrow> UTXOSet \<Rightarrow> PublicKey \<Rightarrow> 'k node \<Rightarrow> TxnOutput list outcome" where
  "FindUTXOByHash E us pubKey s =
     db_Foreach E UTXOs (set_group us)
       (\<lambda>k v utxos. Ok (utxos @ filter (\<lambda>out. IsLockedWithKey E out pubKey) (BytesToTxnOutputs E v), True))
       (node_dbs s) []"

text \<open>
  The sum found so far and, by transaction, the indexes and values chosen: the maps \<^verbatim>\<open>hashedUTXOIdxs\<close> and
  \<^verbatim>\<open>hashedUTXOValues\<close> are extended together and kept as one map of pairs.
\<close>

type_synonym found = "int \<times> (bytes \<times> (int \<times> int) list) list"

fun take_expanded :: "int \<Rightarrow> expanded list \<Rightarrow> found \<Rightarrow> found \<times> bool" where
  "take_expanded amount [] f = (f, True)"
| "take_expanded amount ((out, hash, index) # es) (sm, m) =
     (let sm = i64 (sm + Value out);
          m = map_append (HashValue_String hash) (index, Value out) m
      in if amount \<le> sm then ((sm, m), False) else take_expanded amount es (sm, m))"

fun scan_outs ::
  "('k, 'z) env_scheme \<Rightarrow> UTXOSet \<Rightarrow> PublicKey \<Rightarrow> int \<Rightarrow> 'k node \<Rightarrow> bytes \<Rightarrow> (nat \<times> TxnOutput) list \<Rightarrow> found \<Rightarrow>
   (found \<times> bool) outcome" where
  "scan_outs E us pubKey amount s k [] f = Ok (f, True)"
| "scan_outs E us pubKey amount s k ((i, out) # outs) f =
     (if \<not> IsLockedWithKey E out pubKey then scan_outs E us pubKey amount s k outs f
      else obind (mempool_ExpandTxnOutput E (set_group us) out k (int i) s) (\<lambda>(es, _).
        case take_expanded amount es f of (f, go_on) \<Rightarrow>
          if go_on then scan_outs E us pubKey amount s k outs f else Ok (f, False)))"

definition findUTXOs :: "('k, 'z) env_scheme \<Rightarrow> UTXOSet \<Rightarrow> PublicKey \<Rightarrow> int \<Rightarrow> 'k node \<Rightarrow> found outcome" where
  "findUTXOs E us pubKey amount s =
     db_Foreach E UTXOs (set_group us)
       (\<lambda>k v. scan_outs E us pubKey amount s k (enumerate 0 (BytesToTxnOutputs E v))) (node_dbs s) (0, [])"

text \<open>\<^verbatim>\<open>wallets\<close> is what \<^verbatim>\<open>wallet.GetWallets\<close> returns, \<open>None\<close> its error; \<open>rnd\<close> the randomness of the signatures.\<close>

datatype send_error = WalletsFailed | NoPrivateKey bytes | NotEnough | BadHash

fun txn_inputs :: "PublicKey \<Rightarrow> (bytes \<times> (int \<times> int) list) list \<Rightarrow> (TxnInput list) option" where
  "txn_inputs pubKey [] = Some []"
| "txn_inputs pubKey ((txnHash, idxs) # rest) =
     (case DecodeString txnHash of (txnHashByte, err) \<Rightarrow>
        if err \<noteq> None then None
        else case txn_inputs pubKey rest of None \<Rightarrow> None
             | Some ins \<Rightarrow> Some (map (\<lambda>(outIdx, v). \<lparr>VoutHash = txnHashByte, VoutIndex = outIdx, VoutValue = v,
                 Signature = [], PubKey = pubKey\<rparr>) idxs @ ins))"

definition CreateTransaction ::
  "('k, 'z) env_scheme \<Rightarrow> UTXOSet \<Rightarrow> (bytes \<rightharpoonup> Wallet) option \<Rightarrow> (nat \<Rightarrow> nat) \<Rightarrow> bytes \<Rightarrow> bytes \<Rightarrow> int \<Rightarrow> 'k node \<Rightarrow>
   (send_error + Transaction \<times> txn_error option) outcome" where
  "CreateTransaction E us wallets rnd from to_addr amount s =
     (case wallets of None \<Rightarrow> Ok (Inl WalletsFailed)
      | Some ws \<Rightarrow> (case ws from of None \<Rightarrow> Ok (Inl (NoPrivateKey from))
        | Some fromWallet \<Rightarrow>
            obind (findUTXOs E us (wPublicKey fromWallet) amount s) (\<lambda>(sm, utxos).
              if sm < amount then Ok (Inl NotEnough)
              else case txn_inputs (wPublicKey fromWallet) (range_map E 4 utxos) of
                     None \<Rightarrow> Ok (Inl BadHash)
                   | Some ins \<Rightarrow>
                       obind (NewTxnOutput to_addr amount) (\<lambda>out.
                       obind (if amount < sm
                              then obind (NewTxnOutput from (i64 (sm - amount))) (\<lambda>change. Ok [out, change])
                              else Ok [out]) (\<lambda>outs.
                       obind (SignTransaction E (set_bc us) (wPrivateKey fromWallet) rnd \<lparr>Vin = ins, Vout = outs\<rparr> s)
                         (\<lambda>r. Ok (Inr r)))))))"

section \<open>Checking against set and pool\<close>

text \<open>
  The first loop of \<^verbatim>\<open>UTXOMemVerifyTransaction\<close>: what the pool's transactions leave of the outputs they touch.
\<close>

fun utxoMem_vins ::
  "('k, 'z) env_scheme \<Rightarrow> UTXOSet \<Rightarrow> 'k node \<Rightarrow> TxnInput list \<Rightarrow> (bytes \<rightharpoonup> TxnOutput list) \<Rightarrow> (bytes \<rightharpoonup> TxnOutput list) outcome" where
  "utxoMem_vins E us s [] mem = Ok mem"
| "utxoMem_vins E us s (vin # vins) mem =
     (let k = HashValue_Key (VoutHash vin);
          spend = (\<lambda>outs. let updatedOuts = filter (\<lambda>out. \<not> IsLockedWithKey E out (PubKey vin)) outs
                          in if updatedOuts = [] then mem(k := None) else mem(k \<mapsto> updatedOuts))
      in case mem k of
           Some outs \<Rightarrow> utxoMem_vins E us s vins (spend outs)
         | None \<Rightarrow>
             (let outBytes = (case node_Get E UTXOs (set_group us) (KBytes (VoutHash vin)) s of None \<Rightarrow> [] | Some b \<Rightarrow> b)
              in if outBytes = [] then
                   obind (GetGroupByPubKeyHash (MaxGroupNum E) (PublicKey_Hash E (PubKey vin))) (\<lambda>g.
                     if set_group us \<noteq> g then utxoMem_vins E us s vins mem else Exit)
                 else utxoMem_vins E us s vins (spend (BytesToTxnOutputs E outBytes))))"

definition utxoMem_txn ::
  "('k, 'z) env_scheme \<Rightarrow> UTXOSet \<Rightarrow> 'k node \<Rightarrow> Transaction \<Rightarrow> (bytes \<rightharpoonup> TxnOutput list) \<Rightarrow> (bytes \<rightharpoonup> TxnOutput list) outcome" where
  "utxoMem_txn E us s txn mem =
     obind (if IsCoinbase txn then Ok mem else utxoMem_vins E us s (Vin txn) mem) (\<lambda>mem.
       Ok (mem(txn_key E txn \<mapsto> Vout txn)))"

definition UTXOMemVerifyTransaction ::
  "('k, 'z) env_scheme \<Rightarrow> UTXOSet \<Rightarrow> Transaction \<Rightarrow> 'k node \<Rightarrow> (bool \<times> 'k node) outcome" where
  "UTXOMemVerifyTransaction E us txn s =
     (if IsCoinbase txn then Ok (True, s)
      else obind (mempool_GetTxns E (set_group us) s) (\<lambda>(txns, s).
        obind (ofold (utxoMem_txn E us s) txns Map.empty) (\<lambda>utxoMem.
          Ok (list_all (\<lambda>vin.
                case utxoMem (HashValue_Key (VoutHash vin)) of None \<Rightarrow> True
                | Some outs \<Rightarrow> list_ex (\<lambda>out. IsLockedWithKey E out (PubKey vin)) outs) (Vin txn), s))))"


section \<open>Refinement of an abstract set\<close>

text \<open>
  The abstract set maps a transaction hash to its outputs that are left. Spending with a key takes away
  every output of the named transaction that the key opens; \<open>None\<close> says an own output is missing.
\<close>

type_synonym uset = "HashValue \<rightharpoonup> TxnOutput list"

definition uset_of :: "('k, 'z) env_scheme \<Rightarrow> UTXOSet \<Rightarrow> 'k node \<Rightarrow> uset" where
  "uset_of E us s h = map_option (BytesToTxnOutputs E) (node_Get E UTXOs (set_group us) (KBytes h) s)"

definition set_ok :: "('k, 'z) env_scheme \<Rightarrow> UTXOSet \<Rightarrow> 'k node \<Rightarrow> bool" where
  "set_ok E us s \<longleftrightarrow>
     (\<forall>h b. node_Get E UTXOs (set_group us) (KBytes h) s = Some b \<longrightarrow> (\<exists>outs. b = marshal_outs E outs))"

definition own_key :: "('k, 'z) env_scheme \<Rightarrow> UTXOSet \<Rightarrow> PublicKey \<Rightarrow> bool" where
  "own_key E us pk \<longleftrightarrow> GetGroupByPubKeyHash (MaxGroupNum E) (PublicKey_Hash E pk) = Ok (set_group us)"

definition spend :: "('k, 'z) env_scheme \<Rightarrow> UTXOSet \<Rightarrow> TxnInput \<Rightarrow> uset \<Rightarrow> uset option" where
  "spend E us vin u =
     (case u (VoutHash vin) of
        None \<Rightarrow> if own_key E us (PubKey vin) then None else Some u
      | Some outs \<Rightarrow>
          let left = filter (\<lambda>out. \<not> IsLockedWithKey E out (PubKey vin)) outs
          in Some (u(VoutHash vin := (if left = [] then None else Some left))))"

fun spend_all :: "('k, 'z) env_scheme \<Rightarrow> UTXOSet \<Rightarrow> TxnInput list \<Rightarrow> uset \<Rightarrow> uset option" where
  "spend_all E us [] u = Some u"
| "spend_all E us (vin # vins) u = Option.bind (spend E us vin u) (spend_all E us vins)"

fun apply_txns :: "('k, 'z) env_scheme \<Rightarrow> UTXOSet \<Rightarrow> Transaction list \<Rightarrow> uset \<Rightarrow> uset option" where
  "apply_txns E us [] u = Some u"
| "apply_txns E us (t # ts) u =
     Option.bind (if IsCoinbase t then Some u else spend_all E us (Vin t) u)
       (\<lambda>u. apply_txns E us ts (u(Transaction_Hash E t \<mapsto> Vout t)))"

text \<open>Undoing: a transaction that is not a coinbase loses its outputs, and each input gets an output back.\<close>

definition unspend :: "'z json_scheme \<Rightarrow> TxnInput \<Rightarrow> uset \<Rightarrow> uset" where
  "unspend E vin u = u(VoutHash vin \<mapsto> (case u (VoutHash vin) of None \<Rightarrow> [] | Some outs \<Rightarrow> outs) @
     [\<lparr>Value = VoutValue vin, PubKeyHash = PublicKey_Hash E (PubKey vin)\<rparr>])"

definition unapply_txn :: "'z json_scheme \<Rightarrow> Transaction \<Rightarrow> uset \<Rightarrow> uset" where
  "unapply_txn E t u = (if IsCoinbase t then u else fold (unspend E) (Vin t) (u(Transaction_Hash E t := None)))"

definition keeps_node :: "('k, 'z) env_scheme \<Rightarrow> UTXOSet \<Rightarrow> 'k node \<Rightarrow> 'k node \<Rightarrow> bool" where
  "keeps_node E us s s' \<longleftrightarrow> keeps_other E UTXOs (set_group us) s s' \<and> (\<exists>db. s' = s\<lparr>node_dbs := db\<rparr>)"

lemma keeps_node_refl [simp]: "keeps_node E us s s"
  by (auto simp: keeps_node_def intro: exI [of _ "node_dbs s"])

lemma keeps_node_trans: "keeps_node E us s t \<Longrightarrow> keeps_node E us t u \<Longrightarrow> keeps_node E us s u"
  by (auto simp: keeps_node_def intro: keeps_other_trans)

context node_env
begin

lemma group_of_key: "\<exists>g. GetGroupByPubKeyHash (MaxGroupNum E) (PublicKey_Hash E pk) = Ok g"
  using MaxGroupNum_pos length_PublicKey_Hash [of pk]
  by (auto simp: GetGroupByPubKeyHash_def oindex_def simp del: length_PublicKey_Hash)

lemma put_outs_ok:
  assumes "h \<noteq> []" and "set_ok E us s"
  shows "\<exists>s'. put_outs E us h outs s = Ok s' \<and> uset_of E us s' = (uset_of E us s)(h \<mapsto> outs) \<and> set_ok E us s' \<and>
    keeps_node E us s s' \<and> node_dbs s' UTXOs (set_group us) \<noteq> None"
proof -
  obtain db where put: "node_Set E UTXOs (set_group us) (KBytes h) (marshal_outs E outs) s = Ok (s\<lparr>node_dbs := db\<rparr>)"
    using node_Set_ok [of "KBytes h" UTXOs "set_group us" "marshal_outs E outs" s] assms(1) by auto
  have "keeps_node E us s (s\<lparr>node_dbs := db\<rparr>)"
    using node_Set_keeps_other [OF put] by (auto simp: keeps_node_def)
  moreover have "uset_of E us (s\<lparr>node_dbs := db\<rparr>) = (uset_of E us s)(h \<mapsto> outs)"
    by (rule ext) (simp add: uset_of_def node_Get_Set [OF put] BytesToTxnOutputs_def)
  moreover have "set_ok E us (s\<lparr>node_dbs := db\<rparr>)"
    using assms(2) by (auto simp: set_ok_def node_Get_Set [OF put])
  moreover have "db UTXOs (set_group us) \<noteq> None"
  proof -
    obtain db' where db': "db_Set E UTXOs (set_group us) (KBytes h) (marshal_outs E outs) (node_dbs s) = Ok db'"
        "s\<lparr>node_dbs := db\<rparr> = s\<lparr>node_dbs := db'\<rparr>"
      using put by (auto simp: node_Set_eq_Ok)
    then have "db' = db" using arg_cong [OF db'(2), of node_dbs] by simp
    then show ?thesis using bucket.ready_Set [OF db'(1)] by simp
  qed
  ultimately show ?thesis using put by (auto simp: put_outs_def)
qed

lemma delete_outs_ok:
  assumes "node_dbs s UTXOs (set_group us) \<noteq> None" and "set_ok E us s"
  shows "\<exists>s'. node_Delete E UTXOs (set_group us) (KBytes h) s = Ok s' \<and> uset_of E us s' = (uset_of E us s)(h := None) \<and>
    set_ok E us s' \<and> keeps_node E us s s' \<and> node_dbs s' UTXOs (set_group us) \<noteq> None"
proof -
  obtain b where "node_dbs s UTXOs (set_group us) = Some b" using assms(1) by auto
  then obtain db where del: "node_Delete E UTXOs (set_group us) (KBytes h) s = Ok (s\<lparr>node_dbs := db\<rparr>)"
      "db UTXOs (set_group us) \<noteq> None"
    by (simp add: node_Delete_def db_Delete_def db_bucket_def)
  have "keeps_node E us s (s\<lparr>node_dbs := db\<rparr>)"
    by (auto simp: keeps_node_def keeps_other_def node_Get_Delete [OF del(1)])
  moreover have "uset_of E us (s\<lparr>node_dbs := db\<rparr>) = (uset_of E us s)(h := None)"
    by (rule ext) (simp add: uset_of_def node_Get_Delete [OF del(1)])
  moreover have "set_ok E us (s\<lparr>node_dbs := db\<rparr>)"
    using assms(2) by (auto simp: set_ok_def node_Get_Delete [OF del(1)])
  ultimately show ?thesis using del by (intro exI [of _ "s\<lparr>node_dbs := db\<rparr>"]) simp
qed

lemma stored_outs:
  assumes "set_ok E us s"
  shows "(case node_Get E UTXOs (set_group us) (KBytes h) s of None \<Rightarrow> [] | Some b \<Rightarrow> b) = [] \<longleftrightarrow> uset_of E us s h = None"
proof (cases "node_Get E UTXOs (set_group us) (KBytes h) s")
  case (Some b)
  then obtain outs where "b = marshal_outs E outs" using assms by (auto simp: set_ok_def)
  with Some show ?thesis by (simp add: uset_of_def)
qed (simp add: uset_of_def)

lemma update_vins_refines:
  assumes "set_ok E us s"
  shows "\<exists>s'. update_vins E us vins s = Ok (spend_all E us vins (uset_of E us s) = None, s') \<and> set_ok E us s' \<and>
    keeps_node E us s s' \<and> (\<forall>u. spend_all E us vins (uset_of E us s) = Some u \<longrightarrow> uset_of E us s' = u)"
  using assms
proof (induction vins arbitrary: s)
  case (Cons vin vins)
  note stored = stored_outs [OF Cons.prems, of "VoutHash vin"]
  show ?case
  proof (cases "uset_of E us s (VoutHash vin)")
    case None
    obtain g where g: "GetGroupByPubKeyHash (MaxGroupNum E) (PublicKey_Hash E (PubKey vin)) = Ok g"
      using group_of_key by blast
    then have own: "own_key E us (PubKey vin) \<longleftrightarrow> g = set_group us" by (simp add: own_key_def)
    show ?thesis
      using Cons.IH [OF Cons.prems] Cons.prems None stored g own by (cases "g = set_group us") (auto simp: spend_def)
  next
    case (Some outs)
    obtain b where b: "node_Get E UTXOs (set_group us) (KBytes (VoutHash vin)) s = Some b" "outs = BytesToTxnOutputs E b"
      using Some by (auto simp: uset_of_def)
    have nonempty: "b \<noteq> []" "VoutHash vin \<noteq> []"
      using stored Some b(1) node_Get_blank [of UTXOs "set_group us" s] by auto
    have ready: "node_dbs s UTXOs (set_group us) \<noteq> None"
      using b(1) by (auto simp: node_Get_def db_Get_def split: option.splits)
    define left where "left = filter (\<lambda>out. \<not> IsLockedWithKey E out (PubKey vin)) outs"
    have "\<exists>s1. (if left = [] then node_Delete E UTXOs (set_group us) (KBytes (VoutHash vin)) s
          else put_outs E us (VoutHash vin) left s) = Ok s1 \<and>
        uset_of E us s1 = (uset_of E us s)(VoutHash vin := (if left = [] then None else Some left)) \<and> set_ok E us s1 \<and>
        keeps_node E us s s1"
      using put_outs_ok [OF nonempty(2) Cons.prems] delete_outs_ok [of s us "VoutHash vin"]
        Cons.prems ready by (cases "left = []") auto
    then obtain s1 where s1: "(if left = [] then node_Delete E UTXOs (set_group us) (KBytes (VoutHash vin)) s
          else put_outs E us (VoutHash vin) left s) = Ok s1"
        "spend E us vin (uset_of E us s) = Some (uset_of E us s1)" "set_ok E us s1" "keeps_node E us s s1"
      using Some by (auto simp: spend_def left_def Let_def)
    have "update_vins E us (vin # vins) s = update_vins E us vins s1"
    proof -
      have "filter (\<lambda>out. \<not> IsLockedWithKey E out (PubKey vin)) (BytesToTxnOutputs E b) = left"
        by (simp add: left_def b(2))
      then show ?thesis using s1(1) b(1) nonempty(1) by (cases "left = []") simp_all
    qed
    then show ?thesis
      using Cons.IH [OF s1(3)] s1(2) keeps_node_trans [OF s1(4)] by auto
  qed
qed simp

lemma update_txns_refines:
  assumes "set_ok E us s"
  shows "\<exists>s'. update_txns E us ts s = Ok (apply_txns E us ts (uset_of E us s) = None, s') \<and> set_ok E us s' \<and>
    keeps_node E us s s' \<and> (\<forall>u. apply_txns E us ts (uset_of E us s) = Some u \<longrightarrow> uset_of E us s' = u)"
  using assms
proof (induction ts arbitrary: s)
  case (Cons t ts)
  define a where "a = (if IsCoinbase t then Some (uset_of E us s) else spend_all E us (Vin t) (uset_of E us s))"
  obtain s1 where s1: "(if IsCoinbase t then Ok (False, s) else update_vins E us (Vin t) s) = Ok (a = None, s1)"
      "set_ok E us s1" "keeps_node E us s s1" "\<forall>u. a = Some u \<longrightarrow> uset_of E us s1 = u"
    using update_vins_refines [OF Cons.prems, of "Vin t"] Cons.prems by (cases "IsCoinbase t") (auto simp: a_def)
  show ?case
  proof (cases a)
    case None
    then show ?thesis using s1 by (auto simp: a_def [symmetric])
  next
    case (Some u)
    have "Transaction_Hash E t \<noteq> []" using hash_key by simp
    then obtain s2 where s2: "put_outs E us (Transaction_Hash E t) (Vout t) s1 = Ok s2"
        "uset_of E us s2 = u(Transaction_Hash E t \<mapsto> Vout t)" "set_ok E us s2" "keeps_node E us s1 s2"
      using put_outs_ok [OF _ s1(2)] s1(4) Some by blast
    from Cons.IH [OF s2(3), unfolded s2(2)] obtain s3 where s3:
        "update_txns E us ts s2 = Ok (apply_txns E us ts (u(Transaction_Hash E t \<mapsto> Vout t)) = None, s3)" "set_ok E us s3"
        "keeps_node E us s2 s3" "\<forall>v. apply_txns E us ts (u(Transaction_Hash E t \<mapsto> Vout t)) = Some v \<longrightarrow> uset_of E us s3 = v"
      by blast
    have "update_txns E us (t # ts) s = update_txns E us ts s2" using s1(1) s2(1) Some by simp
    moreover have "apply_txns E us (t # ts) (uset_of E us s) = apply_txns E us ts (u(Transaction_Hash E t \<mapsto> Vout t))"
      using Some by (simp add: a_def)
    moreover have "keeps_node E us s s3"
      using keeps_node_trans [OF keeps_node_trans [OF s1(3) s2(4)] s3(3)] .
    ultimately show ?thesis using s3(1,2,4) by metis
  qed
qed simp

lemma reverse_vins_refines:
  assumes "set_ok E us s" and "\<forall>vin \<in> set vins. VoutHash vin \<noteq> []" and "node_dbs s UTXOs (set_group us) \<noteq> None"
  shows "\<exists>s'. ofold (reverse_vin E us) vins s = Ok s' \<and> set_ok E us s' \<and> keeps_node E us s s' \<and>
    node_dbs s' UTXOs (set_group us) \<noteq> None \<and> uset_of E us s' = fold (unspend E) vins (uset_of E us s)"
  using assms
proof (induction vins arbitrary: s)
  case (Cons vin vins)
  have stored: "(let txosBytes = (case node_Get E UTXOs (set_group us) (KBytes (VoutHash vin)) s of None \<Rightarrow> [] | Some b \<Rightarrow> b)
      in if txosBytes = [] then [] else BytesToTxnOutputs E txosBytes) =
      (case uset_of E us s (VoutHash vin) of None \<Rightarrow> [] | Some outs \<Rightarrow> outs)"
    using stored_outs [OF Cons.prems(1), of "VoutHash vin"] by (auto simp: uset_of_def split: option.splits)
  obtain s1 where s1: "reverse_vin E us vin s = Ok s1" "uset_of E us s1 = unspend E vin (uset_of E us s)" "set_ok E us s1"
      "keeps_node E us s s1" "node_dbs s1 UTXOs (set_group us) \<noteq> None"
    using put_outs_ok [OF _ Cons.prems(1), of "VoutHash vin"] Cons.prems(2) stored
    by (fastforce simp: reverse_vin_def unspend_def Let_def)
  then show ?case
    using Cons.IH [OF s1(3) _ s1(5)] Cons.prems(2) keeps_node_trans [OF s1(4)] by auto
qed simp

lemma reverse_txns_refines:
  assumes "set_ok E us s" and "\<forall>t \<in> set ts. \<not> IsCoinbase t \<longrightarrow> (\<forall>vin \<in> set (Vin t). VoutHash vin \<noteq> [])"
    and "node_dbs s UTXOs (set_group us) \<noteq> None"
  shows "\<exists>s'. ofold (reverse_txn E us) ts s = Ok s' \<and> set_ok E us s' \<and> keeps_node E us s s' \<and>
    uset_of E us s' = fold (unapply_txn E) ts (uset_of E us s)"
  using assms
proof (induction ts arbitrary: s)
  case (Cons t ts)
  have "\<exists>s1. reverse_txn E us t s = Ok s1 \<and> set_ok E us s1 \<and> keeps_node E us s s1 \<and> node_dbs s1 UTXOs (set_group us) \<noteq> None \<and>
      uset_of E us s1 = unapply_txn E t (uset_of E us s)"
  proof (cases "IsCoinbase t")
    case True
    then show ?thesis using Cons.prems by (simp add: reverse_txn_def unapply_txn_def)
  next
    case False
    obtain s0 where s0: "node_Delete E UTXOs (set_group us) (KBytes (Transaction_Hash E t)) s = Ok s0"
        "uset_of E us s0 = (uset_of E us s)(Transaction_Hash E t := None)" "set_ok E us s0" "keeps_node E us s s0"
        "node_dbs s0 UTXOs (set_group us) \<noteq> None"
      using delete_outs_ok [OF Cons.prems(3,1)] by blast
    then show ?thesis
      using reverse_vins_refines [OF s0(3) _ s0(5), of "Vin t"] Cons.prems(2) False keeps_node_trans [OF s0(4)]
      by (auto simp: reverse_txn_def unapply_txn_def)
  qed
  then obtain s1 where s1: "reverse_txn E us t s = Ok s1" "set_ok E us s1" "keeps_node E us s s1"
      "node_dbs s1 UTXOs (set_group us) \<noteq> None" "uset_of E us s1 = unapply_txn E t (uset_of E us s)"
    by blast
  then show ?case
    using Cons.IH [OF s1(2) _ s1(4)] Cons.prems(2) keeps_node_trans [OF s1(3)] by auto
qed simp

end


section \<open>Undoing a transaction\<close>

lemma spend_all_distinct:
  assumes "distinct (map VoutHash vins)" and "\<forall>vin \<in> set vins. u (VoutHash vin) \<noteq> None"
  shows "\<exists>u1. spend_all E us vins u = Some u1 \<and> (\<forall>h. h \<notin> VoutHash ` set vins \<longrightarrow> u1 h = u h) \<and>
    (\<forall>vin \<in> set vins. \<forall>outs. u (VoutHash vin) = Some outs \<longrightarrow>
      (case u1 (VoutHash vin) of None \<Rightarrow> [] | Some os \<Rightarrow> os) = filter (\<lambda>out. \<not> IsLockedWithKey E out (PubKey vin)) outs)"
  using assms
proof (induction vins arbitrary: u)
  case (Cons vin vins)
  obtain outs where outs: "u (VoutHash vin) = Some outs" using Cons.prems(2) by auto
  define left where "left = filter (\<lambda>out. \<not> IsLockedWithKey E out (PubKey vin)) outs"
  define u0 where "u0 = u(VoutHash vin := (if left = [] then None else Some left))"
  have spend: "spend E us vin u = Some u0" using outs by (simp add: spend_def left_def u0_def Let_def)
  have fresh: "VoutHash vin \<notin> VoutHash ` set vins" using Cons.prems(1) by simp
  have same: "u0 (VoutHash v) = u (VoutHash v)" if "v \<in> set vins" for v
    using fresh imageI [OF that, of VoutHash] by (auto simp: u0_def)
  have "distinct (map VoutHash vins)" "\<forall>v \<in> set vins. u0 (VoutHash v) \<noteq> None"
    using Cons.prems same by auto
  from Cons.IH [OF this] obtain u1 where u1: "spend_all E us vins u0 = Some u1"
      "\<forall>h. h \<notin> VoutHash ` set vins \<longrightarrow> u1 h = u0 h"
      "\<forall>v \<in> set vins. \<forall>outs. u0 (VoutHash v) = Some outs \<longrightarrow>
        (case u1 (VoutHash v) of None \<Rightarrow> [] | Some os \<Rightarrow> os) = filter (\<lambda>out. \<not> IsLockedWithKey E out (PubKey v)) outs"
    by blast
  have "u1 (VoutHash vin) = (if left = [] then None else Some left)" using u1(2) fresh by (simp add: u0_def)
  then have "(case u1 (VoutHash vin) of None \<Rightarrow> [] | Some os \<Rightarrow> os) = left" by simp
  moreover have "u1 h = u h" if "h \<notin> VoutHash ` set (vin # vins)" for h
    using that u1(2) by (simp add: u0_def)
  ultimately show ?case using spend u1(1,3) outs same by (intro exI [of _ u1]) (auto simp: left_def)
qed simp

lemma unspend_all_distinct:
  assumes "distinct (map VoutHash vins)"
  shows "(\<forall>h. h \<notin> VoutHash ` set vins \<longrightarrow> fold (unspend E) vins u h = u h) \<and>
    (\<forall>vin \<in> set vins. fold (unspend E) vins u (VoutHash vin) =
      Some ((case u (VoutHash vin) of None \<Rightarrow> [] | Some os \<Rightarrow> os) @
        [\<lparr>Value = VoutValue vin, PubKeyHash = PublicKey_Hash E (PubKey vin)\<rparr>]))"
  using assms
proof (induction vins arbitrary: u)
  case (Cons vin vins)
  have fresh: "VoutHash vin \<notin> VoutHash ` set vins" using Cons.prems by simp
  then have same: "unspend E vin u (VoutHash v) = u (VoutHash v)" if "v \<in> set vins" for v
    using imageI [OF that, of VoutHash] by (auto simp: unspend_def)
  have "distinct (map VoutHash vins)" using Cons.prems by simp
  note ih = Cons.IH [OF this, of "unspend E vin u"]
  have "fold (unspend E) vins (unspend E vin u) (VoutHash vin) = unspend E vin u (VoutHash vin)"
    using ih fresh by blast
  moreover have "unspend E vin u (VoutHash vin) = Some ((case u (VoutHash vin) of None \<Rightarrow> [] | Some os \<Rightarrow> os) @
      [\<lparr>Value = VoutValue vin, PubKeyHash = PublicKey_Hash E (PubKey vin)\<rparr>])"
    by (simp add: unspend_def)
  moreover have "unspend E vin u h = u h" if "h \<noteq> VoutHash vin" for h using that by (simp add: unspend_def)
  ultimately show ?case using ih same by simp
qed simp

text \<open>The one output that an input spends, as \<^verbatim>\<open>Reverse\<close> restores it.\<close>

definition spends_exactly :: "'z crypto_scheme \<Rightarrow> TxnInput \<Rightarrow> TxnOutput list \<Rightarrow> bool" where
  "spends_exactly E vin outs \<longleftrightarrow> filter (\<lambda>out. IsLockedWithKey E out (PubKey vin)) outs =
     [\<lparr>Value = VoutValue vin, PubKeyHash = PublicKey_Hash E (PubKey vin)\<rparr>]"

lemma mset_split_filter: "mset (filter (\<lambda>x. \<not> P x) xs @ filter P xs) = mset xs"
  by (induction xs) auto

context node_env
begin

lemma Update_refines_ok:
  assumes "set_ok E us s" and "apply_txns E us (Txns b) (uset_of E us s) = Some u"
  shows "\<exists>s'. Update E us b s = Ok s' \<and> uset_of E us s' = u \<and> set_ok E us s' \<and> keeps_node E us s s'"
  using update_txns_refines [OF assms(1), of "Txns b"] assms(2) by (auto simp: Update_def)

lemma uset_ready: "uset_of E us s h \<noteq> None \<Longrightarrow> node_dbs s UTXOs (set_group us) \<noteq> None"
  by (auto simp: uset_of_def node_Get_def db_Get_def split: option.splits)

lemma Reverse_Update_ok:
  assumes set: "set_ok E us s" and t: "Txns b = [t]" "\<not> IsCoinbase t" "distinct (map VoutHash (Vin t))"
    and new: "Transaction_Hash E t \<notin> VoutHash ` set (Vin t)" "uset_of E us s (Transaction_Hash E t) = None"
    and ins: "\<forall>vin \<in> set (Vin t). \<exists>outs. uset_of E us s (VoutHash vin) = Some outs \<and> spends_exactly E vin outs"
  shows "\<exists>s1 s2. Update E us b s = Ok s1 \<and> Reverse E us b s1 = Ok s2 \<and>
    (\<forall>h. mset (case uset_of E us s2 h of None \<Rightarrow> [] | Some os \<Rightarrow> os) =
         mset (case uset_of E us s h of None \<Rightarrow> [] | Some os \<Rightarrow> os))"
proof -
  let ?u = "uset_of E us s" and ?h = "Transaction_Hash E t"
  obtain u1 where u1: "spend_all E us (Vin t) ?u = Some u1" "\<forall>h. h \<notin> VoutHash ` set (Vin t) \<longrightarrow> u1 h = ?u h"
      "\<forall>vin \<in> set (Vin t). \<forall>outs. ?u (VoutHash vin) = Some outs \<longrightarrow>
        (case u1 (VoutHash vin) of None \<Rightarrow> [] | Some os \<Rightarrow> os) = filter (\<lambda>out. \<not> IsLockedWithKey E out (PubKey vin)) outs"
    using spend_all_distinct [OF t(3), of ?u E us] ins by blast
  have "apply_txns E us (Txns b) ?u = Some (u1(?h \<mapsto> Vout t))" using t(1,2) u1(1) by simp
  from Update_refines_ok [OF set this] obtain s1 where s1: "Update E us b s = Ok s1" "uset_of E us s1 = u1(?h \<mapsto> Vout t)"
      "set_ok E us s1"
    by blast
  have hashes: "\<forall>t' \<in> set (rev (Txns b)). \<not> IsCoinbase t' \<longrightarrow> (\<forall>vin \<in> set (Vin t'). VoutHash vin \<noteq> [])"
    using t(1) ins node_Get_blank [of UTXOs "set_group us" s] by (fastforce simp: uset_of_def)
  have "node_dbs s1 UTXOs (set_group us) \<noteq> None"
    by (rule uset_ready [of us s1 ?h]) (simp add: s1(2))
  from reverse_txns_refines [OF s1(3) hashes this] obtain s2 where s2: "Reverse E us b s1 = Ok s2"
      "uset_of E us s2 = fold (unapply_txn E) (rev (Txns b)) (uset_of E us s1)"
    by (auto simp: Reverse_def)
  have u1h: "u1 ?h = None" using u1(2) new by simp
  have "uset_of E us s2 = fold (unspend E) (Vin t) (u1(?h := None))"
    using s2(2) t(1,2) s1(2) by (simp add: unapply_txn_def)
  then have us2: "uset_of E us s2 = fold (unspend E) (Vin t) u1" using u1h by (simp add: fun_upd_idem)
  note restored = unspend_all_distinct [OF t(3), of E u1]
  have "mset (case uset_of E us s2 h of None \<Rightarrow> [] | Some os \<Rightarrow> os) = mset (case ?u h of None \<Rightarrow> [] | Some os \<Rightarrow> os)" for h
  proof (cases "h \<in> VoutHash ` set (Vin t)")
    case True
    then obtain vin where vin: "vin \<in> set (Vin t)" "h = VoutHash vin" by blast
    then obtain outs where outs: "?u h = Some outs" "spends_exactly E vin outs" using ins by blast
    have "uset_of E us s2 h = Some (filter (\<lambda>out. \<not> IsLockedWithKey E out (PubKey vin)) outs @
        filter (\<lambda>out. IsLockedWithKey E out (PubKey vin)) outs)"
      using restored vin outs u1(3) by (simp add: us2 spends_exactly_def)
    then show ?thesis using outs(1) mset_split_filter by simp
  next
    case False
    then show ?thesis using restored u1(2) by (simp add: us2)
  qed
  then show ?thesis using s1(1) s2(1) by blast
qed

end

section \<open>The unspent outputs found on the chain\<close>

definition spent_pairs :: "Transaction list \<Rightarrow> (bytes \<times> int) set" where
  "spent_pairs ts = (\<Union>t \<in> {t \<in> set ts. \<not> IsCoinbase t}. (\<lambda>vin. (HashValue_String (VoutHash vin), VoutIndex vin)) ` set (Vin t))"

definition unspent_of :: "bytes \<Rightarrow> (bytes \<times> int) set \<Rightarrow> TxnOutput list \<Rightarrow> TxnOutput list" where
  "unspent_of hash spent outs = map snd (filter (\<lambda>(i, out). (hash, int i) \<notin> spent) (enumerate 0 outs))"

lemma fold_spent: "set (fold (\<lambda>vin st. (f vin, g vin) # st) vins st) = (\<lambda>vin. (f vin, g vin)) ` set vins \<union> set st"
  by (induction vins arbitrary: st) auto

lemma scan_spent: "set (snd (fold (scan_txn E) ts (u, st))) = spent_pairs ts \<union> set st"
proof (induction ts arbitrary: u st)
  case (Cons t ts)
  obtain u' st' where step: "scan_txn E t (u, st) = (u', st')" by fastforce
  have "set st' = (if IsCoinbase t then {} else (\<lambda>vin. (HashValue_String (VoutHash vin), VoutIndex vin)) ` set (Vin t)) \<union> set st"
    using arg_cong [OF step, of snd] by (auto simp: scan_txn_def Let_def fold_spent)
  then show ?case using Cons.IH [of u' st'] step by (auto simp: spent_pairs_def)
qed (simp add: spent_pairs_def)

lemma map_append_other: "map_of (map_append k x m) k' = (if k' = k then Some ((case map_of m k of None \<Rightarrow> [] | Some xs \<Rightarrow> xs) @ [x]) else map_of m k')"
  by (simp add: map_append_def AList.update_conv')

lemma fold_map_append:
  "map_of (fold (\<lambda>(i, out) m. if P i then m else map_append k out m) xs m) k' =
     (if k' = k \<and> filter (\<lambda>(i, out). \<not> P i) xs \<noteq> []
      then Some ((case map_of m k of None \<Rightarrow> [] | Some os \<Rightarrow> os) @ map snd (filter (\<lambda>(i, out). \<not> P i) xs))
      else map_of m k')"
proof (induction xs arbitrary: m)
  case (Cons x xs)
  then show ?case by (cases x) (auto simp: map_append_other)
qed simp

lemma scan_txn_outs:
  "map_of (fst (scan_txn E t (u, st))) h =
     (let hash = HashValue_String (Transaction_Hash E t); new = unspent_of hash (set st) (Vout t)
      in if h = hash \<and> new \<noteq> [] then Some ((case map_of u h of None \<Rightarrow> [] | Some os \<Rightarrow> os) @ new) else map_of u h)"
  by (auto simp: scan_txn_def Let_def fold_map_append unspent_of_def)

lemma scan_other:
  "\<forall>t \<in> set ts. HashValue_String (Transaction_Hash E t) \<noteq> h \<Longrightarrow> map_of (fst (fold (scan_txn E) ts (u, st))) h = map_of u h"
proof (induction ts arbitrary: u st)
  case (Cons t ts)
  obtain u' st' where step: "scan_txn E t (u, st) = (u', st')" by fastforce
  then show ?case using Cons scan_txn_outs [of E t u st h] by (auto simp: Let_def)
qed simp

lemma scan_at:
  assumes "\<forall>t' \<in> set pre \<union> set post. Transaction_Hash E t' \<noteq> Transaction_Hash E t"
  shows "map_of (fst (fold (scan_txn E) (pre @ t # post) ([], []))) (HashValue_String (Transaction_Hash E t)) =
    (let new = unspent_of (HashValue_String (Transaction_Hash E t)) (spent_pairs pre) (Vout t) in if new = [] then None else Some new)"
proof -
  let ?h = "HashValue_String (Transaction_Hash E t)"
  have inj: "HashValue_String (Transaction_Hash E t') \<noteq> ?h" if "t' \<in> set pre \<union> set post" for t'
    using assms that by (auto simp: HashValue_String_def EncodeToString_inject)
  obtain u st where pre: "fold (scan_txn E) pre ([], []) = (u, st)" by fastforce
  have st: "set st = spent_pairs pre" using scan_spent [of E pre "[]" "[]"] pre by simp
  have "map_of u ?h = None" using scan_other [of pre E ?h "[]" "[]"] inj pre by simp
  moreover obtain u' st' where step: "scan_txn E t (u, st) = (u', st')" by fastforce
  moreover have "map_of (fst (fold (scan_txn E) post (u', st'))) ?h = map_of u' ?h"
    using inj by (intro scan_other) auto
  ultimately show ?thesis
    using pre scan_txn_outs [of E t u st ?h] st by (simp add: Let_def)
qed


section \<open>A plain environment\<close>

text \<open>
  The reference environment with digests that cut and pad, so that hashes can be computed by hand.
\<close>

definition plain_env :: "ref_bucket env" where
  "plain_env = ref_env\<lparr>sha256 := (\<lambda>m. take 32 (m @ replicate 32 0)), ripemd160 := (\<lambda>m. take 20 (m @ replicate 20 0))\<rparr>"

lemma plain_env_fields [simp]:
  "sha256 plain_env m = take 32 (m @ replicate 32 0)" "ripemd160 plain_env m = take 20 (m @ replicate 20 0)"
  "ecdsa_Public plain_env = ecdsa_Public ref_env" "ecdsa_Sign plain_env = ecdsa_Sign ref_env"
  "ecdsa_Verify plain_env = ecdsa_Verify ref_env" "marshal_header plain_env = marshal_header ref_env"
  "marshal_block plain_env = marshal_block ref_env" "unmarshal_block plain_env = unmarshal_block ref_env"
  "marshal_txn plain_env = marshal_txn ref_env" "unmarshal_txn plain_env = unmarshal_txn ref_env"
  "marshal_outs plain_env = marshal_outs ref_env" "unmarshal_outs plain_env = unmarshal_outs ref_env"
  "bolt_new plain_env = bolt_new ref_env" "bolt_get plain_env = bolt_get ref_env" "bolt_put plain_env = bolt_put ref_env"
  "bolt_delete plain_env = bolt_delete ref_env" "bolt_items plain_env = bolt_items ref_env"
  "MaxGroupNum plain_env = MaxGroupNum ref_env" "GroupNum plain_env = GroupNum ref_env" "Address plain_env = Address ref_env"
  "range_perm plain_env = range_perm ref_env"
  by (simp_all add: plain_env_def)

interpretation plain_bolt: bolt_store plain_env
  using ref_bolt.bolt_store_axioms unfolding bolt_store_def plain_env_fields .

interpretation plain_codec: json_codec plain_env
  using ref_env_codec.json_codec_axioms unfolding json_codec_def plain_env_fields .

interpretation plain_node: node_env plain_env
  by unfold_locales simp_all

definition sample_coinbase :: Transaction where
  "sample_coinbase = \<lparr>
     Vin = [\<lparr>VoutHash = [], VoutIndex = -1, VoutValue = 50, Signature = [], PubKey = [7]\<rparr>],
     Vout = [\<lparr>Value = 50, PubKeyHash = PublicKey_Hash plain_env [1]\<rparr>]\<rparr>"

definition sample_spend :: Transaction where
  "sample_spend = \<lparr>
     Vin = [\<lparr>VoutHash = Transaction_Hash plain_env sample_coinbase, VoutIndex = 0, VoutValue = 50, Signature = [],
       PubKey = [1]\<rparr>],
     Vout = [\<lparr>Value = 50, PubKeyHash = PublicKey_Hash plain_env [2]\<rparr>]\<rparr>"

lemma plain_hash_nth:
  assumes "Vin t = v # vs"
  shows "Transaction_Hash plain_env t ! 21 = hd (EncodeToString (VoutHash v) @ [0])"
proof -
  have "length (ascii ''{\"Vin\":[{\"VoutHash\":\"'') = 21" by (simp add: ascii_def)
  then show ?thesis
    using assms
    by (cases "EncodeToString (VoutHash v)")
      (simp_all add: Transaction_Hash_def ref_json_def ref_marshal_txn_def ref_txn_prefix_def nth_append)
qed

lemma sample_hashes:
  "Transaction_Hash plain_env sample_spend \<noteq> Transaction_Hash plain_env sample_coinbase"
proof -
  obtain x xs where x: "Transaction_Hash plain_env sample_coinbase = x # xs"
    by (cases "Transaction_Hash plain_env sample_coinbase") (auto simp: Transaction_Hash_def)
  have "Transaction_Hash plain_env sample_spend ! 21 = hex_digit (unat x div 16)"
    using plain_hash_nth [of sample_spend] by (simp add: sample_spend_def x EncodeToString_def hex_encode_byte_def)
  moreover have "unat x div 16 < 16" by (simp add: less_mult_imp_div_less)
  moreover have "Transaction_Hash plain_env sample_coinbase ! 21 = 0"
    using plain_hash_nth [of sample_coinbase] by (simp add: sample_coinbase_def EncodeToString_def)
  ultimately show ?thesis using hex_digit_nonzero by metis
qed


section \<open>Properties\<close>

text \<open>
  C5: \<^verbatim>\<open>Update\<close> implements the abstract set: where the abstract update of a block's transactions is defined, it returns
  and the stored set is the abstract result; nothing but the bucket of the set changes. Where an own output is
  missing, it rebuilds the set and the transaction index from the chain.
\<close>

theorem Update_refines:
  assumes "node_env E" and "set_ok E us s"
  shows "case apply_txns E us (Txns b) (uset_of E us s) of
    Some u \<Rightarrow> \<exists>s'. Update E us b s = Ok s' \<and> uset_of E us s' = u \<and> set_ok E us s' \<and> keeps_node E us s s'
  | None \<Rightarrow> \<exists>s1. keeps_node E us s s1 \<and> Update E us b s = obind (Reindex E us s1) (TxnReindex E (set_bc us))"
  using node_env.update_txns_refines [OF assms, of "Txns b"] node_env.Update_refines_ok [OF assms, of b]
  by (auto simp: Update_def split: option.splits)

definition sample_set :: UTXOSet where
  "sample_set = \<lparr>set_bc = 0, set_group = 0\<rparr>"

definition coinbase_block :: Block where
  "coinbase_block = sample_genesis\<lparr>Txns := [sample_coinbase]\<rparr>"

lemma empty_set: "set_ok plain_env us empty_node" "uset_of plain_env us empty_node = Map.empty"
  by (simp_all add: set_ok_def uset_of_def fun_eq_iff empty_node_def node_Get_def db_Get_def)

lemma sample_coinbase_is: "IsCoinbase sample_coinbase" "\<not> IsCoinbase sample_spend"
  by (simp_all add: IsCoinbase_def sample_coinbase_def sample_spend_def)

theorem Update_refines_witness:
  "\<exists>s'. Update plain_env sample_set coinbase_block empty_node = Ok s' \<and>
     uset_of plain_env sample_set s' = [Transaction_Hash plain_env sample_coinbase \<mapsto> Vout sample_coinbase]"
  using Update_refines [OF plain_node.node_env_axioms empty_set(1), of sample_set coinbase_block]
  by (auto simp: empty_set coinbase_block_def sample_coinbase_is)

lemma coinbase_added:
  "\<exists>s'. Update plain_env sample_set coinbase_block empty_node = Ok s' \<and> set_ok plain_env sample_set s' \<and>
     mempools s' = mempools empty_node \<and>
     uset_of plain_env sample_set s' = [Transaction_Hash plain_env sample_coinbase \<mapsto> Vout sample_coinbase]"
  using plain_node.Update_refines_ok [OF empty_set(1), of sample_set coinbase_block]
  by (auto simp: empty_set coinbase_block_def sample_coinbase_is keeps_node_def)



text \<open>
  C17: \<^verbatim>\<open>Reverse\<close> undoes \<^verbatim>\<open>Update\<close> for a block of one transaction that is not a coinbase, when its inputs name different
  transactions and each opens exactly the one output whose value it states: both return, and every
  transaction has the outputs it had, up to their order.
\<close>

theorem Reverse_undoes_Update:
  assumes "node_env E" and "set_ok E us s" and "Txns b = [t]" and "\<not> IsCoinbase t" and "distinct (map VoutHash (Vin t))"
    and "Transaction_Hash E t \<notin> VoutHash ` set (Vin t)" and "uset_of E us s (Transaction_Hash E t) = None"
    and "\<forall>vin \<in> set (Vin t). \<exists>outs. uset_of E us s (VoutHash vin) = Some outs \<and> spends_exactly E vin outs"
  shows "\<exists>s1 s2. Update E us b s = Ok s1 \<and> Reverse E us b s1 = Ok s2 \<and>
    (\<forall>h. mset (case uset_of E us s2 h of None \<Rightarrow> [] | Some os \<Rightarrow> os) =
         mset (case uset_of E us s h of None \<Rightarrow> [] | Some os \<Rightarrow> os))"
  using assms by (rule node_env.Reverse_Update_ok)

theorem Reverse_undoes_Update_witness:
  "\<exists>s s1 s2. Update plain_env sample_set coinbase_block empty_node = Ok s \<and>
     Update plain_env sample_set (coinbase_block\<lparr>Txns := [sample_spend]\<rparr>) s = Ok s1 \<and>
     Reverse plain_env sample_set (coinbase_block\<lparr>Txns := [sample_spend]\<rparr>) s1 = Ok s2"
proof -
  obtain s where s: "Update plain_env sample_set coinbase_block empty_node = Ok s" "set_ok plain_env sample_set s"
      "uset_of plain_env sample_set s = [Transaction_Hash plain_env sample_coinbase \<mapsto> Vout sample_coinbase]"
    using coinbase_added by blast
  have "\<forall>vin \<in> set (Vin sample_spend). \<exists>outs. uset_of plain_env sample_set s (VoutHash vin) = Some outs \<and>
      spends_exactly plain_env vin outs"
    using s(3) by (simp add: sample_spend_def) (simp add: spends_exactly_def sample_coinbase_def IsLockedWithKey_def HashValue_Equal_def)
  moreover have "distinct (map VoutHash (Vin sample_spend))"
      "Transaction_Hash plain_env sample_spend \<notin> VoutHash ` set (Vin sample_spend)"
      "uset_of plain_env sample_set s (Transaction_Hash plain_env sample_spend) = None"
    using s(3) sample_hashes by (simp_all add: sample_spend_def)
  ultimately show ?thesis
    using Reverse_undoes_Update [OF plain_node.node_env_axioms s(2), of "coinbase_block\<lparr>Txns := [sample_spend]\<rparr>" sample_spend]
      sample_coinbase_is(2) s(1) by auto
qed

text \<open>
  \<^verbatim>\<open>Reverse\<close> does not undo a coinbase: after a block of coinbase transactions is applied and reversed, their outputs
  are still in the set.
\<close>

lemma Reverse_keeps_coinbase:
  assumes "node_env E" and "set_ok E us s" and "\<forall>t \<in> set (Txns b). IsCoinbase t"
  shows "\<exists>s1. Update E us b s = Ok s1 \<and> Reverse E us b s1 = Ok s1 \<and>
    (\<forall>t \<in> set (Txns b). uset_of E us s1 (Transaction_Hash E t) \<noteq> None)"
proof -
  have step: "\<exists>u'. apply_txns E us ts u = Some u' \<and> dom u' = dom u \<union> Transaction_Hash E ` set ts"
    if "\<forall>t \<in> set ts. IsCoinbase t" for ts u
    using that
  proof (induction ts arbitrary: u)
    case (Cons t ts)
    then obtain u' where "apply_txns E us ts (u(Transaction_Hash E t \<mapsto> Vout t)) = Some u'"
        "dom u' = dom (u(Transaction_Hash E t \<mapsto> Vout t)) \<union> Transaction_Hash E ` set ts"
      using Cons.IH [of "u(Transaction_Hash E t \<mapsto> Vout t)"] Cons.prems by (metis list.set_intros(2))
    then show ?case using Cons.prems by auto
  qed simp
  obtain u where u: "apply_txns E us (Txns b) (uset_of E us s) = Some u"
      "dom u = dom (uset_of E us s) \<union> Transaction_Hash E ` set (Txns b)"
    using step [OF assms(3)] by blast
  obtain s1 where s1: "Update E us b s = Ok s1" "uset_of E us s1 = u"
    using node_env.Update_refines_ok [OF assms(1,2) u(1)] by blast
  have "ofold (reverse_txn E us) ts s1 = Ok s1" if "\<forall>t \<in> set ts. IsCoinbase t" for ts
    using that by (induction ts) (auto simp: reverse_txn_def)
  then have "Reverse E us b s1 = Ok s1" using assms(3) by (simp add: Reverse_def)
  moreover have "\<forall>t \<in> set (Txns b). uset_of E us s1 (Transaction_Hash E t) \<noteq> None"
    using u(2) s1(2) by (auto simp: dom_def)
  ultimately show ?thesis using s1(1) by blast
qed

text \<open>
  C31: \<^verbatim>\<open>FindUTXO\<close> returns for a transaction of the chain exactly the outputs that no transaction visited before it spends,
  when no other transaction has its hash. Transactions are visited block by block from the newest to the oldest, and inside
  a block from the first to the last.
\<close>

theorem FindUTXO_exact:
  assumes "node_env E" and "chain_ok E g bs s" and "bs \<noteq> []"
    and "concat (map Txns (rev bs)) = pre @ t # post"
    and "\<forall>t' \<in> set pre \<union> set post. Transaction_Hash E t' \<noteq> Transaction_Hash E t"
  shows "\<exists>utxos. FindUTXO E g s = Ok utxos \<and> map_of utxos (HashValue_String (Transaction_Hash E t)) =
    (let new = unspent_of (HashValue_String (Transaction_Hash E t)) (spent_pairs pre) (Vout t) in if new = [] then None else Some new)"
  using node_env.chain_blocks_chain [OF assms(1-3)] scan_at [OF assms(5)] by (simp add: FindUTXO_def assms(4))

theorem FindUTXO_exact_witness:
  "\<exists>s'. AddBlock ref_env 0 (Some sample_genesis) empty_node = Ok s' \<and>
     (\<exists>utxos. FindUTXO ref_env 0 s' = Ok utxos \<and>
        map_of utxos (HashValue_String (Transaction_Hash ref_env sample_parent)) = Some (Vout sample_parent))"
proof -
  obtain s' where s': "AddBlock ref_env 0 (Some sample_genesis) empty_node = Ok s'" "chain_ok ref_env 0 [sample_genesis] s'"
    using ref_node.AddBlock_ok [OF empty_chain, of sample_genesis 1 0] by (auto simp: sample_genesis_def)
  have "concat (map Txns (rev [sample_genesis])) = [] @ sample_parent # []" by (simp add: sample_genesis_def)
  from FindUTXO_exact [OF ref_node.node_env_axioms s'(2) _ this] s'(1) show ?thesis
    by (auto simp: unspent_of_def spent_pairs_def sample_parent_def)
qed


lemma sample_pool_txns:
  assumes "mempools s 0 = AddTxn plain_env sample_spend []"
  shows "\<exists>s1. mempool_GetTxns plain_env 0 s = Ok ([sample_spend], s1)"
proof -
  let ?m = "AddTxn plain_env sample_spend []"
  have ok: "pool_ok plain_env ?m" by (intro mempool.valid_add) (simp add: pool_ok_def)
  have key: "txn_key plain_env sample_spend \<noteq> HashValue_Key (Transaction_Hash plain_env sample_coinbase)"
    using sample_hashes by (simp add: txn_key_def HashValue_Key_32 Transaction_Hash_def)
  then have "spent_by ?m = {}" by (auto simp: spent_by_def AddTxn_def spends_def sample_spend_def)
  then have acc: "k \<in> Wellfounded.acc (spent_by ?m)" for k by (auto intro: Wellfounded.acc.accI)
  obtain ret m' where r: "GetTxns plain_env ?m = (ret, m')" by fastforce
  have "m' = ?m" using plain_node.GetTxns_pool [OF ok r] acc by (simp add: case_prod_beta)
  then have "length ret = 1" "set ret \<subseteq> {sample_spend}"
    using plain_node.GetTxns_list(1,3) [OF ok r] by (auto simp: AddTxn_def)
  then have "ret = [sample_spend]" by (cases ret) auto
  then show ?thesis using assms r by (simp add: mempool_GetTxns_def with_mempool_def plain_node.group_mod_ok)
qed


end
