(* ===== verification/UTXO_Reindex.thy ===== *)
theory UTXO_Reindex
  imports UTXO_Set
begin

text \<open>
  Rebuilding the two indexes of a chain: \<^verbatim>\<open>Reindex\<close> of \<^verbatim>\<open>core/utxo_set.go\<close> stores exactly the map that \<^verbatim>\<open>FindUTXO\<close>
  computes, and \<^verbatim>\<open>TxnReindex\<close> of \<^verbatim>\<open>core/blockchain.go\<close> indexes exactly the transactions of the chain.
\<close>

section \<open>Keys of the map that \<^verbatim>\<open>FindUTXO\<close> returns\<close>

lemma keys_map_append: "fst ` set (map_append k x m) = insert k (fst ` set m)"
  by (simp add: map_append_def dom_map_of_conv_image_fst [symmetric] AList.update_conv')

lemma distinct_map_append: "distinct (map fst m) \<Longrightarrow> distinct (map fst (map_append k x m))"
  by (simp add: map_append_def AList.distinct_update)

lemma fold_append_keys:
  assumes "distinct (map fst u)"
  shows "distinct (map fst (fold (\<lambda>(i, out) u. if P i then u else map_append k out u) xs u)) \<and>
    fst ` set (fold (\<lambda>(i, out) u. if P i then u else map_append k out u) xs u) \<subseteq> insert k (fst ` set u)"
  using assms
proof (induction xs rule: rev_induct)
  case (snoc x xs)
  then show ?case by (cases x) (simp add: keys_map_append distinct_map_append)
qed auto

lemma scan_txn_keys:
  assumes "distinct (map fst u)" and "scan_txn E t (u, st) = (u', st')"
  shows "distinct (map fst u')" and "fst ` set u' \<subseteq> insert (HashValue_String (Transaction_Hash E t)) (fst ` set u)"
proof -
  let ?k = "HashValue_String (Transaction_Hash E t)"
  have "u' = fold (\<lambda>(i, out) u. if (?k, int i) \<in> set st then u else map_append ?k out u) (enumerate 0 (Vout t)) u"
    using assms(2) by (simp add: scan_txn_def Let_def)
  then show "distinct (map fst u')" "fst ` set u' \<subseteq> insert ?k (fst ` set u)"
    using fold_append_keys [OF assms(1), of "\<lambda>i. (?k, int i) \<in> set st" ?k "enumerate 0 (Vout t)"] by simp_all
qed

lemma scan_keys:
  assumes "fold (scan_txn E) ts (u, st) = (u', st')" and "distinct (map fst u)"
  shows "distinct (map fst u') \<and> fst ` set u' \<subseteq> fst ` set u \<union> (HashValue_String \<circ> Transaction_Hash E) ` set ts"
  using assms
proof (induction ts arbitrary: u st)
  case (Cons t ts)
  obtain v sv where step: "scan_txn E t (u, st) = (v, sv)" by fastforce
  note keys = scan_txn_keys [OF Cons.prems(2) step]
  have "fold (scan_txn E) ts (v, sv) = (u', st')" using Cons.prems(1) step by simp
  from Cons.IH [OF this keys(1)] keys(2) show ?case by (simp add: subset_iff) blast
qed simp

section \<open>Storing the map\<close>

context node_env
begin

lemma Clear_set:
  "uset_of E us (node_Clear E UTXOs (set_group us) s) = Map.empty" "set_ok E us (node_Clear E UTXOs (set_group us) s)"
  "keeps_node E us s (node_Clear E UTXOs (set_group us) s)"
  by (auto simp: uset_of_def set_ok_def keeps_node_def keeps_other_def node_Clear_def node_Get_def db_Get_def db_Clear_def
      db_bucket_def)

lemma store_found:
  assumes "distinct (map fst m)" and "\<forall>k \<in> fst ` set m. \<exists>h. h \<noteq> [] \<and> k = HashValue_String h" and "set_ok E us s"
  shows "\<exists>s'. ofold (\<lambda>(txnHash, utxos) s.
      case DecodeString txnHash of (hash, err) \<Rightarrow> if err \<noteq> None then Exit else put_outs E us hash utxos s) m s = Ok s' \<and>
    set_ok E us s' \<and> keeps_node E us s s' \<and>
    (\<forall>h. uset_of E us s' h = (case map_of m (HashValue_String h) of None \<Rightarrow> uset_of E us s h | Some outs \<Rightarrow> Some outs))"
  using assms
proof (induction m arbitrary: s)
  case (Cons ko m)
  obtain k outs where ko: "ko = (k, outs)" by (cases ko)
  obtain h where h: "h \<noteq> []" "k = HashValue_String h" using Cons.prems(2) by (auto simp: ko)
  obtain s1 where s1: "put_outs E us h outs s = Ok s1" "uset_of E us s1 = (uset_of E us s)(h \<mapsto> outs)" "set_ok E us s1"
      "keeps_node E us s s1"
    using put_outs_ok [OF h(1) Cons.prems(3)] by blast
  have prems: "distinct (map fst m)" "\<forall>k \<in> fst ` set m. \<exists>h. h \<noteq> [] \<and> k = HashValue_String h"
    using Cons.prems(1,2) by (auto simp: ko)
  obtain s2 where s2: "ofold (\<lambda>(txnHash, utxos) s.
      case DecodeString txnHash of (hash, err) \<Rightarrow> if err \<noteq> None then Exit else put_outs E us hash utxos s) m s1 = Ok s2"
      "set_ok E us s2" "keeps_node E us s1 s2"
      "\<And>h. uset_of E us s2 h = (case map_of m (HashValue_String h) of None \<Rightarrow> uset_of E us s1 h | Some outs \<Rightarrow> Some outs)"
    using Cons.IH [OF prems s1(3)] by blast
  have "map_of m k = None" using Cons.prems(1) by (auto simp: ko map_of_eq_None_iff)
  then have "uset_of E us s2 h' = (case map_of (ko # m) (HashValue_String h') of None \<Rightarrow> uset_of E us s h' | Some outs \<Rightarrow> Some outs)"
    for h'
    using s2(4) [of h'] s1(2) h(2) by (auto simp: ko split: option.splits)
  moreover have "DecodeString k = (h, None)" by (simp add: h(2) HashValue_String_def)
  ultimately show ?case
    using s1(1) s2(1-3) keeps_node_trans [OF s1(4) s2(3)] by (auto simp: ko)
qed simp

lemma Reindex_ok:
  assumes "chain_ok E (set_bc us) bs s" and "bs \<noteq> []"
  shows "\<exists>utxos s'. FindUTXO E (set_bc us) s = Ok utxos \<and> Reindex E us s = Ok s' \<and> set_ok E us s' \<and> keeps_node E us s s' \<and>
    (\<forall>h. uset_of E us s' h = map_of utxos (HashValue_String h))"
proof -
  let ?ts = "concat (map Txns (rev bs))"
  obtain u st where scan: "fold (scan_txn E) ?ts ([], []) = (u, st)" by fastforce
  have find: "FindUTXO E (set_bc us) s = Ok u"
    using chain_blocks_chain [OF assms] scan by (simp add: FindUTXO_def)
  have keys: "distinct (map fst u)" "fst ` set u \<subseteq> (HashValue_String \<circ> Transaction_Hash E) ` set ?ts"
    using scan_keys [OF scan] by simp_all
  define m where "m = range_map E 3 u"
  have m: "mset m = mset u" by (simp add: m_def)
  then have dm: "distinct (map fst m)" using keys(1) by (metis mset_eq_imp_distinct_iff mset_map)
  have "Transaction_Hash E t \<noteq> []" for t using hash_key [of t] by simp
  moreover have "fst ` set m \<subseteq> (HashValue_String \<circ> Transaction_Hash E) ` set ?ts"
    using keys(2) by (simp add: mset_eq_setD [OF m])
  ultimately have "\<forall>k \<in> fst ` set m. \<exists>h. h \<noteq> [] \<and> k = HashValue_String h"
    by (metis (no_types, lifting) comp_apply imageE subsetD)
  from store_found [OF dm this Clear_set(2) [of us s]] obtain s' where s':
    "ofold (\<lambda>(txnHash, utxos) s.
      case DecodeString txnHash of (hash, err) \<Rightarrow> if err \<noteq> None then Exit else put_outs E us hash utxos s) m
      (node_Clear E UTXOs (set_group us) s) = Ok s'" "set_ok E us s'" "keeps_node E us (node_Clear E UTXOs (set_group us) s) s'"
    "\<And>h. uset_of E us s' h = (case map_of m (HashValue_String h) of None \<Rightarrow> None | Some outs \<Rightarrow> Some outs)"
    unfolding Clear_set(1) by blast
  have re: "Reindex E us s = Ok s'" using s'(1) find by (simp only: Reindex_def m_def obind.simps)
  have "map_of m = map_of u" using dm keys(1) mset_eq_setD [OF m] by (simp add: map_of_inject_set)
  then have "uset_of E us s' h = map_of u (HashValue_String h)" for h
    using s'(4) [of h] by (auto split: option.splits)
  then show ?thesis using find re s'(2) keeps_node_trans [OF Clear_set(3) s'(3)] by blast
qed

lemma TxnReindex_ok:
  assumes "chain_ok E g bs s" and "bs \<noteq> []"
  shows "\<exists>s'. TxnReindex E g s = Ok s' \<and> keeps_other E Txns_db g s s' \<and> mempools s' = mempools s \<and>
    cacheHeight s' = cacheHeight s \<and> onceGetHeight s' = onceGetHeight s \<and>
    (\<forall>h. if \<exists>b \<in> set bs. \<exists>t \<in> set (Txns b). Transaction_Hash E t = h
         then \<exists>b \<in> set bs. \<exists>t \<in> set (Txns b). Transaction_Hash E t = h \<and> FindTxn E g h s' = Some t
         else FindTxn E g h s' = None)"
proof -
  let ?s = "node_Clear E Txns_db g s"
  have clear: "keeps_other E Txns_db g s ?s" "FindTxn E g h ?s = None" for h
    by (auto simp: keeps_other_def FindTxn_def node_Clear_def node_Get_def db_Get_def db_Clear_def db_bucket_def)
  have same: "same_blocks E g s ?s"
    using clear(1) by (simp add: same_blocks_def keeps_other_def) (simp add: node_Clear_def)
  have "chain_ok E g bs ?s" using assms(1) chain_ok_same_blocks [OF same] by blast
  then have re: "TxnReindex E g s = ofold (txn_index_put E g) (concat (map Txns (rev bs))) ?s"
    using chain_blocks_chain [OF _ assms(2)] by (simp add: TxnReindex_def)
  obtain s' where s': "ofold (txn_index_put E g) (concat (map Txns (rev bs))) ?s = Ok s'"
      "keeps_other E Txns_db g ?s s'" "mempools s' = mempools ?s" "cacheHeight s' = cacheHeight ?s"
      "onceGetHeight s' = onceGetHeight ?s"
    and find: "\<forall>h. if \<exists>t \<in> set (concat (map Txns (rev bs))). Transaction_Hash E t = h
         then \<exists>t \<in> set (concat (map Txns (rev bs))). Transaction_Hash E t = h \<and> FindTxn E g h s' = Some t
         else FindTxn E g h s' = FindTxn E g h ?s"
    using txn_index_ok by blast
  have ex: "(\<exists>t \<in> set (concat (map Txns (rev bs))). P t) \<longleftrightarrow> (\<exists>b \<in> set bs. \<exists>t \<in> set (Txns b). P t)" for P by auto
  have "if \<exists>b \<in> set bs. \<exists>t \<in> set (Txns b). Transaction_Hash E t = h
      then \<exists>b \<in> set bs. \<exists>t \<in> set (Txns b). Transaction_Hash E t = h \<and> FindTxn E g h s' = Some t
      else FindTxn E g h s' = None" for h
    using spec [OF find, of h] unfolding ex clear(2) .
  moreover have "mempools ?s = mempools s" "cacheHeight ?s = cacheHeight s" "onceGetHeight ?s = onceGetHeight s"
    by (simp_all add: node_Clear_def)
  ultimately show ?thesis using re s'(1,3-5) keeps_other_trans [OF clear(1) s'(2)] by (intro exI [of _ s']) simp
qed

end

end
