(* ===== verification/Merkle.thy ===== *)
theory Merkle
  imports Ref_Json
begin

text \<open>
  \<^verbatim>\<open>core/merkle_tree.go\<close>: the tree built level by level, the path of a leaf, and the two instances for
  transactions and block headers. The digest is a parameter. The theorems say when the path
  verifies, that the root determines the leaves, and where the search for a path goes wrong.
\<close>

section \<open>The code\<close>

datatype MerkleNode =
  MerkleNode (ml: int) (mr: int) (mLeft: "MerkleNode option") (mRight: "MerkleNode option") (mData: HashValue)

text \<open>\<open>None\<close> for \<^verbatim>\<open>data\<close> is \<^verbatim>\<open>nil\<close>: the node hashes the concatenated digests of its children.\<close>

definition NewMerkleNode ::
  "(bytes \<Rightarrow> bytes) \<Rightarrow> int \<Rightarrow> int \<Rightarrow> MerkleNode option \<Rightarrow> MerkleNode option \<Rightarrow> bytes option \<Rightarrow> MerkleNode outcome" where
  "NewMerkleNode sha l r left right data =
     obind (case data of Some d \<Rightarrow> Ok d
            | None \<Rightarrow> (case (left, right) of (Some x, Some y) \<Rightarrow> Ok (mData x @ mData y) | _ \<Rightarrow> Panic))
       (\<lambda>d. Ok (MerkleNode l r left right (sha d)))"

fun merkle_leaves :: "(bytes \<Rightarrow> bytes) \<Rightarrow> int \<Rightarrow> bytes list \<Rightarrow> MerkleNode list outcome" where
  "merkle_leaves sha index [] = Ok []"
| "merkle_leaves sha index (data # dataSeq) =
     obind (NewMerkleNode sha index index None None (Some data)) (\<lambda>node.
     obind (merkle_leaves sha (index + 1) dataSeq) (\<lambda>nodes. Ok (node # nodes)))"

text \<open>
  One level: a last node without a partner is appended again. The bounds the source computes for
  the copy are assigned to a local variable and reach no node.
\<close>

fun merkle_level :: "(bytes \<Rightarrow> bytes) \<Rightarrow> MerkleNode list \<Rightarrow> MerkleNode list outcome" where
  "merkle_level sha [] = Ok []"
| "merkle_level sha [x] =
     obind (NewMerkleNode sha (ml x) (mr x) (Some x) (Some x) None) (\<lambda>node. Ok [node])"
| "merkle_level sha (x # y # nodes) =
     obind (NewMerkleNode sha (ml x) (mr y) (Some x) (Some y) None) (\<lambda>node.
     obind (merkle_level sha nodes) (\<lambda>newLevel. Ok (node # newLevel)))"

lemma merkle_level_length: "merkle_level sha ns = Ok ns' \<Longrightarrow> length ns' = (length ns + 1) div 2"
  by (induction sha ns arbitrary: ns' rule: merkle_level.induct) auto

text \<open>The outer loop; \<^verbatim>\<open>NewMerkleTree\<close> enters it with at least one node.\<close>

function merkle_loop :: "(bytes \<Rightarrow> bytes) \<Rightarrow> MerkleNode list \<Rightarrow> MerkleNode outcome" where
  "merkle_loop sha nodes =
     (if length nodes \<le> 1 then oindex nodes 0
      else obind (merkle_level sha nodes) (merkle_loop sha))"
  by pat_completeness auto
termination
  by (relation "measure (length \<circ> snd)") (auto dest: merkle_level_length)

declare merkle_loop.simps [simp del]

definition NewMerkleTree :: "(bytes \<Rightarrow> bytes) \<Rightarrow> bytes list \<Rightarrow> MerkleNode outcome" where
  "NewMerkleTree sha dataSeq =
     obind (merkle_leaves sha 0 dataSeq) (\<lambda>nodes.
       if length nodes = 0 then Exit else merkle_loop sha nodes)"

fun path_nodes :: "int \<Rightarrow> MerkleNode \<Rightarrow> MerkleNode list outcome" where
  "path_nodes index (MerkleNode l r left right d) =
     (if l \<noteq> r
      then obind
        (if index < (l + r) sdiv 2
         then (case left of None \<Rightarrow> Panic | Some node \<Rightarrow> path_nodes index node)
         else (case right of None \<Rightarrow> Panic | Some node \<Rightarrow> path_nodes index node))
        (\<lambda>nodes. Ok (MerkleNode l r left right d # nodes))
      else Ok [])"

definition path_entry :: "int \<Rightarrow> MerkleNode \<Rightarrow> MerklePath list outcome" where
  "path_entry index node = (case (mLeft node, mRight node) of
     (Some x, Some y) \<Rightarrow>
       Ok ((if index > mr x then [\<lparr>PathHashValue = mData x, Left = True\<rparr>] else [])
         @ (if index < ml y then [\<lparr>PathHashValue = mData y, Left = False\<rparr>] else []))
   | _ \<Rightarrow> Panic)"

definition FindPath :: "MerkleNode \<Rightarrow> int \<Rightarrow> MerklePath list outcome" where
  "FindPath tree index =
     obind (path_nodes index tree) (\<lambda>nodes.
       ofold (\<lambda>node ret. obind (path_entry index node) (\<lambda>entry. Ok (ret @ entry))) (rev nodes) [])"

definition NewTxnMerkleTree :: "'z json_scheme \<Rightarrow> Transaction list \<Rightarrow> MerkleNode outcome" where
  "NewTxnMerkleTree E txns = NewMerkleTree (sha256 E) (map (marshal_txn E) txns)"

fun block_header_hashes :: "'z json_scheme \<Rightarrow> Block list \<Rightarrow> bytes list outcome" where
  "block_header_hashes E [] = Ok []"
| "block_header_hashes E (b # blocks) =
     obind (BlockHeader_Hash E (BlockHeader.truncate b)) (\<lambda>h.
     obind (block_header_hashes E blocks) (\<lambda>hs. Ok (h # hs)))"

definition NewBlockMerkleTree :: "'z json_scheme \<Rightarrow> Block list \<Rightarrow> MerkleNode outcome" where
  "NewBlockMerkleTree E blocks = obind (block_header_hashes E blocks) (NewMerkleTree (sha256 E))"

section \<open>Building never fails on a list that is not empty\<close>

definition mleaf :: "(bytes \<Rightarrow> bytes) \<Rightarrow> int \<Rightarrow> bytes \<Rightarrow> MerkleNode" where
  "mleaf sha i d = MerkleNode i i None None (sha d)"

definition mnode :: "(bytes \<Rightarrow> bytes) \<Rightarrow> MerkleNode \<Rightarrow> MerkleNode \<Rightarrow> MerkleNode" where
  "mnode sha x y = MerkleNode (ml x) (mr y) (Some x) (Some y) (sha (mData x @ mData y))"

lemma mData_simps [simp]:
  "mData (mleaf sha i d) = sha d" "mData (mnode sha x y) = sha (mData x @ mData y)"
  by (simp_all add: mleaf_def mnode_def)

lemma NewMerkleNode_leaf [simp]: "NewMerkleNode sha i i None None (Some d) = Ok (mleaf sha i d)"
  by (simp add: NewMerkleNode_def mleaf_def)

lemma NewMerkleNode_inner [simp]:
  "NewMerkleNode sha (ml x) (mr y) (Some x) (Some y) None = Ok (mnode sha x y)"
  by (simp add: NewMerkleNode_def mnode_def)

fun leaves_from :: "(bytes \<Rightarrow> bytes) \<Rightarrow> int \<Rightarrow> bytes list \<Rightarrow> MerkleNode list" where
  "leaves_from sha i [] = []"
| "leaves_from sha i (d # ds) = mleaf sha i d # leaves_from sha (i + 1) ds"

fun pair_up :: "(bytes \<Rightarrow> bytes) \<Rightarrow> MerkleNode list \<Rightarrow> MerkleNode list" where
  "pair_up sha [] = []"
| "pair_up sha [x] = [mnode sha x x]"
| "pair_up sha (x # y # ns) = mnode sha x y # pair_up sha ns"

lemma merkle_leaves_eq [simp]: "merkle_leaves sha i ds = Ok (leaves_from sha i ds)"
  by (induction ds arbitrary: i) auto

lemma merkle_level_eq [simp]: "merkle_level sha ns = Ok (pair_up sha ns)"
  by (induction sha ns rule: merkle_level.induct) auto

lemma length_leaves_from [simp]: "length (leaves_from sha i ds) = length ds"
  by (induction ds arbitrary: i) auto

lemma leaves_from_eq_Nil [simp]: "leaves_from sha i ds = [] \<longleftrightarrow> ds = []"
  by (cases ds) auto

lemma length_pair_up [simp]: "length (pair_up sha ns) = (length ns + 1) div 2"
  by (induction sha ns rule: pair_up.induct) auto

lemma leaves_from_append:
  "leaves_from sha i (xs @ ys) = leaves_from sha i xs @ leaves_from sha (i + int (length xs)) ys"
  by (induction xs arbitrary: i) (auto simp: algebra_simps)

lemma merkle_loop_one [simp]: "merkle_loop sha [n] = Ok n"
  by (simp add: merkle_loop.simps oindex_def)

lemma merkle_loop_step: "2 \<le> length ns \<Longrightarrow> merkle_loop sha ns = merkle_loop sha (pair_up sha ns)"
  by (subst merkle_loop.simps) auto

lemma merkle_loop_total: "ns \<noteq> [] \<Longrightarrow> \<exists>t. merkle_loop sha ns = Ok t"
proof (induction "length ns" arbitrary: ns rule: less_induct)
  case less
  show ?case
  proof (cases "length ns = 1")
    case True
    then show ?thesis by (auto simp: length_Suc_conv)
  next
    case False
    with less.prems have two: "2 \<le> length ns" by (cases ns) (auto simp: Suc_le_eq)
    then have "length (pair_up sha ns) < length ns" and "pair_up sha ns \<noteq> []"
      by (auto simp: less_eq_Suc_le [symmetric] length_greater_0_conv [symmetric]
          simp del: length_greater_0_conv)
    with less.hyps two show ?thesis by (simp add: merkle_loop_step)
  qed
qed

lemma NewMerkleTree_eq: "ds \<noteq> [] \<Longrightarrow> NewMerkleTree sha ds = merkle_loop sha (leaves_from sha 0 ds)"
  by (simp add: NewMerkleTree_def)

lemma NewMerkleTree_total: "(\<exists>t. NewMerkleTree sha ds = Ok t) \<longleftrightarrow> ds \<noteq> []"
  using merkle_loop_total [of "leaves_from sha 0 ds" sha]
  by (cases "ds = []") (auto simp: NewMerkleTree_def)

section \<open>Trees over a power of two of leaves\<close>

text \<open>The tree the level-by-level loop builds from \<open>2 ^ k\<close> nodes, described from the root down.\<close>

fun perfect :: "(bytes \<Rightarrow> bytes) \<Rightarrow> nat \<Rightarrow> MerkleNode list \<Rightarrow> MerkleNode" where
  "perfect sha 0 ns = hd ns"
| "perfect sha (Suc k) ns = mnode sha (perfect sha k (take (2 ^ k) ns)) (perfect sha k (drop (2 ^ k) ns))"

lemma pair_up_append: "even (length xs) \<Longrightarrow> pair_up sha (xs @ ys) = pair_up sha xs @ pair_up sha ys"
  by (induction sha xs rule: pair_up.induct) auto

lemma perfect_pair_up:
  "length ns = 2 ^ Suc k \<Longrightarrow> perfect sha (Suc k) ns = perfect sha k (pair_up sha ns)"
proof (induction k arbitrary: ns)
  case 0
  then obtain x y where "ns = [x, y]" by (auto simp: length_Suc_conv numeral_2_eq_2)
  then show ?case by simp
next
  case (Suc k)
  let ?xs = "take (2 ^ Suc k) ns" and ?ys = "drop (2 ^ Suc k) ns"
  have len: "length ?xs = 2 ^ Suc k" "length ?ys = 2 ^ Suc k"
    using Suc.prems by simp_all
  have "pair_up sha ns = pair_up sha (?xs @ ?ys)" by simp
  also have "\<dots> = pair_up sha ?xs @ pair_up sha ?ys"
    by (rule pair_up_append) (simp only: len, simp)
  finally have split: "pair_up sha ns = pair_up sha ?xs @ pair_up sha ?ys" .
  have half: "length (pair_up sha ?xs) = 2 ^ k" by (simp only: length_pair_up len) simp
  have "perfect sha (Suc (Suc k)) ns = mnode sha (perfect sha (Suc k) ?xs) (perfect sha (Suc k) ?ys)"
    by (rule perfect.simps)
  also have "\<dots> = mnode sha (perfect sha k (pair_up sha ?xs)) (perfect sha k (pair_up sha ?ys))"
    by (simp only: Suc.IH [OF len(1)] Suc.IH [OF len(2)])
  also have "\<dots> = perfect sha (Suc k) (pair_up sha ns)"
    using half by (simp add: split)
  finally show ?case .
qed

lemma merkle_loop_perfect: "length ns = 2 ^ k \<Longrightarrow> merkle_loop sha ns = Ok (perfect sha k ns)"
proof (induction k arbitrary: ns)
  case 0
  then show ?case by (auto simp: length_Suc_conv)
next
  case (Suc k)
  then have "merkle_loop sha ns = merkle_loop sha (pair_up sha ns)"
    by (intro merkle_loop_step) simp
  also have "\<dots> = Ok (perfect sha k (pair_up sha ns))"
    using Suc.prems by (intro Suc.IH) simp
  finally show ?case using perfect_pair_up [OF Suc.prems] by simp
qed

lemma perfect_bounds:
  "length ds = 2 ^ k \<Longrightarrow> ml (perfect sha k (leaves_from sha i ds)) = i \<and>
     mr (perfect sha k (leaves_from sha i ds)) = i + 2 ^ k - 1"
proof (induction k arbitrary: i ds)
  case 0
  then show ?case by (auto simp: length_Suc_conv mleaf_def)
next
  case (Suc k)
  let ?xs = "take (2 ^ k) ds" and ?ys = "drop (2 ^ k) ds"
  have len: "length ?xs = 2 ^ k" "length ?ys = 2 ^ k" using Suc.prems by simp_all
  have "leaves_from sha i ds = leaves_from sha i ?xs @ leaves_from sha (i + 2 ^ k) ?ys"
    using leaves_from_append [of sha i ?xs ?ys] len by simp
  with len Suc.IH [OF len(1), of i] Suc.IH [OF len(2), of "i + 2 ^ k"] show ?case
    by (simp add: mnode_def)
qed

section \<open>When a path verifies\<close>

lemma path_step_simps [simp]:
  "path_step sha h \<lparr>PathHashValue = p, Left = True\<rparr> = sha (p @ h)"
  "path_step sha h \<lparr>PathHashValue = p, Left = False\<rparr> = sha (h @ p)"
  by (simp_all add: path_step_def)

lemma FindPath_leaf [simp]: "FindPath (mleaf sha i d) index = Ok []"
  by (simp add: FindPath_def mleaf_def)

lemma FindPath_mnode:
  assumes "ml x \<noteq> mr y"
  shows "FindPath (mnode sha x y) index =
    obind (FindPath (if index < (ml x + mr y) sdiv 2 then x else y) index) (\<lambda>path.
      Ok (path @ (if index > mr x then [\<lparr>PathHashValue = mData x, Left = True\<rparr>] else [])
               @ (if index < ml y then [\<lparr>PathHashValue = mData y, Left = False\<rparr>] else [])))"
proof -
  let ?z = "if index < (ml x + mr y) sdiv 2 then x else y"
  have "path_nodes index (mnode sha x y) = obind (path_nodes index ?z) (\<lambda>ns. Ok (mnode sha x y # ns))"
    using assms by (simp add: mnode_def)
  moreover have "path_entry index (mnode sha x y) =
      Ok ((if index > mr x then [\<lparr>PathHashValue = mData x, Left = True\<rparr>] else [])
        @ (if index < ml y then [\<lparr>PathHashValue = mData y, Left = False\<rparr>] else []))"
    by (simp add: path_entry_def mnode_def)
  ultimately show ?thesis
    by (simp only: FindPath_def obind_assoc obind.simps rev.simps ofold_append ofold_single)
qed

lemma sdiv_2_nonneg: "0 \<le> a \<Longrightarrow> a sdiv 2 = a div (2 :: int)"
  by (cases "a = 0") (simp_all add: signed_divide_int_def)

text \<open>
  In a tree over \<open>2 ^ k\<close> leaves the search takes the wrong turn at the last leaf of a left half. Every
  even index and the last index avoid that leaf at every level.
\<close>

definition good_index :: "nat \<Rightarrow> nat \<Rightarrow> bool" where
  "good_index n i \<longleftrightarrow> i < n \<and> (even i \<or> i = n - 1)"

text \<open>The two halves of a tree over \<open>2 ^ Suc k\<close> leaves.\<close>

lemma perfect_halves:
  fixes sha :: "bytes \<Rightarrow> bytes" and i :: int and ds :: "bytes list" and k :: nat
  assumes "length ds = 2 ^ Suc k"
  defines "x \<equiv> perfect sha k (leaves_from sha i (take (2 ^ k) ds))"
    and "y \<equiv> perfect sha k (leaves_from sha (i + 2 ^ k) (drop (2 ^ k) ds))"
  shows "perfect sha (Suc k) (leaves_from sha i ds) = mnode sha x y"
    and "ml x = i" and "mr x = i + 2 ^ k - 1" and "ml y = i + 2 ^ k" and "mr y = i + 2 * 2 ^ k - 1"
proof -
  let ?xs = "take (2 ^ k) ds" and ?ys = "drop (2 ^ k) ds"
  have len: "length ?xs = 2 ^ k" "length ?ys = 2 ^ k" using assms(1) by simp_all
  have "leaves_from sha i ds = leaves_from sha i ?xs @ leaves_from sha (i + 2 ^ k) ?ys"
    using leaves_from_append [of sha i ?xs ?ys] len by simp
  with len show "perfect sha (Suc k) (leaves_from sha i ds) = mnode sha x y"
    by (simp add: x_def y_def)
  show "ml x = i" "mr x = i + 2 ^ k - 1" "ml y = i + 2 ^ k" "mr y = i + 2 * 2 ^ k - 1"
    using perfect_bounds [OF len(1), of sha i] perfect_bounds [OF len(2), of sha "i + 2 ^ k"]
    by (auto simp: x_def y_def)
qed

text \<open>The search turns left exactly before the last leaf of the left half.\<close>

lemma search_turn: "0 \<le> i \<Longrightarrow> i + int j < (i + (i + 2 * 2 ^ k - 1)) sdiv 2 \<longleftrightarrow> Suc j < 2 ^ k"
proof -
  assume "0 \<le> i"
  moreover have "(1 :: int) \<le> 2 ^ k" by simp
  ultimately have "(i + (i + 2 * 2 ^ k - 1)) sdiv 2 = (i + (i + 2 * 2 ^ k - 1)) div 2"
    by (intro sdiv_2_nonneg) linarith
  also have "\<dots> = i + 2 ^ k - 1" by simp
  finally have "i + int j < (i + (i + 2 * 2 ^ k - 1)) sdiv 2 \<longleftrightarrow> int (Suc j) < int (2 ^ k)" by auto
  then show ?thesis by (simp only: of_nat_less_iff)
qed

lemma int_less_2_power: "int j < 2 ^ k \<longleftrightarrow> j < 2 ^ k"
  by (metis of_nat_less_iff of_nat_numeral of_nat_power)

lemma int_ge_2_power: "2 ^ k - 1 < int j \<longleftrightarrow> 2 ^ k \<le> j"
  using int_less_2_power [of j k] by linarith

lemma twice_neq_1 [simp]: "2 * x \<noteq> (1 :: int)"
  by presburger

lemma FindPath_perfect:
  assumes "length ds = 2 ^ k" and "good_index (2 ^ k) j" and "0 \<le> i"
  shows "\<exists>path. FindPath (perfect sha k (leaves_from sha i ds)) (i + int j) = Ok path \<and>
    foldl (path_step sha) (sha (ds ! j)) path = mData (perfect sha k (leaves_from sha i ds))"
  using assms
proof (induction k arbitrary: i ds j)
  case 0
  then show ?case by (auto simp: length_Suc_conv good_index_def)
next
  case (Suc k)
  let ?xs = "take (2 ^ k) ds" and ?ys = "drop (2 ^ k) ds"
  let ?x = "perfect sha k (leaves_from sha i ?xs)" and ?y = "perfect sha k (leaves_from sha (i + 2 ^ k) ?ys)"
  note tree = perfect_halves [OF Suc.prems(1), of sha i]
  have len: "length ?xs = 2 ^ k" "length ?ys = 2 ^ k" using Suc.prems(1) by simp_all
  have step: "FindPath (mnode sha ?x ?y) (i + int j) =
      obind (FindPath (if Suc j < 2 ^ k then ?x else ?y) (i + int j)) (\<lambda>path.
        Ok (path @ (if 2 ^ k \<le> j then [\<lparr>PathHashValue = mData ?x, Left = True\<rparr>] else [])
                 @ (if j < 2 ^ k then [\<lparr>PathHashValue = mData ?y, Left = False\<rparr>] else [])))"
    using FindPath_mnode [of ?x ?y sha "i + int j"] search_turn [OF Suc.prems(3), of j k]
    by (simp add: tree int_less_2_power int_ge_2_power)
  consider (left) "Suc j < 2 ^ k" | (turn) "Suc j = 2 ^ k" | (right) "2 ^ k \<le> j" by linarith
  then show ?case
  proof cases
    case left
    then have "good_index (2 ^ k) j" using Suc.prems(2) by (auto simp: good_index_def)
    with Suc.IH [OF len(1) _ Suc.prems(3)] obtain path where
        "FindPath ?x (i + int j) = Ok path" "foldl (path_step sha) (sha (?xs ! j)) path = mData ?x"
      by blast
    with left show ?thesis unfolding tree(1) step by simp
  next
    case turn
    have "k = 0"
    proof (rule ccontr)
      assume "k \<noteq> 0"
      then have "even (2 ^ k :: nat)" by simp
      with turn have "odd j" by (metis even_Suc)
      moreover from turn Suc.prems(2) have "even j" by (auto simp: good_index_def)
      ultimately show False by blast
    qed
    with turn have "k = 0 \<and> j = 0" by simp
    with Suc.prems(1) show ?thesis
      unfolding tree(1) step by (auto simp: length_Suc_conv numeral_2_eq_2)
  next
    case right
    then obtain j' where j: "j = 2 ^ k + j'" by (auto simp: le_iff_add)
    have "good_index (2 ^ k) j'" using Suc.prems(2) j by (cases k) (auto simp: good_index_def)
    with Suc.IH [OF len(2), of j' "i + 2 ^ k"] Suc.prems(3) obtain path where
        "FindPath ?y (i + 2 ^ k + int j') = Ok path" "foldl (path_step sha) (sha (?ys ! j')) path = mData ?y"
      by auto
    with Suc.prems(1) show ?thesis unfolding tree(1) step by (simp add: j add.assoc)
  qed
qed

section \<open>The root determines the leaves\<close>

text \<open>The messages one level hashes, the messages the whole construction hashes, and its root digest.\<close>

fun pair_msgs :: "bytes list \<Rightarrow> bytes list" where
  "pair_msgs [] = []"
| "pair_msgs [x] = [x @ x]"
| "pair_msgs (x # y # hs) = (x @ y) # pair_msgs hs"

lemma length_pair_msgs [simp]: "length (pair_msgs hs) = (length hs + 1) div 2"
  by (induction hs rule: pair_msgs.induct) auto

function upper_msgs :: "(bytes \<Rightarrow> bytes) \<Rightarrow> bytes list \<Rightarrow> bytes list" where
  "upper_msgs sha hs = (if length hs \<le> 1 then [] else pair_msgs hs @ upper_msgs sha (map sha (pair_msgs hs)))"
  by pat_completeness auto
termination
  by (relation "measure (length \<circ> snd)") auto

function digest_root :: "(bytes \<Rightarrow> bytes) \<Rightarrow> bytes list \<Rightarrow> bytes" where
  "digest_root sha hs = (if length hs \<le> 1 then hd hs else digest_root sha (map sha (pair_msgs hs)))"
  by pat_completeness auto
termination
  by (relation "measure (length \<circ> snd)") auto

declare upper_msgs.simps [simp del] digest_root.simps [simp del]

definition merkle_msgs :: "(bytes \<Rightarrow> bytes) \<Rightarrow> bytes list \<Rightarrow> bytes set" where
  "merkle_msgs sha ds = set ds \<union> set (upper_msgs sha (map sha ds))"

lemma mData_leaves_from [simp]: "map mData (leaves_from sha i ds) = map sha ds"
  by (induction ds arbitrary: i) auto

lemma mData_pair_up [simp]: "map mData (pair_up sha ns) = map sha (pair_msgs (map mData ns))"
  by (induction sha ns rule: pair_up.induct) auto

lemma merkle_loop_digest: "merkle_loop sha ns = Ok t \<Longrightarrow> mData t = digest_root sha (map mData ns)"
proof (induction sha ns rule: merkle_loop.induct)
  case (1 sha ns)
  show ?case
  proof (cases "length ns \<le> 1")
    case True
    with "1.prems" show ?thesis
      by (cases ns) (auto simp: merkle_loop.simps digest_root.simps oindex_def)
  next
    case False
    with "1.prems" have "merkle_loop sha (pair_up sha ns) = Ok t" by (simp add: merkle_loop_step)
    with 1 False have "mData t = digest_root sha (map mData (pair_up sha ns))" by simp
    with False show ?thesis by (simp add: digest_root.simps [of sha "map mData ns"])
  qed
qed

lemma NewMerkleTree_digest: "NewMerkleTree sha ds = Ok t \<Longrightarrow> mData t = digest_root sha (map sha ds)"
  by (auto simp: NewMerkleTree_def split: if_splits dest: merkle_loop_digest)

lemma pair_msgs_inject:
  "pair_msgs hs = pair_msgs hs' \<Longrightarrow> length hs = length hs' \<Longrightarrow>
     \<forall>h \<in> set hs \<union> set hs'. length h = 32 \<Longrightarrow> hs = hs'"
proof (induction hs arbitrary: hs' rule: pair_msgs.induct)
  case (2 x)
  then obtain y where "hs' = [y]" by (metis length_Cons length_Suc_conv list.size(3) length_0_conv)
  with 2 show ?case by (auto simp: append_eq_append_conv)
next
  case (3 x y hs)
  then obtain x' y' zs where "hs' = x' # y' # zs"
    by (cases hs' rule: pair_msgs.cases) auto
  with 3 show ?case by (auto simp: append_eq_append_conv)
qed (auto simp: length_Suc_conv append_eq_append_conv)

context digest32
begin

lemma digest_root_inject:
  "digest_root sha hs = digest_root sha hs' \<Longrightarrow> length hs = length hs' \<Longrightarrow> hs \<noteq> [] \<Longrightarrow>
     \<forall>h \<in> set hs \<union> set hs'. length h = 32 \<Longrightarrow>
     inj_on sha (set (upper_msgs sha hs) \<union> set (upper_msgs sha hs')) \<Longrightarrow> hs = hs'"
proof (induction "length hs" arbitrary: hs hs' rule: less_induct)
  case less
  show ?case
  proof (cases "length hs \<le> 1")
    case True
    with less.prems(1-3) show ?thesis
      by (cases hs; cases hs') (auto simp: digest_root.simps)
  next
    case False
    let ?up = "\<lambda>hs. map sha (pair_msgs hs)"
    have unfold: "upper_msgs sha hs = pair_msgs hs @ upper_msgs sha (?up hs)"
        "upper_msgs sha hs' = pair_msgs hs' @ upper_msgs sha (?up hs')"
      using False less.prems(2) by (simp_all add: upper_msgs.simps [of sha hs] upper_msgs.simps [of sha hs'])
    have "?up hs = ?up hs'"
    proof (rule less.hyps)
      show "digest_root sha (?up hs) = digest_root sha (?up hs')"
        using less.prems(1,2) False by (simp add: digest_root.simps [of sha hs] digest_root.simps [of sha hs'])
      show "inj_on sha (set (upper_msgs sha (?up hs)) \<union> set (upper_msgs sha (?up hs')))"
        by (rule inj_on_subset [OF less.prems(5)]) (auto simp: unfold)
      show "?up hs \<noteq> []" using False by (cases hs rule: pair_msgs.cases) auto
    qed (use False less.prems(2) in auto)
    moreover have "inj_on sha (set (pair_msgs hs) \<union> set (pair_msgs hs'))"
      by (rule inj_on_subset [OF less.prems(5)]) (auto simp: unfold)
    ultimately have "pair_msgs hs = pair_msgs hs'"
      by (rule map_inj_on)
    from pair_msgs_inject [OF this less.prems(2,4)] show ?thesis .
  qed
qed

lemma merkle_root_inject:
  assumes "NewMerkleTree sha ds = Ok t" and "NewMerkleTree sha ds' = Ok t'" and "mData t = mData t'"
    and "length ds = length ds'" and "inj_on sha (merkle_msgs sha ds \<union> merkle_msgs sha ds')"
  shows "ds = ds'"
proof -
  have "ds \<noteq> []" using assms(1) NewMerkleTree_total [of sha ds] by auto
  then have "map sha ds = map sha ds'"
    using assms NewMerkleTree_digest [OF assms(1)] NewMerkleTree_digest [OF assms(2)]
    by (intro digest_root_inject) (auto simp: merkle_msgs_def intro: inj_on_subset [OF assms(5)])
  moreover have "inj_on sha (set ds \<union> set ds')"
    by (rule inj_on_subset [OF assms(5)]) (auto simp: merkle_msgs_def)
  ultimately show ?thesis by (rule map_inj_on)
qed

end

section \<open>Properties\<close>

text \<open>
  For a list of \<open>2 ^ k\<close> transactions, the path that \<^verbatim>\<open>FindPath\<close> returns for a transaction at an even
  position, or at the last one, passes \<^verbatim>\<open>RelayVerify\<close> against the root of the tree.
\<close>

lemma relay_path_verifies:
  assumes "length txns = 2 ^ k" and "i < length txns" and "even i \<or> i = length txns - 1"
  shows "\<exists>tree path. NewTxnMerkleTree E txns = Ok tree \<and> FindPath tree (int i) = Ok path \<and>
    RelayVerify E (txns ! i) (mData tree) path"
proof -
  let ?ds = "map (marshal_txn E) txns"
  have "txns \<noteq> []" using assms(2) by auto
  then have "NewTxnMerkleTree E txns = Ok (perfect (sha256 E) k (leaves_from (sha256 E) 0 ?ds))"
    using assms(1) by (simp add: NewTxnMerkleTree_def NewMerkleTree_eq merkle_loop_perfect)
  moreover have "good_index (2 ^ k) i" using assms by (auto simp: good_index_def)
  ultimately show ?thesis
    using FindPath_perfect [of ?ds k i 0 "sha256 E"] assms(1,2)
    by (auto simp: RelayVerify_def HashValue_Equal_def Transaction_Hash_def)
qed

text \<open>
  C37: the root of a Merkle tree determines the data below it among lists of the same length, unless
  two of the messages hashed in the two constructions collide.
\<close>

theorem merkle_root_binds:
  assumes "digest32 sha" and "NewMerkleTree sha ds = Ok t" and "NewMerkleTree sha ds' = Ok t'"
    and "mData t = mData t'" and "length ds = length ds'"
    and "inj_on sha (merkle_msgs sha ds \<union> merkle_msgs sha ds')"
  shows "ds = ds'"
  using digest32.merkle_root_inject [OF assms] .

text \<open>
  Lists of different lengths may share a root: an odd list and the same list with its last
  element repeated have the same tree digest.
\<close>

lemma merkle_root_duplicate:
  "\<exists>t t'. NewMerkleTree sha [a, b, c] = Ok t \<and> NewMerkleTree sha [a, b, c, c] = Ok t' \<and> mData t = mData t'"
  by (simp add: NewMerkleTree_eq merkle_loop_step)

text \<open>A digest that can be evaluated: two bytes of the message and its length.\<close>

definition sample_digest :: "bytes \<Rightarrow> bytes" where
  "sample_digest m =
     [if m = [] then 0 else m ! 0, if length m \<le> 32 then 0 else m ! 32, of_nat (length m)] @ replicate 29 0"

interpretation sample: digest32 sample_digest
  by unfold_locales (simp add: sample_digest_def)

lemma hd_sample_digest: "hd (sample_digest m) = (if m = [] then 0 else hd m)"
  by (simp add: sample_digest_def hd_conv_nth)

lemma sample_digest_pair:
  "sample_digest (sample_digest a @ sample_digest b) = [hd (sample_digest a), hd (sample_digest b), 64] @ replicate 29 0"
proof -
  have "(sample_digest a @ sample_digest b) ! 0 = hd (sample_digest a)"
    and "(sample_digest a @ sample_digest b) ! 32 = hd (sample_digest b)"
    using sample.digest_length [of a] by (simp_all add: nth_append hd_conv_nth)
  then show ?thesis by (simp add: sample_digest_def [of "_ @ _"])
qed

lemma sample_digest_eqs:
  "sample_digest [x] = sample_digest [y] \<longleftrightarrow> x = y"
  "sample_digest (sample_digest a @ sample_digest b) = sample_digest (sample_digest c @ sample_digest d) \<longleftrightarrow>
     hd (sample_digest a) = hd (sample_digest c) \<and> hd (sample_digest b) = hd (sample_digest d)"
  "sample_digest [x] \<noteq> sample_digest (sample_digest a @ sample_digest b)"
  "sample_digest (sample_digest a @ sample_digest b) \<noteq> sample_digest [x]"
  "hd (sample_digest [x]) = x"
  "hd (sample_digest (sample_digest a @ sample_digest b)) = hd (sample_digest a)"
  by (simp_all add: sample_digest_pair) (simp_all add: sample_digest_def)

lemma tree_of_four:
  "NewMerkleTree sha [a, b, c, d] =
     Ok (mnode sha (mnode sha (mleaf sha 0 a) (mleaf sha 1 b)) (mnode sha (mleaf sha 2 c) (mleaf sha 3 d)))"
  by (simp add: NewMerkleTree_eq merkle_loop_step)

lemma leaf_mnode_bounds [simp]:
  "ml (mleaf sha i d) = i" "mr (mleaf sha i d) = i" "ml (mnode sha x y) = ml x" "mr (mnode sha x y) = mr y"
  by (simp_all add: mleaf_def mnode_def)

lemma path_one_of_four:
  "FindPath (mnode sha (mnode sha (mleaf sha 0 a) (mleaf sha 1 b)) (mnode sha (mleaf sha 2 c) (mleaf sha 3 d))) 1
     = Ok [\<lparr>PathHashValue = sha d, Left = False\<rparr>, \<lparr>PathHashValue = sha (sha c @ sha d), Left = False\<rparr>]"
  by (simp add: FindPath_mnode sdiv_2_nonneg)

text \<open>
  Among four leaves the path returned for the second one does not verify: \<^verbatim>\<open>FindPath\<close> descends into
  the right half, so the path lacks the digest of the first leaf. This holds for any digest that
  has no collision among the four messages named.
\<close>

lemma path_of_second_leaf_fails:
  assumes "digest32 sha" and "sha a \<noteq> sha b"
    and "inj_on sha {sha a @ sha b, sha b @ sha d, sha (sha a @ sha b) @ sha (sha c @ sha d),
                     sha (sha b @ sha d) @ sha (sha c @ sha d)}"
  shows "\<exists>tree path. NewMerkleTree sha [a, b, c, d] = Ok tree \<and> FindPath tree 1 = Ok path \<and>
    foldl (path_step sha) (sha b) path \<noteq> mData tree"
proof -
  have ne: "sha b @ sha d \<noteq> sha a @ sha b"
    using assms(2) by (simp add: digest32.digest_concat_eq [OF assms(1)])
  have "sha (sha b @ sha d) \<noteq> sha (sha a @ sha b)"
    using inj_onD [OF assms(3), of "sha b @ sha d" "sha a @ sha b"] ne by auto
  then have "sha (sha b @ sha d) @ sha (sha c @ sha d) \<noteq> sha (sha a @ sha b) @ sha (sha c @ sha d)" by simp
  then have "sha (sha (sha b @ sha d) @ sha (sha c @ sha d)) \<noteq> sha (sha (sha a @ sha b) @ sha (sha c @ sha d))"
    using inj_onD [OF assms(3), of "sha (sha b @ sha d) @ sha (sha c @ sha d)"
        "sha (sha a @ sha b) @ sha (sha c @ sha d)"] by auto
  then show ?thesis by (simp add: tree_of_four path_one_of_four)
qed

lemma sample_binds_inj:
  "inj_on sample_digest (merkle_msgs sample_digest [[1], [2]] \<union> merkle_msgs sample_digest [[1], [2]])"
  by (auto simp: merkle_msgs_def upper_msgs.simps sample_digest_eqs)

theorem merkle_root_binds_witness:
  "\<exists>t. NewMerkleTree sample_digest [[1], [2]] = Ok t \<and> [[1], [2 :: byte]] = [[1], [2]]"
proof -
  obtain t where t: "NewMerkleTree sample_digest [[1], [2]] = Ok t"
    using NewMerkleTree_total [of sample_digest "[[1], [2]]"] by auto
  with merkle_root_binds [OF sample.digest32_axioms t t refl refl sample_binds_inj] show ?thesis by blast
qed

end
