(* ===== verification/Mining.thy ===== *)
theory Mining
  imports UTXO_Reindex Merkle
begin

text \<open>
  Proof of work and mining: \<^verbatim>\<open>core/proof_of_work.go\<close>, \<^verbatim>\<open>NewCoinbaseTxn\<close> of \<^verbatim>\<open>core/transaction.go\<close>, and
  \<^verbatim>\<open>CreateBlockchain\<close>, \<^verbatim>\<open>MineBlocksForCreate\<close> and \<^verbatim>\<open>MineBlocks\<close> of \<^verbatim>\<open>core/blockchain.go\<close>. Random numbers, the clock and what other goroutines
  do to the node during the search are arguments.
\<close>

section \<open>Coinbase transactions\<close>

text \<open>The 32 bytes that \<^verbatim>\<open>rand.Int\<close> gives are the argument \<open>randData\<close>.\<close>

definition NewCoinbaseTxn :: "bytes \<Rightarrow> bytes \<Rightarrow> Transaction outcome" where
  "NewCoinbaseTxn randData from =
     obind (NewTxnOutput from 50000000) (\<lambda>out.
       Ok \<lparr>Vin = [\<lparr>VoutHash = [], VoutIndex = -1, VoutValue = 50000000, Signature = [], PubKey = randData\<rparr>],
           Vout = [out]\<rparr>)"

section \<open>Proof of work\<close>

definition MaxInt64 :: int where
  "MaxInt64 = 2 ^ 63 - 1"

record PoweredStruct =
  batchMerkleRoot :: HashValue
  ps_GroupBase :: int
  ps_BatchSize :: int
  ps_Nonce :: int

record ProofOfWork =
  pow_blocks :: "Block list"
  pow_target :: int
  batchMerkleTree :: MerkleNode
  poweredStruct :: PoweredStruct

text \<open>\<open>rnd\<close> is the number that \<^verbatim>\<open>rand.Int63\<close> gives.\<close>

definition NewPOW :: "'z json_scheme \<Rightarrow> int \<Rightarrow> Block list \<Rightarrow> ProofOfWork outcome" where
  "NewPOW E rnd blocks =
     obind (oindex blocks 0) (\<lambda>first.
     obind (GetTarget (fold (\<lambda>b minTarget. if f64_greater minTarget (Target b) then Target b else minTarget) blocks MaxFloat64)) (\<lambda>target.
     obind (NewBlockMerkleTree E blocks) (\<lambda>tree.
       Ok \<lparr>pow_blocks = blocks, pow_target = target, batchMerkleTree = tree,
           poweredStruct = \<lparr>batchMerkleRoot = mData tree, ps_GroupBase = Group first,
             ps_BatchSize = int (length blocks), ps_Nonce = rnd\<rparr>\<rparr>)))"

definition prepareData :: "PoweredStruct \<Rightarrow> bytes" where
  "prepareData p =
     batchMerkleRoot p @ BaseTypeToBytes (BInt (ps_GroupBase p)) @ BaseTypeToBytes (BInt (ps_BatchSize p))
       @ BaseTypeToBytes (BInt64 (ps_Nonce p))"

definition Validate :: "'z crypto_scheme \<Rightarrow> ProofOfWork \<Rightarrow> int \<Rightarrow> bool" where
  "Validate E pow nonce \<longleftrightarrow>
     int (SetBytes (sha256 E (prepareData ((poweredStruct pow)\<lparr>ps_Nonce := nonce\<rparr>)))) < pow_target pow"

text \<open>The test at the head of every attempt: the chains of all blocks still end below them.\<close>

fun heights_same :: "('k, 'z) env_scheme \<Rightarrow> Block list \<Rightarrow> 'k node \<Rightarrow> (bool \<times> 'k node) outcome" where
  "heights_same E [] s = Ok (True, s)"
| "heights_same E (b # blocks) s =
     obind (GetBlockchain E (Group b)) (\<lambda>g.
     obind (GetHeight E g s) (\<lambda>(h, s).
       if h \<noteq> i32 (Height b - 1) then Ok (False, s) else heights_same E blocks s))"

text \<open>
  The pause after \<^verbatim>\<open>hashSpeed*3e4\<close> attempts has no effect on the state, but its test divides by that product,
  computed in 64 bits.
\<close>

definition pause_every :: "nat \<Rightarrow> int" where
  "pause_every hashSpeed = i64 (int (hashSpeed * 30000))"

datatype mine_error = ErrBlockchainChange | NoLastest int

text \<open>
  Other goroutines change the node while the miner runs: \<open>world nonce\<close> is what they have done to the state when
  \<open>nonce\<close> is tried.
\<close>

function Run_loop ::
  "('k, 'z) env_scheme \<Rightarrow> (int \<Rightarrow> 'k node \<Rightarrow> 'k node) \<Rightarrow> nat \<Rightarrow> ProofOfWork \<Rightarrow> int \<Rightarrow> 'k node \<Rightarrow>
   ((mine_error + int) \<times> 'k node) outcome" where
  "Run_loop E world hashSpeed pow nonce s =
     (if MaxInt64 \<le> nonce then Ok (Inr nonce, s)
      else obind (heights_same E (pow_blocks pow) (world nonce s)) (\<lambda>(same, s).
        if \<not> same then Ok (Inl ErrBlockchainChange, s)
        else if Validate E pow nonce then Ok (Inr nonce, s)
        else if pause_every hashSpeed = 0 then Panic
        else Run_loop E world hashSpeed pow (nonce + 1) s))"
  by pat_completeness auto
termination
  by (relation "measure (\<lambda>(E, world, hashSpeed, pow, nonce, s). nat (MaxInt64 - nonce))") auto

declare Run_loop.simps [simp del]

definition Run ::
  "('k, 'z) env_scheme \<Rightarrow> (int \<Rightarrow> 'k node \<Rightarrow> 'k node) \<Rightarrow> nat \<Rightarrow> ProofOfWork \<Rightarrow> 'k node \<Rightarrow>
   ((mine_error + int) \<times> 'k node) outcome" where
  "Run E world hashSpeed pow s = Run_loop E world hashSpeed pow (ps_Nonce (poweredStruct pow)) s"

section \<open>Mining\<close>

text \<open>What a miner draws from outside: random numbers, the clock, its speed, and the other goroutines.\<close>

record 'k miner =
  mine_rnd :: int
  mine_now :: "nat \<Rightarrow> int"
  mine_speed :: nat
  mine_world :: "int \<Rightarrow> 'k node \<Rightarrow> 'k node"

definition MineBlocksForCreate ::
  "('k, 'z) env_scheme \<Rightarrow> 'k miner \<Rightarrow> Transaction \<Rightarrow> int \<Rightarrow> 'k node \<Rightarrow> ((mine_error + Block) \<times> 'k node) outcome" where
  "MineBlocksForCreate E M txn groupBase s =
     obind (NewTxnMerkleTree E [txn]) (\<lambda>tree.
       let b = \<lparr>Group = groupBase, Height = 0, PrevHash = [], Timestamp = mine_now M 0, MerkleRoot = mData tree,
             Target = Fin 1, GroupBase = groupBase, BatchSize = 1, BatchMerklePath = [], Nonce = 0, Txns = [txn]\<rparr>
       in obind (NewPOW E (mine_rnd M) [b]) (\<lambda>pow.
          obind (Run E (mine_world M) (mine_speed M) pow s) (\<lambda>(r, s).
            Ok (case r of Inl err \<Rightarrow> Inl err | Inr nonce \<Rightarrow> Inr (b\<lparr>Nonce := nonce\<rparr>), s))))"

definition CreateBlockchain ::
  "('k, 'z) env_scheme \<Rightarrow> 'k miner \<Rightarrow> bytes \<Rightarrow> bytes \<Rightarrow> 'k node \<Rightarrow> (mine_error option \<times> 'k node) outcome" where
  "CreateBlockchain E M randData minerAddress s =
     obind (GetGroup E) (\<lambda>g.
     obind (GetBlockchain E g) (\<lambda>bc.
     obind (NewCoinbaseTxn randData minerAddress) (\<lambda>txn.
     obind (MineBlocksForCreate E M txn g s) (\<lambda>(r, s).
       case r of Inl err \<Rightarrow> Ok (Some err, s)
       | Inr block \<Rightarrow>
           obind (AddBlock E bc (Some block) (node_Clear E Blocks bc s)) (\<lambda>s.
           obind (GetUTXOSet E g) (\<lambda>us.
           obind (Reindex E us s) (\<lambda>s.
           obind (TxnReindex E bc s) (\<lambda>s. Ok (None, s)))))))))"

text \<open>
  The difficulty of the next block: every thirtieth block it is scaled by the time the last 29 took, measured
  against 30 seconds each.
\<close>

definition next_target :: "('k, 'z) env_scheme \<Rightarrow> int \<Rightarrow> Block \<Rightarrow> 'k node \<Rightarrow> float64 outcome" where
  "next_target E bc lastest s =
     (if gomod (Height lastest) 30 = 0
      then obind (GetBlockByHeight E bc (i32 (Height lastest - 29)) s) (\<lambda>prevRecalcBlock.
        Ok (case prevRecalcBlock of None \<Rightarrow> Target lastest
            | Some p \<Rightarrow> f64_mul (Target lastest)
                (f64_div (Fin 870000000000) (f64_of_int (i64 (Timestamp lastest - Timestamp p))))))
      else Ok (Target lastest))"

text \<open>The first loop of \<^verbatim>\<open>MineBlocks\<close> from round \<open>i\<close> on, with \<open>n\<close> rounds left.\<close>

fun make_blocks ::
  "('k, 'z) env_scheme \<Rightarrow> 'k miner \<Rightarrow> Transaction list list \<Rightarrow> int \<Rightarrow> int \<Rightarrow> nat \<Rightarrow> nat \<Rightarrow> 'k node \<Rightarrow>
   (mine_error + Block list) outcome" where
  "make_blocks E M txns groupBase batchSize i 0 s = Ok (Inr [])"
| "make_blocks E M txns groupBase batchSize i (Suc n) s =
     obind (GetBlockchain E (groupBase + int i)) (\<lambda>bc.
     obind (GetLastest E bc s) (\<lambda>r.
       case r of None \<Rightarrow> Ok (Inl (NoLastest bc))
       | Some lastest \<Rightarrow>
           obind (next_target E bc lastest s) (\<lambda>target.
           obind (Block_Hash E lastest) (\<lambda>prev.
           obind (oindex txns (int i)) (\<lambda>ts.
           obind (NewTxnMerkleTree E ts) (\<lambda>tree.
           obind (make_blocks E M txns groupBase batchSize (Suc i) n s) (\<lambda>rest.
             Ok (case rest of Inl err \<Rightarrow> Inl err
                 | Inr bs \<Rightarrow> Inr (\<lparr>Group = bc, Height = i32 (Height lastest + 1), PrevHash = prev, Timestamp = mine_now M i,
                     MerkleRoot = mData tree, Target = target, GroupBase = groupBase, BatchSize = batchSize,
                     BatchMerklePath = [], Nonce = 0, Txns = ts\<rparr> # bs)))))))))"

text \<open>The last loop: the nonce and the path are entered into every block, and the blocks that verify are kept.\<close>

fun found_blocks :: "('k, 'z) env_scheme \<Rightarrow> MerkleNode \<Rightarrow> int \<Rightarrow> Block list \<Rightarrow> Block list outcome" where
  "found_blocks E tree nonce [] = Ok []"
| "found_blocks E tree nonce (b # blocks) =
     obind (group_mod E (Group b + MaxGroupNum E - GroupBase b)) (\<lambda>index.
     obind (FindPath tree index) (\<lambda>path.
       let b = b\<lparr>Nonce := nonce, BatchMerklePath := path\<rparr>
       in obind (Block_Verify E b) (\<lambda>ok.
          obind (found_blocks E tree nonce blocks) (\<lambda>found. Ok (if ok then b # found else found)))))"

definition MineBlocks ::
  "('k, 'z) env_scheme \<Rightarrow> 'k miner \<Rightarrow> Transaction list list \<Rightarrow> int \<Rightarrow> int \<Rightarrow> 'k node \<Rightarrow>
   ((mine_error + Block list) \<times> 'k node) outcome" where
  "MineBlocks E M txns groupBase batchSize s =
     obind (make_blocks E M txns groupBase batchSize 0 (nat batchSize) s) (\<lambda>r.
       case r of Inl err \<Rightarrow> Ok (Inl err, s)
       | Inr blocks \<Rightarrow>
           obind (NewPOW E (mine_rnd M) blocks) (\<lambda>pow.
           obind (Run E (mine_world M) (mine_speed M) pow s) (\<lambda>(r, s).
             case r of Inl err \<Rightarrow> Ok (Inl err, s)
             | Inr nonce \<Rightarrow> obind (found_blocks E (batchMerkleTree pow) nonce blocks) (\<lambda>found. Ok (Inr found, s)))))"

section \<open>The search for a nonce\<close>

text \<open>The search can only wait forever when the bytes of the newest block of a chain cannot be decoded.\<close>

definition undecodable :: "('k, 'z) env_scheme \<Rightarrow> 'k dbs \<Rightarrow> bool" where
  "undecodable E dbs \<longleftrightarrow> (\<exists>g bytes. db_Get E Blocks g lastest_key dbs = Some bytes \<and> snd (unmarshal_block E bytes))"

lemma obind_Hang: "obind m f = Hang \<longleftrightarrow> m = Hang \<or> (\<exists>x. m = Ok x \<and> f x = Hang)"
  by (cases m) auto

lemma GetHeight_returns: "GetHeight E g s = Hang \<Longrightarrow> undecodable E (node_dbs s)"
  unfolding undecodable_def
  by (rule exI [of _ g]) (auto simp: GetHeight_def GetLastest_def BytesToBlock_def obind_Hang node_Get_def split: if_splits option.splits prod.splits)

lemma GetHeight_dbs: "GetHeight E g s = Ok (h, s') \<Longrightarrow> node_dbs s' = node_dbs s"
  by (auto simp: GetHeight_def split: if_splits)

lemma heights_same_returns: "heights_same E bs s = Hang \<Longrightarrow> undecodable E (node_dbs s)"
proof (induction bs arbitrary: s)
  case (Cons b bs)
  then show ?case using GetHeight_returns GetHeight_dbs [of E _ s]
    by (auto simp: GetBlockchain_def group_mod_def obind_Hang split: if_splits) metis+
qed simp

lemma Run_loop_returns:
  "Run_loop E world speed pow nonce s = Hang \<Longrightarrow> \<exists>n t. nonce \<le> n \<and> n < MaxInt64 \<and> undecodable E (node_dbs (world n t))"
proof (induction E world speed pow nonce s rule: Run_loop.induct)
  case (1 E world speed pow nonce s)
  show ?case
  proof (cases "MaxInt64 \<le> nonce")
    case True
    then show ?thesis using "1.prems" by (simp add: Run_loop.simps)
  next
    case False
    show ?thesis
    proof (cases "heights_same E (pow_blocks pow) (world nonce s) = Hang")
      case True
      then show ?thesis using heights_same_returns False by (intro exI [of _ nonce] exI [of _ s]) auto
    next
      case go: False
      then obtain same t where t: "heights_same E (pow_blocks pow) (world nonce s) = Ok (same, t)"
        using "1.prems" False by (subst (asm) Run_loop.simps) (auto simp: obind_Hang)
      then have "Run_loop E world speed pow (nonce + 1) t = Hang \<and> same \<and> \<not> Validate E pow nonce \<and> pause_every speed \<noteq> 0"
        using "1.prems" False by (subst (asm) Run_loop.simps) (auto split: if_splits)
      then obtain n u where "nonce + 1 \<le> n" "n < MaxInt64" "undecodable E (node_dbs (world n u))" using "1.IH" [OF False t refl] by auto
      then show ?thesis by (intro exI [of _ n] exI [of _ u]) simp
    qed
  qed
qed

lemma Run_loop_result:
  "Run_loop E world speed pow nonce s = Ok (r, s') \<Longrightarrow>
    (case r of
       Inr n \<Rightarrow> nonce \<le> n \<and> n \<le> max nonce MaxInt64 \<and> (n < MaxInt64 \<longrightarrow> Validate E pow n) \<and>
         (\<forall>i. nonce \<le> i \<longrightarrow> i < n \<longrightarrow> \<not> Validate E pow i)
     | Inl err \<Rightarrow> err = ErrBlockchainChange \<and>
         (\<exists>n t. nonce \<le> n \<and> n < MaxInt64 \<and> heights_same E (pow_blocks pow) (world n t) = Ok (False, s')))"
proof (induction E world speed pow nonce s rule: Run_loop.induct)
  case (1 E world speed pow nonce s)
  show ?case
  proof (cases "MaxInt64 \<le> nonce")
    case True
    then show ?thesis using "1.prems" by (subst (asm) Run_loop.simps) auto
  next
    case False
    obtain same t where h: "heights_same E (pow_blocks pow) (world nonce s) = Ok (same, t)"
      using "1.prems" False by (subst (asm) Run_loop.simps) auto
    show ?thesis
    proof (cases "same \<and> \<not> Validate E pow nonce")
      case True
      then have rest: "Run_loop E world speed pow (nonce + 1) t = Ok (r, s')" "pause_every speed \<noteq> 0"
        using "1.prems" False h by (auto simp: Run_loop.simps [of E world speed pow nonce s] split: if_splits)
      have ih: "case r of
         Inr n \<Rightarrow> nonce + 1 \<le> n \<and> n \<le> max (nonce + 1) MaxInt64 \<and> (n < MaxInt64 \<longrightarrow> Validate E pow n) \<and>
           (\<forall>i. nonce + 1 \<le> i \<longrightarrow> i < n \<longrightarrow> \<not> Validate E pow i)
       | Inl err \<Rightarrow> err = ErrBlockchainChange \<and>
           (\<exists>n t. nonce + 1 \<le> n \<and> n < MaxInt64 \<and> heights_same E (pow_blocks pow) (world n t) = Ok (False, s'))"
        by (rule "1.IH" [OF False h refl _ _ _ rest(1)]) (use True rest(2) in auto)
      show ?thesis
      proof (cases r)
        case (Inl err)
        with ih obtain n t where "err = ErrBlockchainChange" "nonce + 1 \<le> n" "n < MaxInt64"
            "heights_same E (pow_blocks pow) (world n t) = Ok (False, s')" by auto
        then show ?thesis using Inl by (auto intro!: exI [of _ n] exI [of _ t])
      next
        case (Inr n)
        have "\<not> Validate E pow j" if "nonce \<le> j" "j < n" for j
          using ih Inr True that by (cases "j = nonce") auto
        then show ?thesis using ih Inr False by auto
      qed
    next
      case stop: False
      then show ?thesis using "1.prems" False h by (subst (asm) Run_loop.simps) (auto split: if_splits intro!: exI [of _ nonce] exI [of _ s])
    qed
  qed
qed

section \<open>The hash of a batch\<close>

lemma path_header [simp]: "BlockHeader.truncate (b\<lparr>Nonce := n, BatchMerklePath := p\<rparr>) = BlockHeader.truncate b"
  by (simp add: BlockHeader.truncate_def)

lemma block_header_hashes_nth:
  "block_header_hashes E bs = Ok hs \<Longrightarrow> length hs = length bs \<and>
     (\<forall>i < length bs. BlockHeader_Hash E (BlockHeader.truncate (bs ! i)) = Ok (hs ! i))"
proof (induction bs arbitrary: hs)
  case (Cons b bs)
  then show ?case by (auto simp: nth_Cons split: nat.splits)
qed simp

text \<open>Every block of a full batch at an even position, once completed, has the hash that the proof of work tests.\<close>

lemma completed_hash:
  assumes "NewPOW E rnd blocks = Ok pow" and "length blocks = 2 ^ k" and "i < 2 ^ k" and "even i"
    and "GroupBase (blocks ! i) = Group (hd blocks)" and "BatchSize (blocks ! i) = 2 ^ k"
  shows "\<exists>path. FindPath (batchMerkleTree pow) (int i) = Ok path \<and>
    Block_Hash E ((blocks ! i)\<lparr>Nonce := nonce, BatchMerklePath := path\<rparr>) =
      Ok (sha256 E (prepareData ((poweredStruct pow)\<lparr>ps_Nonce := nonce\<rparr>)))"
proof -
  have "blocks \<noteq> []" using assms(2,3) by auto
  obtain target tree where pow: "NewBlockMerkleTree E blocks = Ok tree"
      "pow = \<lparr>pow_blocks = blocks, pow_target = target, batchMerkleTree = tree,
           poweredStruct = \<lparr>batchMerkleRoot = mData tree, ps_GroupBase = Group (hd blocks),
             ps_BatchSize = int (length blocks), ps_Nonce = rnd\<rparr>\<rparr>"
    using assms(1) \<open>blocks \<noteq> []\<close> by (auto simp: NewPOW_def oindex_def hd_conv_nth)
  obtain hs where hs: "block_header_hashes E blocks = Ok hs" "NewMerkleTree (sha256 E) hs = Ok tree"
    using pow(1) by (auto simp: NewBlockMerkleTree_def)
  note nth = block_header_hashes_nth [OF hs(1)]
  have "hs \<noteq> []" using nth \<open>blocks \<noteq> []\<close> by auto
  then have tree: "tree = perfect (sha256 E) k (leaves_from (sha256 E) 0 hs)"
    using hs(2) nth assms(2) by (simp add: NewMerkleTree_eq merkle_loop_perfect)
  have "good_index (2 ^ k) i" using assms(3,4) by (auto simp: good_index_def)
  then obtain path where path: "FindPath tree (int i) = Ok path"
      "foldl (path_step (sha256 E)) (sha256 E (hs ! i)) path = mData tree"
    using FindPath_perfect [of hs k i 0 "sha256 E"] nth assms(2) tree by auto
  have "BlockHeader_Hash E (BlockHeader.truncate (blocks ! i)) = Ok (hs ! i)" using nth assms(2,3) by simp
  then show ?thesis
    using path assms(2,5,6) by (auto simp: pow(2) Block_Hash_def prepareData_def Let_def)
qed

text \<open>The smallest difficulty decides.\<close>

definition difficulty :: "Block \<Rightarrow> rat" where
  "difficulty b = (case Target b of Fin q \<Rightarrow> q | _ \<Rightarrow> 0)"

definition mineable :: "Block \<Rightarrow> bool" where
  "mineable b \<longleftrightarrow> (\<exists>q. Target b = Fin q \<and> 1 \<le> q \<and> q \<le> (2 ^ 53 - 1) * 2 ^ 971)"

lemma min_target:
  assumes "\<forall>b \<in> set bs. mineable b" and "\<exists>b \<in> set bs. difficulty b = q \<or> q0 = q"
    and "q \<le> q0" and "\<forall>b \<in> set bs. q \<le> difficulty b" and "q0 = q \<or> (\<exists>b \<in> set bs. difficulty b = q)"
  shows "fold (\<lambda>b minTarget. if f64_greater minTarget (Target b) then Target b else minTarget) bs (Fin q0) = Fin q"
  using assms(1,3-5)
proof (induction bs arbitrary: q0)
  case (Cons b bs)
  obtain p where p: "Target b = Fin p" using Cons.prems(1) by (auto simp: mineable_def)
  have step: "(if f64_greater (Fin q0) (Target b) then Target b else Fin q0) = Fin (min q0 p)" by (simp add: p min_def)
  have "q \<le> p" using Cons.prems(3) p by (simp add: difficulty_def)
  moreover have "min q0 p = q \<or> (\<exists>b \<in> set bs. difficulty b = q)"
    using Cons.prems(2,4) \<open>q \<le> p\<close> p by (auto simp: difficulty_def min_def)
  ultimately show ?case using Cons.IH [of "min q0 p"] Cons.prems by (simp add: step)
qed auto

lemma GetTarget_pos: "1 \<le> q \<Longrightarrow> GetTarget (Fin q) = Ok (2 ^ 256 div \<lfloor>q\<rfloor>)"
  by (simp add: GetTarget_def truncate_rat_def)

lemma pow_target_eq:
  assumes "NewPOW E rnd blocks = Ok pow" and "\<forall>b \<in> set blocks. mineable b" and "b \<in> set blocks"
    and "\<forall>b' \<in> set blocks. difficulty b \<le> difficulty b'"
  shows "GetTarget (Target b) = Ok (pow_target pow)"
proof -
  obtain q where q: "Target b = Fin q" "1 \<le> q" "q \<le> (2 ^ 53 - 1) * 2 ^ 971" using assms(2,3) by (auto simp: mineable_def)
  have "fold (\<lambda>b minTarget. if f64_greater minTarget (Target b) then Target b else minTarget) blocks MaxFloat64 = Fin q"
    unfolding MaxFloat64_def using assms(2-4) q by (intro min_target) (auto simp: difficulty_def intro: bexI [of _ b])
  then show ?thesis using assms(1) q(1) by (auto simp: NewPOW_def)
qed

section \<open>The blocks of a batch\<close>

definition candidate_of :: "('k, 'z) env_scheme \<Rightarrow> 'k node \<Rightarrow> int \<Rightarrow> int \<Rightarrow> int \<Rightarrow> Block \<Rightarrow> bool" where
  "candidate_of E s bc groupBase batchSize b \<longleftrightarrow>
     (\<exists>lastest tree. GetLastest E bc s = Ok (Some lastest) \<and> Group b = bc \<and> Height b = i32 (Height lastest + 1) \<and>
        Block_Hash E lastest = Ok (PrevHash b) \<and> next_target E bc lastest s = Ok (Target b) \<and>
        NewTxnMerkleTree E (Txns b) = Ok tree \<and> MerkleRoot b = mData tree \<and>
        GroupBase b = groupBase \<and> BatchSize b = batchSize \<and> Nonce b = 0 \<and> BatchMerklePath b = [])"

lemma error_or_result:
  "(case r of Inl e \<Rightarrow> Inl e | Inr x \<Rightarrow> Inr (f x)) = Inr y \<longleftrightarrow> (\<exists>x. r = Inr x \<and> y = f x)"
  "(case r of Inl e \<Rightarrow> Ok (Inl e, t) | Inr x \<Rightarrow> F x) = Ok (Inr z, t') \<longleftrightarrow> (\<exists>x. r = Inr x \<and> F x = Ok (Inr z, t'))"
  by (auto split: sum.splits)

lemma make_blocks_candidates:
  assumes "make_blocks E M txns groupBase batchSize i n s = Ok (Inr blocks)"
  shows "length blocks = n \<and> (\<forall>j < n. oindex txns (int (i + j)) = Ok (Txns (blocks ! j)) \<and>
    (\<exists>bc. GetBlockchain E (groupBase + int (i + j)) = Ok bc \<and> candidate_of E s bc groupBase batchSize (blocks ! j)))"
  using assms
proof (induction n arbitrary: i blocks)
  case (Suc n)
  obtain bc lastest target prev ts tree rest where h:
    "GetBlockchain E (groupBase + int i) = Ok bc" "GetLastest E bc s = Ok (Some lastest)"
    "next_target E bc lastest s = Ok target" "Block_Hash E lastest = Ok prev" "oindex txns (int i) = Ok ts"
    "NewTxnMerkleTree E ts = Ok tree" "make_blocks E M txns groupBase batchSize (Suc i) n s = Ok (Inr rest)"
    "blocks = \<lparr>Group = bc, Height = i32 (Height lastest + 1), PrevHash = prev, Timestamp = mine_now M i,
       MerkleRoot = mData tree, Target = target, GroupBase = groupBase, BatchSize = batchSize,
       BatchMerklePath = [], Nonce = 0, Txns = ts\<rparr> # rest"
    using Suc.prems by (auto simp: error_or_result split: option.splits)
  have "candidate_of E s bc groupBase batchSize (blocks ! 0)" "Txns (blocks ! 0) = ts"
    using h by (simp_all add: candidate_of_def)
  moreover have "length rest = n" "blocks ! Suc j = rest ! j" "i + Suc j = Suc i + j" for j
    using Suc.IH [OF h(7)] h(8) by simp_all
  ultimately show ?case
    using Suc.IH [OF h(7)] h(1,5,8) by (simp only: All_less_Suc2 add_0_right) simp
qed simp

lemma found_blocks_set:
  assumes "found_blocks E tree nonce blocks = Ok found"
  shows "set found = {b'. \<exists>b \<in> set blocks. \<exists>index path. group_mod E (Group b + MaxGroupNum E - GroupBase b) = Ok index \<and>
    FindPath tree index = Ok path \<and> b' = b\<lparr>Nonce := nonce, BatchMerklePath := path\<rparr> \<and> Block_Verify E b' = Ok True}"
  using assms
proof (induction blocks arbitrary: found)
  case (Cons b blocks)
  obtain index path ok rest where h: "group_mod E (Group b + MaxGroupNum E - GroupBase b) = Ok index"
      "FindPath tree index = Ok path" "Block_Verify E (b\<lparr>Nonce := nonce, BatchMerklePath := path\<rparr>) = Ok ok"
      "found_blocks E tree nonce blocks = Ok rest"
      "found = (if ok then b\<lparr>Nonce := nonce, BatchMerklePath := path\<rparr> # rest else rest)"
    using Cons.prems by (auto simp: Let_def)
  show ?case unfolding h(5) using h(1-3) Cons.IH [OF h(4)] by auto
qed simp

lemma batch_index:
  assumes "0 \<le> g" and "g < m" and "int i < m"
  shows "gomod (gomod (g + int i) m + m - g) m = int i"
proof -
  have "0 \<le> (g + int i) mod m" using assms by simp
  then have "0 \<le> (g + int i) mod m + m - g" using assms(2) by linarith
  then have "gomod (gomod (g + int i) m + m - g) m = ((g + int i) mod m + m - g) mod m"
    using assms by simp
  also have "\<dots> = (g + int i + m - g) mod m" by (metis add_diff_eq mod_add_left_eq)
  also have "\<dots> = int i" using assms by simp
  finally show ?thesis .
qed

section \<open>Properties\<close>

text \<open>
  C14: the search for a nonce ends whatever the rest of the node does meanwhile, unless this leaves a newest block that cannot be decoded, at
  which \<^verbatim>\<open>BytesToBlock\<close> waits for the log. The search returns the first
  nonce from its start on that meets the target, or \<^verbatim>\<open>math.MaxInt64\<close> when there is none. It reports a changed blockchain only
  when a chain no longer ends right below a block that is being mined.
\<close>

theorem Run_finds_first_nonce:
  "(Run E world hashSpeed pow s = Hang \<longrightarrow> (\<exists>n t. ps_Nonce (poweredStruct pow) \<le> n \<and> n < MaxInt64 \<and> undecodable E (node_dbs (world n t)))) \<and>
   (\<forall>r s'. Run E world hashSpeed pow s = Ok (r, s') \<longrightarrow>
     (case r of
        Inr n \<Rightarrow> ps_Nonce (poweredStruct pow) \<le> n \<and> n \<le> max (ps_Nonce (poweredStruct pow)) MaxInt64 \<and>
          (n < MaxInt64 \<longrightarrow> Validate E pow n) \<and>
          (\<forall>i. ps_Nonce (poweredStruct pow) \<le> i \<longrightarrow> i < n \<longrightarrow> \<not> Validate E pow i)
      | Inl err \<Rightarrow> err = ErrBlockchainChange \<and>
          (\<exists>n t. ps_Nonce (poweredStruct pow) \<le> n \<and> n < MaxInt64 \<and>
             heights_same E (pow_blocks pow) (world n t) = Ok (False, s'))))"
  unfolding Run_def using Run_loop_returns Run_loop_result by blast

lemma nat_power_of_2: "nat (2 ^ k) = 2 ^ k"
  by (simp add: nat_power_eq)


section \<open>Mining on one chain\<close>

text \<open>What the rest of the node has to leave alone while a block for the chain \<open>bs\<close> of group \<open>g\<close> is mined.\<close>

definition ready :: "('k, 'z) env_scheme \<Rightarrow> int \<Rightarrow> Block list \<Rightarrow> 'k node \<Rightarrow> bool" where
  "ready E g bs s \<longleftrightarrow> chain_ok E g bs s \<and> heads_ok E g s \<and> pool_ok E (mempools s g)"

definition next_block :: "'z json_scheme \<Rightarrow> 'k miner \<Rightarrow> int \<Rightarrow> Block list \<Rightarrow> Transaction list \<Rightarrow> HashValue \<Rightarrow> rat \<Rightarrow> Block" where
  "next_block E M g bs ts merkle q = \<lparr>Group = g, Height = int (length bs), PrevHash = tip_hash E [] bs, Timestamp = mine_now M 0,
     MerkleRoot = merkle, Target = Fin q, GroupBase = g, BatchSize = 1, BatchMerklePath = [], Nonce = 0, Txns = ts\<rparr>"

context node_env
begin

lemma GetHeight_ready:
  assumes "ready E g bs s"
  shows "\<exists>s'. GetHeight E g s = Ok (int (length bs) - 1, s') \<and> ready E g bs s'"
proof -
  obtain s' where s': "GetHeight E g s = Ok (int (length bs) - 1, s')" "chain_ok E g bs s'" "node_dbs s' = node_dbs s"
      "mempools s' = mempools s"
    using GetHeight_chain assms by (metis ready_def)
  then show ?thesis using assms by (auto simp: ready_def heads_ok_def node_Get_def)
qed

lemma own_group: "0 \<le> g \<Longrightarrow> g < MaxGroupNum E \<Longrightarrow> GetBlockchain E g = Ok g"
  by (simp add: GetBlockchain_def group_mod_ok)

text \<open>
  \<open>kept\<close> is what the rest of the node leaves alone during the search, at least that the chain is there; reading the
  height keeps it too.
\<close>

lemma heights_same_kept:
  assumes kept: "kept s" "\<And>t. kept t \<Longrightarrow> ready E g bs t" "\<And>t h t'. kept t \<Longrightarrow> GetHeight E g t = Ok (h, t') \<Longrightarrow> kept t'"
    and b: "Group b = g" "0 \<le> g" "g < MaxGroupNum E" "Height b = int (length bs)"
  shows "\<exists>s'. heights_same E [b] s = Ok (True, s') \<and> kept s'"
proof -
  have ready: "ready E g bs s" using kept(1,2) by blast
  then have "length bs \<le> 2 ^ 24" by (simp add: ready_def chain_ok_def)
  then have "i32 (Height b - 1) = int (length bs) - 1" using b(4) by (simp add: i32_id)
  then show ?thesis using GetHeight_ready [OF ready] kept(1,3) own_group b(1-3) by auto
qed

lemma heights_same_ready:
  assumes "ready E g bs s" and "Group b = g" and "0 \<le> g" and "g < MaxGroupNum E" and "Height b = int (length bs)"
  shows "\<exists>s'. heights_same E [b] s = Ok (True, s') \<and> ready E g bs s'"
  using heights_same_kept [where kept = "ready E g bs", OF assms(1) _ _ assms(2-5)] GetHeight_ready by fastforce

lemma Run_loop_kept:
  assumes pow: "pow_blocks pow = [b]" "Group b = g" "0 \<le> g" "g < MaxGroupNum E" "Height b = int (length bs)"
    and kept: "\<And>t. kept t \<Longrightarrow> ready E g bs t" "\<And>t h t'. kept t \<Longrightarrow> GetHeight E g t = Ok (h, t') \<Longrightarrow> kept t'"
    and world: "\<And>i t. kept t \<Longrightarrow> kept (world i t)"
    and n: "n < MaxInt64" "Validate E pow n" "pause_every speed \<noteq> 0"
    and s: "kept s" "nonce \<le> n"
  shows "\<exists>n' s'. Run_loop E world speed pow nonce s = Ok (Inr n', s') \<and> kept s' \<and> nonce \<le> n' \<and> n' \<le> n \<and> Validate E pow n'"
proof -
  have same: "\<exists>t. heights_same E [b] (world i u) = Ok (True, t) \<and> kept t" if u: "kept u" for i u
    by (rule heights_same_kept [where kept = kept and bs = bs, OF world [OF u] _ _ pow(2-5)]) (blast intro: kept)+
  show ?thesis using s
  proof (induction "nat (n - nonce)" arbitrary: nonce s)
    case 0
    then have "nonce = n" by simp
    moreover obtain t where "heights_same E [b] (world n s) = Ok (True, t)" "kept t"
      using same [OF "0.prems"(1)] by blast
    ultimately show ?case using n pow(1) by (subst Run_loop.simps) (auto simp del: heights_same.simps)
  next
    case (Suc k)
    obtain t where t: "heights_same E [b] (world nonce s) = Ok (True, t)" "kept t"
      using same [OF Suc.prems(1)] by blast
    show ?case
    proof (cases "Validate E pow nonce")
      case True
      then show ?thesis using t Suc.prems n(1) pow(1) by (subst Run_loop.simps) (auto simp del: heights_same.simps)
    next
      case False
      then have "nonce \<noteq> n" using n(2) by auto
      then have "k = nat (n - (nonce + 1))" "nonce + 1 \<le> n" using Suc.hyps(2) Suc.prems(2) by auto
      from Suc.hyps(1) [OF this(1) t(2) this(2)] obtain n' s' where
        "Run_loop E world speed pow (nonce + 1) t = Ok (Inr n', s')" "kept s'" "nonce + 1 \<le> n'" "n' \<le> n"
        "Validate E pow n'" by blast
      then show ?thesis using t False n pow(1) \<open>nonce + 1 \<le> n\<close>
        by (subst Run_loop.simps) (auto simp del: heights_same.simps)
    qed
  qed
qed

lemma NewPOW_single:
  assumes "mineable b" and "GroupBase b = Group b" and "BatchSize b = 1" and "BatchMerklePath b = []"
  shows "\<exists>pow. NewPOW E rnd [b] = Ok pow \<and> pow_blocks pow = [b] \<and> ps_Nonce (poweredStruct pow) = rnd \<and>
    FindPath (batchMerkleTree pow) 0 = Ok [] \<and>
    (\<forall>n. Block_Verify E (b\<lparr>Nonce := n\<rparr>) = Ok (Validate E pow n))"
proof -
  obtain q where q: "Target b = Fin q" "1 \<le> q" "q \<le> (2 ^ 53 - 1) * 2 ^ 971" using assms(1) by (auto simp: mineable_def)
  have target: "GetTarget (Fin q) = Ok (2 ^ 256 div \<lfloor>q\<rfloor>)" by (rule GetTarget_pos [OF q(2)])
  have "(if f64_greater MaxFloat64 (Target b) then Target b else MaxFloat64) = Fin q"
    using q(1,3) by (simp add: MaxFloat64_def)
  moreover obtain h where h: "BlockHeader_Hash E (BlockHeader.truncate b) = Ok h"
    using marshal_header_finite [of "BlockHeader.truncate b" q] q(1)
    by (auto simp: BlockHeader_Hash_def Encode_def BlockHeader.truncate_def)
  moreover have "NewMerkleTree (sha256 E) [h] = Ok (mleaf (sha256 E) 0 h)" by (simp add: NewMerkleTree_eq)
  moreover define pow where "pow = \<lparr>pow_blocks = [b], pow_target = 2 ^ 256 div \<lfloor>q\<rfloor>, batchMerkleTree = mleaf (sha256 E) 0 h,
    poweredStruct = \<lparr>batchMerkleRoot = sha256 E h, ps_GroupBase = Group b, ps_BatchSize = 1, ps_Nonce = rnd\<rparr>\<rparr>"
  ultimately have pow: "NewPOW E rnd [b] = Ok pow" "pow_blocks pow = [b]" "ps_Nonce (poweredStruct pow) = rnd"
      "batchMerkleTree pow = mleaf (sha256 E) 0 h" "pow_target pow = 2 ^ 256 div \<lfloor>q\<rfloor>"
      "batchMerkleRoot (poweredStruct pow) = sha256 E h" "ps_GroupBase (poweredStruct pow) = Group b"
      "ps_BatchSize (poweredStruct pow) = 1"
    using target by (simp_all add: NewPOW_def oindex_def NewBlockMerkleTree_def)
  have trunc: "BlockHeader.truncate (b\<lparr>Nonce := n\<rparr>) = BlockHeader.truncate b" for n
    by (simp add: BlockHeader.truncate_def)
  have "Block_Verify E (b\<lparr>Nonce := n\<rparr>) = Ok (Validate E pow n)" for n
    using h q(1) target assms(2-4) pow trunc
    by (simp add: Block_Verify_def Block_Hash_def Validate_def prepareData_def)
  then show ?thesis using pow by auto
qed

lemma mine_one_kept:
  assumes kept: "kept s" "\<And>t. kept t \<Longrightarrow> ready E g bs t" "\<And>t h t'. kept t \<Longrightarrow> GetHeight E g t = Ok (h, t') \<Longrightarrow> kept t'"
    and bs: "bs \<noteq> []" "length bs < 2 ^ 24" and g: "0 \<le> g" "g < MaxGroupNum E"
    and world: "\<And>i t. kept t \<Longrightarrow> kept (mine_world M i t)"
    and tree: "NewTxnMerkleTree E ts = Ok tree" and target: "next_target E g (last bs) s = Ok (Fin q)"
    and b: "b = next_block E M g bs ts (mData tree) q" "mineable b"
    and n: "mine_rnd M \<le> n" "n < MaxInt64" "Block_Verify E (b\<lparr>Nonce := n\<rparr>) = Ok True" "pause_every (mine_speed M) \<noteq> 0"
  shows "make_blocks E M [ts] g 1 0 1 s = Ok (Inr [b]) \<and>
    (\<exists>n' s'. MineBlocks E M [ts] g 1 s = Ok (Inr [b\<lparr>Nonce := n'\<rparr>], s') \<and> Block_Verify E (b\<lparr>Nonce := n'\<rparr>) = Ok True \<and>
      kept s')"
proof -
  have chain: "chain_ok E g bs s" using kept(1,2) by (simp add: ready_def)
  have "block_stored E g (last bs) s" using chain bs(1) by (simp add: chain_ok_def)
  then obtain h where h: "Block_Hash E (last bs) = Ok h" by (auto simp: block_stored_def)
  have "i32 (Height (last bs) + 1) = int (length bs)" using last_Height [OF chain bs(1)] bs(2) by (simp add: i32_id)
  then have make: "make_blocks E M [ts] g 1 0 1 s = Ok (Inr [b])"
    using own_group [OF g] GetLastest_chain [OF chain] bs(1) target h tree tip_hash_last [OF bs(1) h, of "[]"]
    by (simp add: b(1) next_block_def oindex_def)
  have fields: "Group b = g" "GroupBase b = Group b" "BatchSize b = 1" "BatchMerklePath b = []" "Height b = int (length bs)"
    by (simp_all add: b(1) next_block_def)
  obtain pow where pow: "NewPOW E (mine_rnd M) [b] = Ok pow" "pow_blocks pow = [b]" "ps_Nonce (poweredStruct pow) = mine_rnd M"
      "FindPath (batchMerkleTree pow) 0 = Ok []" "\<And>n. Block_Verify E (b\<lparr>Nonce := n\<rparr>) = Ok (Validate E pow n)"
    using NewPOW_single [OF b(2) fields(2-4)] by blast
  have "\<exists>n' s'. Run_loop E (mine_world M) (mine_speed M) pow (mine_rnd M) s = Ok (Inr n', s') \<and> kept s' \<and> mine_rnd M \<le> n' \<and> n' \<le> n \<and>
      Validate E pow n'"
    by (rule Run_loop_kept [OF pow(2) fields(1) g fields(5) _ _ world n(2) _ n(4) kept(1) n(1)]) (use kept pow(5) n(3) in auto)
  then obtain n' s' where run: "Run E (mine_world M) (mine_speed M) pow s = Ok (Inr n', s')" "kept s'" "Validate E pow n'"
    unfolding Run_def pow(3) by blast
  have "group_mod E (Group b + MaxGroupNum E - GroupBase b) = Ok 0"
    using batch_index [of g "MaxGroupNum E" 0] g by (simp add: group_mod_ok fields(1,2))
  moreover have "b\<lparr>Nonce := n', BatchMerklePath := []\<rparr> = b\<lparr>Nonce := n'\<rparr>" by (simp add: b(1) next_block_def)
  ultimately have "found_blocks E (batchMerkleTree pow) n' [b] = Ok [b\<lparr>Nonce := n'\<rparr>]"
    using pow(4,5) run(3) by simp
  then have "MineBlocks E M [ts] g 1 s = Ok (Inr [b\<lparr>Nonce := n'\<rparr>], s')"
    using make pow(1) run(1) by (simp add: MineBlocks_def del: make_blocks.simps found_blocks.simps)
  moreover have "Block_Verify E (b\<lparr>Nonce := n'\<rparr>) = Ok True" using pow(5) run(3) by simp
  ultimately show ?thesis using make run(2) by blast
qed

lemma mine_one:
  assumes s: "ready E g bs s" and bs: "bs \<noteq> []" "length bs < 2 ^ 24" and g: "0 \<le> g" "g < MaxGroupNum E"
    and world: "\<And>i t. ready E g bs t \<Longrightarrow> ready E g bs (mine_world M i t)"
    and tree: "NewTxnMerkleTree E ts = Ok tree" and target: "next_target E g (last bs) s = Ok (Fin q)"
    and b: "b = next_block E M g bs ts (mData tree) q" "mineable b"
    and n: "mine_rnd M \<le> n" "n < MaxInt64" "Block_Verify E (b\<lparr>Nonce := n\<rparr>) = Ok True" "pause_every (mine_speed M) \<noteq> 0"
  shows "make_blocks E M [ts] g 1 0 1 s = Ok (Inr [b]) \<and>
    (\<exists>n' s'. MineBlocks E M [ts] g 1 s = Ok (Inr [b\<lparr>Nonce := n'\<rparr>], s') \<and> Block_Verify E (b\<lparr>Nonce := n'\<rparr>) = Ok True \<and>
      ready E g bs s')"
  using mine_one_kept [where kept = "ready E g bs", OF s _ _ bs g world tree target b n] GetHeight_ready by fastforce

end

text \<open>
  Mining makes progress: on a chain that is not empty, when some nonce from the start of the search on gives a block
  that verifies and the rest of the node leaves the chain alone, \<^verbatim>\<open>MineBlocks\<close> returns exactly one block; it
  verifies, and \<^verbatim>\<open>AddBlock\<close> puts it at the end of the chain, unless its hash is that of a stored block.
\<close>

lemma mined_block_extends_chain:
  assumes "node_env E" and "ready E g bs s" and "bs \<noteq> []" and "length bs < 2 ^ 24" and "0 \<le> g" and "g < MaxGroupNum E"
    and "\<And>i t. ready E g bs t \<Longrightarrow> ready E g bs (mine_world M i t)"
    and "NewTxnMerkleTree E ts = Ok tree" and "next_target E g (last bs) s = Ok (Fin q)"
    and "1 \<le> q" and "q \<le> (2 ^ 53 - 1) * 2 ^ 971" and "pause_every (mine_speed M) \<noteq> 0"
    and "mine_rnd M \<le> n" and "n < MaxInt64"
    and "Block_Verify E ((next_block E M g bs ts (mData tree) q)\<lparr>Nonce := n\<rparr>) = Ok True"
  shows "\<exists>b s1 s2. MineBlocks E M [ts] g 1 s = Ok (Inr [b], s1) \<and> Block_Verify E b = Ok True \<and> Txns b = ts \<and>
    ((\<forall>b' \<in> set bs. Block_Hash E b' \<noteq> Block_Hash E b) \<longrightarrow>
      AddBlock E g (Some b) s1 = Ok s2 \<and> chain_ok E g (bs @ [b]) s2)"
proof -
  define b where "b = next_block E M g bs ts (mData tree) q"
  have "mineable b" using assms(10,11) by (simp add: b_def next_block_def mineable_def)
  then obtain n' s1 where mine: "MineBlocks E M [ts] g 1 s = Ok (Inr [b\<lparr>Nonce := n'\<rparr>], s1)"
      "Block_Verify E (b\<lparr>Nonce := n'\<rparr>) = Ok True" "ready E g bs s1"
    using node_env.mine_one [OF assms(1-9) b_def _ assms(13,14) assms(15) [folded b_def] assms(12)] by blast
  have "\<exists>s2. (\<forall>b' \<in> set bs. Block_Hash E b' \<noteq> Block_Hash E (b\<lparr>Nonce := n'\<rparr>)) \<longrightarrow>
      AddBlock E g (Some (b\<lparr>Nonce := n'\<rparr>)) s1 = Ok s2 \<and> chain_ok E g (bs @ [b\<lparr>Nonce := n'\<rparr>]) s2"
    using node_env.AddBlock_ok [OF assms(1), of g bs s1 "b\<lparr>Nonce := n'\<rparr>" q] mine(3) assms(4-6,10)
    by (auto simp: ready_def b_def next_block_def)
  then show ?thesis using mine(1,2) by (auto simp: b_def next_block_def)
qed

section \<open>Creating a blockchain\<close>

lemma SetBytes_less: "SetBytes bs < 256 ^ length bs"
proof (induction bs rule: rev_induct)
  case (snoc b bs)
  have "SetBytes (bs @ [b]) = SetBytes bs * 256 + unat b" by (simp add: SetBytes_def)
  also have "\<dots> < (SetBytes bs + 1) * 256" by simp
  also have "\<dots> \<le> 256 ^ length (bs @ [b])" using snoc by simp
  finally show ?case .
qed (simp add: SetBytes_def)

context node_env
begin

lemma easy_block_verifies:
  assumes "Target b = Fin 1"
  shows "Block_Verify E b = Ok True"
proof -
  obtain h where h: "Block_Hash E b = Ok h" using Block_Hash_ok [OF assms] by blast
  then have "SetBytes h < 256 ^ 32" using Block_Hash_length [OF h] SetBytes_less [of h] by metis
  then have "int (SetBytes h) < 2 ^ 256" by simp
  then show ?thesis using h assms by (simp add: Block_Verify_def GetTarget_def truncate_rat_def)
qed

lemma GetGroup_range: "GetGroup E = Ok g \<Longrightarrow> 0 \<le> g \<and> g < MaxGroupNum E"
  using MaxGroupNum_pos by (auto simp: GetGroup_def GetGroupByAddress_def GetGroupByPubKeyHash_def)

lemma ready_clear: "ready E g [] s \<Longrightarrow> ready E g [] (node_Clear E Blocks g s)"
  by (auto simp: ready_def chain_ok_def lastest_stored_def heads_ok_def node_Clear_def node_Get_def db_Get_def db_Clear_def
      db_bucket_def)

lemma keeps_node_chain: "keeps_node E us s s' \<Longrightarrow> chain_ok E g bs s' = chain_ok E g bs s"
  by (rule chain_ok_same_blocks) (auto simp: same_blocks_def keeps_node_def keeps_other_def)

lemma genesis_mined:
  assumes "ready E g [] s" and "0 \<le> g" and "g < MaxGroupNum E"
    and "\<And>t. ready E g [] t \<Longrightarrow> ready E g [] (mine_world M (mine_rnd M) t)"
  shows "\<exists>b s'. MineBlocksForCreate E M txn g s = Ok (Inr b, s') \<and> ready E g [] s' \<and> Height b = 0 \<and> PrevHash b = [] \<and>
    Group b = g \<and> Target b = Fin 1 \<and> Txns b = [txn]"
proof -
  obtain tree where tree: "NewTxnMerkleTree E [txn] = Ok tree"
    using NewMerkleTree_total [of "sha256 E" "map (marshal_txn E) [txn]"] by (auto simp: NewTxnMerkleTree_def)
  define b where "b = \<lparr>Group = g, Height = 0, PrevHash = [], Timestamp = mine_now M 0, MerkleRoot = mData tree,
    Target = Fin 1, GroupBase = g, BatchSize = 1, BatchMerklePath = [], Nonce = 0, Txns = [txn]\<rparr>"
  have fields: "mineable b" "GroupBase b = Group b" "BatchSize b = 1" "BatchMerklePath b = []" "Group b = g" "Height b = 0"
    by (simp_all add: b_def mineable_def)
  obtain pow where pow: "NewPOW E (mine_rnd M) [b] = Ok pow" "pow_blocks pow = [b]" "ps_Nonce (poweredStruct pow) = mine_rnd M"
      "\<And>n. Block_Verify E (b\<lparr>Nonce := n\<rparr>) = Ok (Validate E pow n)"
    using NewPOW_single [OF fields(1-4)] by blast
  have valid: "Validate E pow n" for n using pow(4) [of n] easy_block_verifies [of "b\<lparr>Nonce := n\<rparr>"] by (simp add: b_def)
  have "\<exists>s'. Run E (mine_world M) (mine_speed M) pow s = Ok (Inr (mine_rnd M), s') \<and> ready E g [] s'"
  proof (cases "MaxInt64 \<le> mine_rnd M")
    case True
    then show ?thesis using assms(1) by (simp add: Run_def pow(3) Run_loop.simps)
  next
    case False
    obtain t where "heights_same E [b] (mine_world M (mine_rnd M) s) = Ok (True, t)" "ready E g [] t"
      using heights_same_ready [OF assms(4) [OF assms(1)] fields(5) assms(2,3)] fields(6) by auto
    then show ?thesis using False pow(2,3) valid by (simp add: Run_def Run_loop.simps del: heights_same.simps)
  qed
  then show ?thesis using tree pow(1) by (auto simp: MineBlocksForCreate_def b_def Let_def)
qed

lemma found_single: "map_of (fst (scan_txn E txn ([], []))) (HashValue_String h) =
    (if h = Transaction_Hash E txn \<and> Vout txn \<noteq> [] then Some (Vout txn) else None)"
proof -
  have "unspent_of k {} outs = outs" for k outs by (simp add: unspent_of_def case_prod_beta)
  then show ?thesis by (auto simp: scan_txn_outs Let_def)
qed

lemma CreateBlockchain_ok:
  assumes "GetGroup E = Ok g" and "NewCoinbaseTxn randData minerAddress = Ok txn" and "ready E g [] s"
    and "\<And>t. ready E g [] t \<Longrightarrow> ready E g [] (mine_world M (mine_rnd M) t)"
  shows "\<exists>b s'. CreateBlockchain E M randData minerAddress s = Ok (None, s') \<and> chain_ok E g [b] s' \<and>
    Block_Verify E b = Ok True \<and> Txns b = [txn] \<and> FindTxn E g (Transaction_Hash E txn) s' = Some txn \<and>
    uset_of E \<lparr>set_bc = g, set_group = g\<rparr> s' = [Transaction_Hash E txn \<mapsto> Vout txn]"
proof -
  let ?us = "\<lparr>set_bc = g, set_group = g\<rparr>"
  have g: "0 \<le> g" "g < MaxGroupNum E" using GetGroup_range [OF assms(1)] by simp_all
  obtain b s1 where b: "MineBlocksForCreate E M txn g s = Ok (Inr b, s1)" "ready E g [] s1" "Height b = 0" "PrevHash b = []"
      "Group b = g" "Target b = Fin 1" "Txns b = [txn]"
    using genesis_mined [OF assms(3) g assms(4)] by blast
  obtain s2 where s2: "AddBlock E g (Some b) (node_Clear E Blocks g s1) = Ok s2" "chain_ok E g [b] s2"
    using AddBlock_ok [of g "[]" "node_Clear E Blocks g s1" b 1] ready_clear [OF b(2)] b(3-6) g
    by (auto simp: ready_def)
  obtain utxos s3 where s3: "FindUTXO E g s2 = Ok utxos" "Reindex E ?us s2 = Ok s3" "keeps_node E ?us s2 s3"
      "\<And>h. uset_of E ?us s3 h = map_of utxos (HashValue_String h)"
    using Reindex_ok [of ?us "[b]" s2] s2(2) by auto
  have "utxos = fst (scan_txn E txn ([], []))"
    using s3(1) chain_blocks_chain [OF s2(2)] b(7) by (simp add: FindUTXO_def)
  moreover have "Vout txn \<noteq> []" using assms(2) by (auto simp: NewCoinbaseTxn_def)
  ultimately have set3: "uset_of E ?us s3 = [Transaction_Hash E txn \<mapsto> Vout txn]"
    using s3(4) found_single by (simp add: fun_eq_iff)
  have chain3: "chain_ok E g [b] s3" using keeps_node_chain [OF s3(3)] s2(2) by blast
  obtain s4 where s4: "TxnReindex E g s3 = Ok s4" "keeps_other E Txns_db g s3 s4" "cacheHeight s4 = cacheHeight s3"
      "onceGetHeight s4 = onceGetHeight s3" "FindTxn E g (Transaction_Hash E txn) s4 = Some txn"
  proof -
    obtain s4 where s4: "TxnReindex E g s3 = Ok s4" "keeps_other E Txns_db g s3 s4" "cacheHeight s4 = cacheHeight s3"
        "onceGetHeight s4 = onceGetHeight s3"
      and find: "\<forall>h. if \<exists>b' \<in> set [b]. \<exists>t \<in> set (Txns b'). Transaction_Hash E t = h
         then \<exists>b' \<in> set [b]. \<exists>t \<in> set (Txns b'). Transaction_Hash E t = h \<and> FindTxn E g h s4 = Some t
         else FindTxn E g h s4 = None"
      using TxnReindex_ok [OF chain3] by blast
    have "FindTxn E g (Transaction_Hash E txn) s4 = Some txn" using spec [OF find, of "Transaction_Hash E txn"] b(7) by simp
    then show thesis using that s4 by blast
  qed
  have "same_blocks E g s3 s4" using s4(2-4) by (simp add: same_blocks_def keeps_other_def)
  then have "chain_ok E g [b] s4" using chain3 chain_ok_same_blocks by blast
  moreover have "uset_of E ?us s4 = uset_of E ?us s3" using s4(2) by (simp add: uset_of_def keeps_other_def fun_eq_iff)
  moreover have "CreateBlockchain E M randData minerAddress s = Ok (None, s4)"
    using assms(1,2) own_group [OF g] b(1) s2(1) s3(2) s4(1) by (simp add: CreateBlockchain_def GetUTXOSet_def)
  ultimately show ?thesis using set3 s4(5) b(7) easy_block_verifies [OF b(6)] by (intro exI [of _ b] exI [of _ s4]) simp
qed

end

text \<open>
  C2: \<^verbatim>\<open>CreateBlockchain\<close> on a node without blocks in its group returns without an error. The stored chain is then one block, which
  verifies and holds the coinbase transaction for the miner; the transaction is indexed, and the set of unspent
  outputs is exactly its output.
\<close>

theorem CreateBlockchain_correct:
  assumes "node_env E" and "GetGroup E = Ok g" and "NewCoinbaseTxn randData minerAddress = Ok txn" and "ready E g [] s"
    and "\<And>t. ready E g [] t \<Longrightarrow> ready E g [] (mine_world M (mine_rnd M) t)"
  shows "\<exists>b s'. CreateBlockchain E M randData minerAddress s = Ok (None, s') \<and> chain_ok E g [b] s' \<and>
    Block_Verify E b = Ok True \<and> Txns b = [txn] \<and> FindTxn E g (Transaction_Hash E txn) s' = Some txn \<and>
    uset_of E \<lparr>set_bc = g, set_group = g\<rparr> s' = [Transaction_Hash E txn \<mapsto> Vout txn]"
  using assms by (rule node_env.CreateBlockchain_ok)

definition quiet_miner :: "ref_bucket miner" where
  "quiet_miner = \<lparr>mine_rnd = 5, mine_now = (\<lambda>_. 7), mine_speed = 100, mine_world = (\<lambda>_ s. s)\<rparr>"

lemma empty_ready: "ready ref_env g [] empty_node"
  using empty_chain by (simp add: ready_def)

theorem CreateBlockchain_correct_witness:
  "\<exists>b s'. CreateBlockchain ref_env quiet_miner [1] (Address ref_env) empty_node = Ok (None, s') \<and> chain_ok ref_env 0 [b] s'"
proof -
  obtain txn where "NewCoinbaseTxn [1] (Address ref_env) = Ok txn"
    using zero_address by (simp add: NewCoinbaseTxn_def NewTxnOutput_def)
  from CreateBlockchain_correct [OF ref_node.node_env_axioms ref_group this empty_ready, of quiet_miner]
  show ?thesis by (auto simp: quiet_miner_def)
qed


text \<open>One more block on the chain of the sample genesis block.\<close>

lemma key_of_negative: "GetBlockByHeight E g (-29) s = GetBlockByHeight E g 227 s"
proof -
  have "interfaceToBytes (KInt32 (-29)) = interfaceToBytes (KInt32 227)"
    by code_simp
  then show ?thesis by (simp only: GetBlockByHeight_def block_at_def node_Get_def db_Get_def)
qed

lemma plain_empty_ready: "ready plain_env g [] empty_node"
  by (simp add: ready_def chain_ok_def lastest_stored_def empty_node_def node_Get_def db_Get_def heads_ok_def pool_ok_def)

lemma sample_ready: "\<exists>s. ready plain_env 0 [sample_genesis] s \<and> next_target plain_env 0 sample_genesis s = Ok (Fin 1)"
proof -
  obtain s s' where s: "chain_ok plain_env 0 [sample_genesis] s" "heads_ok plain_env 0 s"
      "mempools s = (mempools empty_node)(0 := pool_after plain_env 0 s' sample_genesis (mempools empty_node 0))"
    using plain_node.AddBlock_ok [of 0 "[]" empty_node sample_genesis 1] plain_empty_ready [of 0]
    by (auto simp: ready_def sample_genesis_def)
  have "ready plain_env 0 [sample_genesis] s"
    using s plain_node.pool_after_ok(1) plain_empty_ready by (auto simp: ready_def)
  moreover have "GetBlockByHeight plain_env 0 (-29) s = Ok None"
    unfolding key_of_negative using plain_node.chain_no_block_at [OF s(1), of 227] by simp
  then have "next_target plain_env 0 sample_genesis s = Ok (Fin 1)"
    by (simp add: next_target_def sample_genesis_def i32_id)
  ultimately show ?thesis by blast
qed

lemma plain_block_hash:
  assumes "Target b = Fin q" and "BatchMerklePath b = []" and "Group b = 0"
  shows "\<exists>h. Block_Hash plain_env b = Ok h \<and> h ! 3 = (enc_int (Height b) @ [0]) ! 1"
proof -
  obtain xs where xs: "enc_header q (BlockHeader.truncate b) = 0 # 0 # enc_int (Height b) @ xs"
    using assms(3) by (simp add: enc_header_def BlockHeader.truncate_def enc_int_def enc_nat_def to_digits.simps)
  then show ?thesis
    using assms(1,2)
    by (auto simp: Block_Hash_def BlockHeader_Hash_def Encode_def ref_json_def BlockHeader.truncate_def nth_append enc_int_def enc_nat_def)
qed

lemma sample_candidate:
  assumes "ready plain_env 0 [sample_genesis] s" and "next_target plain_env 0 sample_genesis s = Ok (Fin 1)"
    and "NewTxnMerkleTree plain_env [sample_parent] = Ok tree"
  shows "make_blocks plain_env quiet_miner [[sample_parent]] 0 1 0 1 s =
      Ok (Inr [next_block plain_env quiet_miner 0 [sample_genesis] [sample_parent] (mData tree) 1]) \<and>
    (\<exists>n s'. MineBlocks plain_env quiet_miner [[sample_parent]] 0 1 s =
      Ok (Inr [(next_block plain_env quiet_miner 0 [sample_genesis] [sample_parent] (mData tree) 1)\<lparr>Nonce := n\<rparr>], s'))"
proof -
  have "pause_every (mine_speed quiet_miner) \<noteq> 0" by (simp add: quiet_miner_def pause_every_def i64_id)
  then show ?thesis
    using plain_node.mine_one [OF assms(1) _ _ _ _ _ assms(3) _ refl, of quiet_miner 1 "mine_rnd quiet_miner"] assms(1,2)
      plain_node.easy_block_verifies
    by (auto simp: quiet_miner_def mineable_def next_block_def MaxInt64_def)
qed

lemma sample_tree: "\<exists>tree. NewTxnMerkleTree E [t] = Ok tree"
  using NewMerkleTree_total [of "sha256 E" "map (marshal_txn E) [t]"] by (simp add: NewTxnMerkleTree_def)


definition sample_pow :: ProofOfWork where
  "sample_pow = \<lparr>pow_blocks = [], pow_target = 2 ^ 256, batchMerkleTree = mleaf id 0 [],
     poweredStruct = \<lparr>batchMerkleRoot = [], ps_GroupBase = 0, ps_BatchSize = 0, ps_Nonce = 5\<rparr>\<rparr>"

theorem Run_finds_first_nonce_witness:
  "\<exists>n s'. Run plain_env (\<lambda>_ s. s) 100 sample_pow empty_node = Ok (Inr n, s') \<and> 5 \<le> n \<and> n \<le> MaxInt64"
proof -
  have "length (sha256 plain_env m) = 32" for m by simp
  then have "SetBytes (sha256 plain_env m) < 256 ^ 32" for m using SetBytes_less by metis
  then have "int (SetBytes (sha256 plain_env m)) < int (256 ^ 32)" for m by (simp only: of_nat_less_iff)
  moreover have "int (256 ^ 32) = 2 ^ 256" by simp
  ultimately have "int (SetBytes (sha256 plain_env m)) < 2 ^ 256" for m by metis
  then have "Validate plain_env sample_pow n" for n by (simp only: Validate_def sample_pow_def ProofOfWork.simps)
  then have run: "Run plain_env (\<lambda>_ s. s) 100 sample_pow empty_node = Ok (Inr 5, empty_node)"
    by (simp add: Run_def Run_loop.simps sample_pow_def MaxInt64_def)
  moreover have "(5 :: int) \<le> 5 \<and> (5 :: int) \<le> max 5 MaxInt64"
    using Run_finds_first_nonce [of plain_env "\<lambda>_ s. s" 100 sample_pow empty_node] run by (simp add: sample_pow_def)
  ultimately show ?thesis by (auto simp: MaxInt64_def)
qed

end
