(* ===== verification/Network.thy ===== *)
theory Network
  imports Ring_Queue Chain_Invariant
begin

text \<open>
  The packages \<^verbatim>\<open>network\<close> (\<^verbatim>\<open>call.go\<close>, \<^verbatim>\<open>nodes.go\<close>, \<^verbatim>\<open>NET.go\<close>, \<^verbatim>\<open>Register\<close> of \<^verbatim>\<open>server.go\<close>) and \<^verbatim>\<open>global/known_nodes.go\<close>: the nodes
  a node knows, the order in which it calls them, and gossip. An HTTP request is a parameter: a
  function from the address of a node to the outcome of the request.
\<close>

section \<open>Known nodes\<close>

text \<open>\<^verbatim>\<open>global/known_nodes.go\<close>. The map from addresses is an association list; its mutex is held inside one operation.\<close>

record NetworkNode =
  ReactTime :: "int Queue"
  nodeTimestamp :: int
  nodeGroupBase :: int
  nodeGroupNumber :: int

type_synonym KnownNodes = "(bytes \<times> NetworkNode) list"

definition AddNode :: "bytes \<Rightarrow> int \<Rightarrow> int \<Rightarrow> int \<Rightarrow> KnownNodes \<Rightarrow> KnownNodes outcome" where
  "AddNode address time groupBase groupNumber knownNodes =
     (if map_of knownNodes address \<noteq> None then Ok knownNodes
      else obind (NewQueue 5) (\<lambda>q.
        Ok (AList.update address \<lparr>ReactTime = q, nodeTimestamp = time, nodeGroupBase = groupBase,
              nodeGroupNumber = groupNumber\<rparr> knownNodes)))"

text \<open>A node that is not in the map is the zero value, whose queue was never made.\<close>

definition zero_node :: NetworkNode where
  "zero_node = \<lparr>ReactTime = \<lparr>array = None, capability = 0, qfront = 0, qback = 0\<rparr>, nodeTimestamp = 0, nodeGroupBase = 0,
     nodeGroupNumber = 0\<rparr>"

definition UpdateNode :: "bytes \<Rightarrow> int \<Rightarrow> KnownNodes \<Rightarrow> KnownNodes outcome" where
  "UpdateNode address nano knownNodes =
     (let node = (case map_of knownNodes address of None \<Rightarrow> zero_node | Some n \<Rightarrow> n) in
      obind (Len (ReactTime node)) (\<lambda>len.
      obind (if len = 5 then obind (Pop (ReactTime node)) (\<lambda>(_, q). Ok q) else Ok (ReactTime node)) (\<lambda>q.
      obind (Push (nano sdiv 1000000) q) (\<lambda>q.
        Ok (AList.update address (node\<lparr>ReactTime := q\<rparr>) knownNodes)))))"

section \<open>Sorted nodes\<close>

record Position =
  posAddress :: bytes
  Distance :: int
  posGroupBase :: int
  posGroupNumber :: int

text \<open>Elements of the queue that are nil are not integers and are skipped.\<close>

definition react_sum :: "int option list \<Rightarrow> int" where
  "react_sum rts = fold (\<lambda>rt time. case rt of None \<Rightarrow> time | Some t \<Rightarrow> i64 (time + t)) rts 0"

fun positions :: "(bytes \<times> NetworkNode) list \<Rightarrow> Position list outcome" where
  "positions [] = Ok []"
| "positions ((address, node) # nodes) =
     obind (Get (ReactTime node)) (\<lambda>rts.
     obind (positions nodes) (\<lambda>ps.
       Ok (\<lparr>posAddress = address, Distance = react_sum rts sdiv 5, posGroupBase = nodeGroupBase node,
            posGroupNumber = nodeGroupNumber node\<rparr> # ps)))"

definition swap_at :: "nat \<Rightarrow> nat \<Rightarrow> 'a list \<Rightarrow> 'a list" where
  "swap_at i j xs = xs[i := xs ! j, j := xs ! i]"

text \<open>The shuffle from the end; \<open>rnd i\<close> is the number that \<^verbatim>\<open>rand.Int\<close> gives in round \<open>i\<close>.\<close>

fun shuffle_down :: "(nat \<Rightarrow> nat) \<Rightarrow> nat \<Rightarrow> 'a list \<Rightarrow> 'a list" where
  "shuffle_down rnd 0 xs = xs"
| "shuffle_down rnd (Suc i) xs = shuffle_down rnd i (swap_at (Suc i) (rnd (Suc i) mod Suc i) xs)"

definition UpdateSortedNodes :: "('k, 'z) env_scheme \<Rightarrow> (nat \<Rightarrow> nat) \<Rightarrow> KnownNodes \<Rightarrow> Position list outcome" where
  "UpdateSortedNodes E rnd knownNodes =
     obind (positions (range_map E 5 knownNodes)) (\<lambda>ps. Ok (shuffle_down rnd (length ps - 1) ps))"

section \<open>Calls\<close>

text \<open>
  \<open>call address\<close> is the outcome of one request to a node: its reply, or \<open>None\<close> for an error of the transport or of the node. A request has no
  time limit, so that a node that never answers is \<open>Hang\<close>.
\<close>

fun CallInterGroup :: "(bytes \<Rightarrow> 'r option outcome) \<Rightarrow> Position list \<Rightarrow> ('r \<times> bytes) option outcome" where
  "CallInterGroup call [] = Ok None"
| "CallInterGroup call (node # nodes) =
     obind (call (posAddress node)) (\<lambda>r.
       case r of None \<Rightarrow> CallInterGroup call nodes | Some reply \<Rightarrow> Ok (Some (reply, posAddress node)))"

definition covers :: "('k, 'z) env_scheme \<Rightarrow> int \<Rightarrow> Position \<Rightarrow> bool" where
  "covers E g node = InGroup g (posGroupBase node) (posGroupNumber node) (MaxGroupNum E)"

fun CallInnerGroup ::
  "('k, 'z) env_scheme \<Rightarrow> (bytes \<Rightarrow> 'r option outcome) \<Rightarrow> Position list \<Rightarrow> ('r \<times> bytes) option outcome" where
  "CallInnerGroup E call [] = Ok None"
| "CallInnerGroup E call (node # nodes) =
     obind (GetGroup E) (\<lambda>g.
       if \<not> covers E g node then CallInnerGroup E call nodes
       else obind (call (posAddress node)) (\<lambda>r.
         case r of None \<Rightarrow> CallInnerGroup E call nodes | Some reply \<Rightarrow> Ok (Some (reply, posAddress node))))"

section \<open>Gossip\<close>

fun shuffle_up :: "(nat \<Rightarrow> nat) \<Rightarrow> nat \<Rightarrow> nat \<Rightarrow> 'a list \<Rightarrow> 'a list" where
  "shuffle_up rnd i 0 xs = xs"
| "shuffle_up rnd i (Suc n) xs = shuffle_up rnd (Suc i) n (swap_at i (rnd i mod (length xs - i) + i) xs)"

text \<open>\<open>call address\<close> says whether the call succeeds; the result adds the address if the node is called.\<close>

definition send :: "('k, 'z) env_scheme \<Rightarrow> (bytes \<Rightarrow> bool outcome) \<Rightarrow> Position \<Rightarrow> (bool \<times> bytes list) outcome" where
  "send E call node =
     obind (GetGroup E) (\<lambda>g.
       if \<not> covers E g node then Ok (False, [])
       else obind (call (posAddress node)) (\<lambda>ok. Ok (ok, [posAddress node])))"

text \<open>The loop over the shuffled nodes: the number of successes and the addresses called.\<close>

fun gossip_loop ::
  "('k, 'z) env_scheme \<Rightarrow> (bytes \<Rightarrow> bool outcome) \<Rightarrow> bytes \<Rightarrow> nat \<Rightarrow> Position list \<Rightarrow> (nat \<times> bytes list) outcome" where
  "gossip_loop E call excepted success [] = Ok (success, [])"
| "gossip_loop E call excepted success (node # nodes) =
     obind (if posAddress node \<noteq> excepted then send E call node else Ok (False, [])) (\<lambda>(ok, called).
       let success = (if ok then success + 1 else success)
       in if 5 \<le> success then Ok (success, called)
          else obind (gossip_loop E call excepted success nodes) (\<lambda>(n, rest). Ok (n, called @ rest)))"

text \<open>
  The slice header is copied, not the array, so the shuffle changes \<^verbatim>\<open>sortedNodes\<close>. The result is whether a node
  responded, the addresses called and the shuffled nodes. \<^verbatim>\<open>targetGroup\<close> is only logged.
\<close>

definition GossipCallSpecialGroup ::
  "('k, 'z) env_scheme \<Rightarrow> (bytes \<Rightarrow> bool outcome) \<Rightarrow> int \<Rightarrow> bytes \<Rightarrow> (nat \<Rightarrow> nat) \<Rightarrow> Position list \<Rightarrow>
   (bool \<times> bytes list \<times> Position list) outcome" where
  "GossipCallSpecialGroup E call targetGroup excepted rnd sortedNodes =
     (let nodes = shuffle_up rnd 0 (length sortedNodes) sortedNodes
      in obind (gossip_loop E call excepted 0 nodes) (\<lambda>(success, called). Ok (success \<noteq> 0, called, nodes)))"

definition GossipCallInnerGroup ::
  "('k, 'z) env_scheme \<Rightarrow> (bytes \<Rightarrow> bool outcome) \<Rightarrow> bytes \<Rightarrow> (nat \<Rightarrow> nat) \<Rightarrow> Position list \<Rightarrow>
   (bool \<times> bytes list \<times> Position list) outcome" where
  "GossipCallInnerGroup E call excepted rnd sortedNodes =
     obind (GetGroup E) (\<lambda>g. GossipCallSpecialGroup E call g excepted rnd sortedNodes)"

definition GossipCallInterGroup ::
  "('k, 'z) env_scheme \<Rightarrow> (bytes \<Rightarrow> bool outcome) \<Rightarrow> bytes \<Rightarrow> (nat \<Rightarrow> nat) \<Rightarrow> Position list \<Rightarrow>
   (bool \<times> bytes list \<times> Position list) outcome" where
  "GossipCallInterGroup E call excepted rnd sortedNodes = GossipCallSpecialGroup E call (-1) excepted rnd sortedNodes"

section \<open>Exchanging nodes\<close>

record KnownNodesEntry =
  knAddress :: bytes
  knTimestamp :: int
  knGroupBase :: int
  knGroupNumber :: int

text \<open>\<^verbatim>\<open>NET.GetKnownNodes\<close>: the caller is added, and every known node is listed.\<close>

definition NET_GetKnownNodes ::
  "('k, 'z) env_scheme \<Rightarrow> KnownNodesEntry \<Rightarrow> KnownNodes \<Rightarrow> (KnownNodesEntry list \<times> KnownNodes) outcome" where
  "NET_GetKnownNodes E args knownNodes =
     obind (if knAddress args \<noteq> []
            then AddNode (knAddress args) (knTimestamp args) (knGroupBase args) (knGroupNumber args) knownNodes
            else Ok knownNodes) (\<lambda>knownNodes.
       Ok (map (\<lambda>(address, node). \<lparr>knAddress = address, knTimestamp = nodeTimestamp node, knGroupBase = nodeGroupBase node,
                 knGroupNumber = nodeGroupNumber node\<rparr>) (range_map E 6 knownNodes), knownNodes))"

text \<open>
  \<^verbatim>\<open>GetKnownNodes\<close> of \<^verbatim>\<open>network/nodes.go\<close>: the answer of the first node that responds is merged; the result is whether one did.
\<close>

definition GetKnownNodes ::
  "('k, 'z) env_scheme \<Rightarrow> (bytes \<Rightarrow> KnownNodesEntry list option outcome) \<Rightarrow> Position list \<Rightarrow> KnownNodes \<Rightarrow>
   (bool \<times> KnownNodes) outcome" where
  "GetKnownNodes E call sortedNodes knownNodes =
     obind (GetGroup E) (\<lambda>_.
     obind (CallInterGroup call sortedNodes) (\<lambda>r. case r of
         None \<Rightarrow> Ok (False, knownNodes)
       | Some (entries, _) \<Rightarrow>
           obind (ofold (\<lambda>e. AddNode (knAddress e) (knTimestamp e) (knGroupBase e) (knGroupNumber e)) entries knownNodes)
             (\<lambda>knownNodes. Ok (True, knownNodes))))"

text \<open>\<^verbatim>\<open>Register\<close> runs once; the flag is its \<^verbatim>\<open>sync.Once\<close>.\<close>

definition network_Register ::
  "('k, 'z) env_scheme \<Rightarrow> (nat \<Rightarrow> nat) \<Rightarrow> bool \<times> KnownNodes \<times> Position list \<Rightarrow> (bool \<times> KnownNodes \<times> Position list) outcome" where
  "network_Register E rnd = (\<lambda>(registered, knownNodes, sortedNodes).
     if registered then Ok (registered, knownNodes, sortedNodes)
     else obind (AddNode (ascii ''127.0.0.1:1111'') 0 0 (GroupNum E) knownNodes) (\<lambda>knownNodes.
          obind (UpdateSortedNodes E rnd knownNodes) (\<lambda>sortedNodes. Ok (True, knownNodes, sortedNodes))))"

section \<open>Shuffling keeps the nodes\<close>

lemma mset_swap_at: "i < length xs \<Longrightarrow> j < length xs \<Longrightarrow> mset (swap_at i j xs) = mset xs"
  by (simp add: swap_at_def mset_swap)

lemma length_swap_at [simp]: "length (swap_at i j xs) = length xs"
  by (simp add: swap_at_def)

lemma mset_shuffle_down: "i < length xs \<or> i = 0 \<Longrightarrow> mset (shuffle_down rnd i xs) = mset xs"
proof (induction rnd i xs rule: shuffle_down.induct)
  case (2 rnd i xs)
  have "rnd (Suc i) mod Suc i < Suc i" by simp
  then have "rnd (Suc i) mod Suc i < length xs" using "2.prems" by linarith
  then have "mset (swap_at (Suc i) (rnd (Suc i) mod Suc i) xs) = mset xs" using "2.prems" by (intro mset_swap_at) auto
  then show ?case using "2.IH" "2.prems" by simp
qed simp

lemma mset_shuffle_up: "i + n = length xs \<Longrightarrow> mset (shuffle_up rnd i n xs) = mset xs"
proof (induction rnd i n xs rule: shuffle_up.induct)
  case (2 rnd i n xs)
  have "rnd i mod (length xs - i) < length xs - i" using "2.prems" by (intro mod_less_divisor) simp
  then have "rnd i mod (length xs - i) + i < length xs" by linarith
  then have "mset (swap_at i (rnd i mod (length xs - i) + i) xs) = mset xs" using "2.prems" by (intro mset_swap_at) auto
  then show ?case using "2.IH" "2.prems" by simp
qed simp

section \<open>The invariant of the known nodes\<close>

text \<open>Every address is known once, and every queue was made by \<^verbatim>\<open>NewQueue(5)\<close>.\<close>

definition known_ok :: "KnownNodes \<Rightarrow> bool" where
  "known_ok kn \<longleftrightarrow> distinct (map fst kn) \<and>
     (\<forall>(a, n) \<in> set kn. ring_valid (ReactTime n) \<and> ring_bound (ReactTime n) = 5)"

lemma known_update:
  assumes "known_ok kn" and "ring_valid (ReactTime n)" and "ring_bound (ReactTime n) = 5"
  shows "known_ok (AList.update a n kn)"
proof -
  have "distinct (map fst (AList.update a n kn))" using assms(1) by (simp add: known_ok_def AList.distinct_update)
  moreover have "set (AList.update a n kn) \<subseteq> insert (a, n) (set kn)"
    by (induction kn) auto
  ultimately show ?thesis using assms by (auto simp: known_ok_def)
qed

lemma AddNode_ok:
  assumes "known_ok kn"
  shows "\<exists>kn'. AddNode a t b n kn = Ok kn' \<and> known_ok kn' \<and> dom (map_of kn') = insert a (dom (map_of kn)) \<and>
    (\<forall>x node. map_of kn x = Some node \<longrightarrow> map_of kn' x = Some node)"
proof (cases "map_of kn a")
  case None
  obtain q :: "int Queue" where q: "NewQueue 5 = Ok q" "ring_valid q" "ring_bound q = 5" using NewQueue_ring [of 5] by auto
  let ?n = "\<lparr>ReactTime = q, nodeTimestamp = t, nodeGroupBase = b, nodeGroupNumber = n\<rparr>"
  have "AddNode a t b n kn = Ok (AList.update a ?n kn)" using None q(1) by (simp add: AddNode_def)
  moreover have "known_ok (AList.update a ?n kn)" using assms q by (intro known_update) simp_all
  ultimately show ?thesis using None by (auto simp: AList.update_conv')
qed (use assms in \<open>auto simp: AddNode_def\<close>)

lemma UpdateNode_ok:
  assumes "known_ok kn" and "map_of kn a = Some node"
  shows "\<exists>node'. UpdateNode a nano kn = Ok (AList.update a node' kn) \<and> known_ok (AList.update a node' kn) \<and>
    ring_elems (ReactTime node') = lastn 5 (ring_elems (ReactTime node) @ [Some (nano sdiv 1000000)])"
proof -
  have q: "ring_valid (ReactTime node)" "ring_bound (ReactTime node) = 5"
    using assms map_of_SomeD [OF assms(2)] by (auto simp: known_ok_def)
  then have len: "Len (ReactTime node) = Ok 6" by (auto simp: Len_def ring_valid_def ring_bound_def)
  obtain q' where q': "Push (nano sdiv 1000000) (ReactTime node) = Ok q'" "ring_valid q'" "ring_bound q' = 5"
      "ring_elems q' = lastn 5 (ring_elems (ReactTime node) @ [Some (nano sdiv 1000000)])"
    using ring.push_law [OF q(1), of "nano sdiv 1000000"] q(2) by auto
  have "known_ok (AList.update a (node\<lparr>ReactTime := q'\<rparr>) kn)" using assms(1) q'(2,3) by (intro known_update) simp_all
  then show ?thesis using q' len assms(2) by (intro exI [of _ "node\<lparr>ReactTime := q'\<rparr>"]) (simp add: UpdateNode_def)
qed

lemma positions_ok:
  assumes "\<forall>(a, n) \<in> set kn. ring_valid (ReactTime n)"
  shows "\<exists>ps. positions kn = Ok ps \<and> map posAddress ps = map fst kn"
  using assms
proof (induction kn)
  case (Cons an kn)
  then show ?case by (cases an) (auto simp: ring_Get)
qed simp

text \<open>
  The states of the node list: nodes are added by peers, by answers of peers and by \<^verbatim>\<open>Register\<close>, and the reaction time of a
  listed node is updated after a heartbeat.
\<close>

inductive reachable_nodes :: "KnownNodes \<Rightarrow> bool" where
  start: "reachable_nodes []"
| add: "reachable_nodes kn \<Longrightarrow> AddNode a t b n kn = Ok kn' \<Longrightarrow> reachable_nodes kn'"
| beat: "reachable_nodes kn \<Longrightarrow> map_of kn a \<noteq> None \<Longrightarrow> UpdateNode a nano kn = Ok kn' \<Longrightarrow> reachable_nodes kn'"

lemma reachable_ok: "reachable_nodes kn \<Longrightarrow> known_ok kn"
proof (induction rule: reachable_nodes.induct)
  case start
  show ?case by (simp add: known_ok_def)
next
  case (add kn a t b n kn')
  then show ?case using AddNode_ok [OF add.IH, of a t b n] by auto
next
  case (beat kn a nano kn')
  then show ?case using UpdateNode_ok [OF beat.IH, of a _ nano] by auto
qed

text \<open>\<^verbatim>\<open>UpdateSortedNodes\<close> lists every known address exactly once.\<close>

lemma sorted_nodes_complete:
  assumes "go_ranges E" and "reachable_nodes kn"
  shows "\<exists>ps. UpdateSortedNodes E rnd kn = Ok ps \<and> distinct (map posAddress ps) \<and> set (map posAddress ps) = dom (map_of kn)"
proof -
  have ok: "known_ok kn" by (rule reachable_ok [OF assms(2)])
  have m: "mset (range_map E 5 kn) = mset kn" by (rule go_ranges.mset_range_map [OF assms(1)])
  obtain ps where ps: "positions (range_map E 5 kn) = Ok ps" "map posAddress ps = map fst (range_map E 5 kn)"
    using positions_ok [of "range_map E 5 kn"] ok unfolding mset_eq_setD [OF m] known_ok_def by blast
  have "mset (shuffle_down rnd (length ps - 1) ps) = mset ps"
    by (rule mset_shuffle_down) (cases ps, auto)
  then have "mset (map posAddress (shuffle_down rnd (length ps - 1) ps)) = mset (map posAddress ps)" by (simp add: mset_map)
  also have "\<dots> = mset (map fst kn)" using m by (simp add: ps(2) mset_map)
  finally have perm: "mset (map posAddress (shuffle_down rnd (length ps - 1) ps)) = mset (map fst kn)" .
  have "distinct (map fst kn)" using ok by (simp add: known_ok_def)
  then have "distinct (map posAddress (shuffle_down rnd (length ps - 1) ps))" using perm mset_eq_imp_distinct_iff by blast
  moreover have "set (map posAddress (shuffle_down rnd (length ps - 1) ps)) = dom (map_of kn)"
    using mset_eq_setD [OF perm] by (simp add: dom_map_of_conv_image_fst)
  ultimately show ?thesis using ps(1) by (simp add: UpdateSortedNodes_def)
qed

section \<open>Who is called\<close>

definition eligible :: "('k, 'z) env_scheme \<Rightarrow> int \<Rightarrow> bytes \<Rightarrow> Position \<Rightarrow> bool" where
  "eligible E g excepted node \<longleftrightarrow> posAddress node \<noteq> excepted \<and> covers E g node"

lemma gossip_loop_result:
  assumes "GetGroup E = Ok g" and "success < 5"
  shows "\<exists>pre. gossip_loop E (\<lambda>a. Ok (call a)) excepted success nodes =
      Ok (success + length (filter call (map posAddress (filter (eligible E g excepted) pre))),
          map posAddress (filter (eligible E g excepted) pre)) \<and>
    (\<exists>post. nodes = pre @ post) \<and>
    success + length (filter call (map posAddress (filter (eligible E g excepted) pre))) \<le> 5 \<and>
    (success + length (filter call (map posAddress (filter (eligible E g excepted) pre))) < 5 \<longrightarrow> pre = nodes)"
  using assms(2)
proof (induction nodes arbitrary: success)
  case (Cons node nodes)
  define ok where "ok \<longleftrightarrow> eligible E g excepted node \<and> call (posAddress node)"
  have step: "(if posAddress node \<noteq> excepted then send E (\<lambda>a. Ok (call a)) node else Ok (False, [])) =
      Ok (ok, if eligible E g excepted node then [posAddress node] else [])"
    using assms(1) by (auto simp: send_def ok_def eligible_def)
  show ?case
  proof (cases "5 \<le> (if ok then success + 1 else success)")
    case True
    then have "ok" "success = 4" using Cons.prems by (auto split: if_splits)
    then show ?thesis using step by (intro exI [of _ "[node]"]) (auto simp: ok_def Let_def)
  next
    case False
    then obtain pre where pre: "gossip_loop E (\<lambda>a. Ok (call a)) excepted (if ok then success + 1 else success) nodes =
          Ok ((if ok then success + 1 else success) + length (filter call (map posAddress (filter (eligible E g excepted) pre))),
            map posAddress (filter (eligible E g excepted) pre))"
        "\<exists>post. nodes = pre @ post"
        "(if ok then success + 1 else success) + length (filter call (map posAddress (filter (eligible E g excepted) pre))) \<le> 5"
        "(if ok then success + 1 else success) + length (filter call (map posAddress (filter (eligible E g excepted) pre))) < 5 \<longrightarrow>
          pre = nodes"
      using Cons.IH [of "if ok then success + 1 else success"] by (auto split: if_splits)
    have "gossip_loop E (\<lambda>a. Ok (call a)) excepted success (node # nodes) =
        Ok (success + length (filter call (map posAddress (filter (eligible E g excepted) (node # pre)))),
          map posAddress (filter (eligible E g excepted) (node # pre)))"
      using step pre(1) False by (auto simp: Let_def ok_def)
    then show ?thesis using pre(2-4) by (intro exI [of _ "node # pre"]) (auto simp: ok_def)
  qed
qed simp

section \<open>Properties\<close>

text \<open>
  C30: a gossip call reaches at most five nodes successfully, never calls the excepted address, and when fewer than five
  succeed it has tried every other node that serves the caller's own group; whatever group the call is meant for, only
  nodes that serve the caller's group are called. Every call is taken to return, with success or not. The node list stays the same up to its order.
\<close>

theorem gossip_reach:
  assumes "GetGroup E = Ok g"
  shows "\<exists>ok called nodes. GossipCallSpecialGroup E (\<lambda>a. Ok (call a)) targetGroup excepted rnd sortedNodes = Ok (ok, called, nodes) \<and>
    mset nodes = mset sortedNodes \<and> length (filter call called) \<le> 5 \<and> (ok \<longleftrightarrow> filter call called \<noteq> []) \<and>
    (\<forall>a \<in> set called. a \<noteq> excepted \<and> (\<exists>node \<in> set sortedNodes. posAddress node = a \<and> covers E g node)) \<and>
    (length (filter call called) < 5 \<longrightarrow>
      set called = posAddress ` {node \<in> set sortedNodes. posAddress node \<noteq> excepted \<and> covers E g node})"
proof -
  let ?nodes = "shuffle_up rnd 0 (length sortedNodes) sortedNodes"
  have m: "mset ?nodes = mset sortedNodes" by (rule mset_shuffle_up) simp
  obtain pre post where pre: "gossip_loop E (\<lambda>a. Ok (call a)) excepted 0 ?nodes =
        Ok (length (filter call (map posAddress (filter (eligible E g excepted) pre))), map posAddress (filter (eligible E g excepted) pre))"
      "?nodes = pre @ post" "length (filter call (map posAddress (filter (eligible E g excepted) pre))) \<le> 5"
      "length (filter call (map posAddress (filter (eligible E g excepted) pre))) < 5 \<longrightarrow> pre = ?nodes"
    using gossip_loop_result [OF assms zero_less_numeral, of call excepted ?nodes] unfolding add_0 by blast
  define called where "called = map posAddress (filter (eligible E g excepted) pre)"
  note pre = pre [folded called_def]
  have "set pre \<subseteq> set sortedNodes" using pre(2) mset_eq_setD [OF m] by auto
  then have "\<forall>a \<in> set called. a \<noteq> excepted \<and> (\<exists>node \<in> set sortedNodes. posAddress node = a \<and> covers E g node)"
    by (auto simp: called_def eligible_def)
  moreover have "set called = posAddress ` {node \<in> set sortedNodes. posAddress node \<noteq> excepted \<and> covers E g node}"
    if "length (filter call called) < 5"
    using pre(4) that mset_eq_setD [OF m] by (auto simp: called_def eligible_def)
  moreover have "GossipCallSpecialGroup E (\<lambda>a. Ok (call a)) targetGroup excepted rnd sortedNodes = Ok (filter call called \<noteq> [], called, ?nodes)"
    unfolding GossipCallSpecialGroup_def Let_def pre(1) by simp
  ultimately show ?thesis using m pre(3) by blast
qed

lemma sample_nodes: "\<exists>kn. AddNode [1] 0 0 2 [] = Ok kn \<and> reachable_nodes kn \<and> dom (map_of kn) = {[1]}"
  using AddNode_ok [of "[]" "[1]" 0 0 2] reachable_nodes.add [OF reachable_nodes.start] by (auto simp: known_ok_def)

theorem gossip_reach_witness:
  "\<exists>ok called nodes. GossipCallSpecialGroup ref_env (\<lambda>a. Ok (a = [1])) 3 [9] id
       [\<lparr>posAddress = [1], Distance = 0, posGroupBase = 0, posGroupNumber = 1\<rparr>] = Ok (ok, called, nodes) \<and> set called = {[1]}"
proof -
  let ?node = "\<lparr>posAddress = [1], Distance = 0, posGroupBase = 0, posGroupNumber = 1\<rparr> :: Position"
  have run: "GossipCallSpecialGroup ref_env (\<lambda>a. Ok (a = [1])) 3 [9] id [?node] = Ok (True, [[1]], [?node])"
    using ref_group by (simp add: GossipCallSpecialGroup_def swap_at_def send_def covers_def InGroup_def in_range_def)
  have "set [[1]] = posAddress ` {node \<in> set [?node]. posAddress node \<noteq> [9] \<and> covers ref_env 0 node}"
    using gossip_reach [OF ref_group, of "\<lambda>a. a = [1]" 3 "[9]" id "[?node]"] unfolding run by simp
  then show ?thesis using run by auto
qed

end
