(* ===== verification/Group_Frame.thy ===== *)
theory Group_Frame
  imports UTXO_Reindex
begin

text \<open>
  The operations on the chain and the set of one group stay inside that group: a frame for nodes that serve several groups.
\<close>

section \<open>What an operation on one group leaves alone\<close>

text \<open>
  Every operation on the group \<open>g\<close> leaves the buckets, the cached heights and the pool of every other group alone, and no operation
  removes a bucket.
\<close>

named_theorems confined_intros \<open>operations that stay inside one group\<close>

definition confined :: "int \<Rightarrow> 'k node \<Rightarrow> 'k node \<Rightarrow> bool" where
  "confined g s s' \<longleftrightarrow>
     (\<forall>g'. g' \<noteq> g \<longrightarrow> (\<forall>name. node_dbs s' name g' = node_dbs s name g') \<and> onceGetHeight s' g' = onceGetHeight s g' \<and>
        cacheHeight s' g' = cacheHeight s g' \<and> onceBlockheadGetHeight s' g' = onceBlockheadGetHeight s g' \<and>
        cacheBlockheadHeight s' g' = cacheBlockheadHeight s g' \<and> mempools s' g' = mempools s g') \<and>
     (\<forall>name. node_dbs s name g \<noteq> None \<longrightarrow> node_dbs s' name g \<noteq> None)"

lemma confined_refl [simp]: "confined g s s"
  by (simp add: confined_def)

lemma confined_trans [trans]: "confined g s t \<Longrightarrow> confined g t u \<Longrightarrow> confined g s u"
  by (simp add: confined_def)

lemma confined_fields [simp]:
  "confined g s (s\<lparr>onceGetHeight := (onceGetHeight s)(g := a)\<rparr>)"
  "confined g s (s\<lparr>cacheHeight := (cacheHeight s)(g := c)\<rparr>)"
  "confined g s (s\<lparr>onceGetHeight := (onceGetHeight s)(g := a), cacheHeight := (cacheHeight s)(g := c)\<rparr>)"
  "confined g s (s\<lparr>cacheBlockheadHeight := (cacheBlockheadHeight s)(g := c)\<rparr>)"
  "confined g s (s\<lparr>onceBlockheadGetHeight := (onceBlockheadGetHeight s)(g := a), cacheBlockheadHeight := (cacheBlockheadHeight s)(g := c)\<rparr>)"
  "confined g s (s\<lparr>mempools := (mempools s)(g := m)\<rparr>)"
  by (simp_all add: confined_def)

lemma confined_ofold:
  assumes "\<And>x s s'. x \<in> set xs \<Longrightarrow> f x s = Ok s' \<Longrightarrow> confined g s s'" and "ofold f xs s = Ok s'"
  shows "confined g s s'"
  using assms
proof (induction xs arbitrary: s)
  case (Cons x xs)
  then obtain t where "f x s = Ok t" "ofold f xs t = Ok s'" by auto
  then show ?case using Cons.IH [of t] Cons.prems(1) confined_trans by (metis list.set_intros)
qed simp

lemma node_Set_confined [confined_intros]: "node_Set E name g k v s = Ok s' \<Longrightarrow> confined g s s'"
  by (auto simp: node_Set_def db_Set_def db_bucket_def confined_def Let_def split: option.splits)

lemma node_Delete_confined [confined_intros]: "node_Delete E name g k s = Ok s' \<Longrightarrow> confined g s s'"
  by (auto simp: node_Delete_def db_Delete_def db_bucket_def confined_def split: option.splits)

lemma node_Clear_confined [simp]: "confined g s (node_Clear E name g s)"
  by (auto simp: node_Clear_def db_Clear_def db_bucket_def confined_def)

subsection \<open>The chain\<close>

lemma GetHeight_confined [confined_intros]: "GetHeight E g s = Ok (h, s') \<Longrightarrow> confined g s s'"
  by (auto simp: GetHeight_def split: if_splits)

lemma SetLastest_confined [confined_intros]: "SetLastest E g b s = Ok s' \<Longrightarrow> confined g s s'"
  by (auto simp: SetLastest_def split: option.splits dest!: node_Set_confined intro: confined_trans)

lemma AddBlockhead_confined [confined_intros]: "AddBlockhead E g b s = Ok (added, s') \<Longrightarrow> confined g s s'"
proof -
  have "confined g s s'" if "Blockhead_GetHeight E g s = Ok (h, s')" for h s'
    using that by (auto simp: Blockhead_GetHeight_def split: if_splits)
  then show "AddBlockhead E g b s = Ok (added, s') \<Longrightarrow> confined g s s'"
    by (auto simp: AddBlockhead_def split: option.splits if_splits dest!: node_Set_confined)
      (blast intro: confined_trans confined_fields)
qed

lemma txn_index_confined [confined_intros]: "ofold (txn_index_put E g) txns s = Ok s' \<Longrightarrow> confined g s s'"
  by (rule confined_ofold) (auto simp: txn_index_put_def intro: node_Set_confined)

text \<open>The steps of \<^verbatim>\<open>AddBlock\<close>.\<close>

lemma AddBlock_steps:
  assumes "AddBlock E g (Some b) s = Ok s'"
  shows "\<exists>h s0. GetHeight E g s = Ok (h, s0) \<and>
    (i32 (h + 1) \<noteq> Height b \<and> s' = s0 \<or> i32 (h + 1) = Height b \<and>
     (\<exists>s1 s2 s3 s4 s5 bytes hash added mg m. SetLastest E g (Some b) s0 = Ok s1 \<and>
       node_Set E Blocks g (KBytes hash) bytes s1 = Ok s2 \<and> node_Set E Blocks g (KInt32 (Height b)) hash s2 = Ok s3 \<and>
       AddBlockhead E g (Some b) s3 = Ok (added, s4) \<and> ofold (txn_index_put E g) (Txns b) s4 = Ok s5 \<and>
       group_mod E (Group b) = Ok mg \<and> s' = s5\<lparr>mempools := (mempools s5)(mg := m)\<rparr>))"
proof -
  obtain h s0 where h: "GetHeight E g s = Ok (h, s0)" using assms by (auto simp: AddBlock_def)
  show ?thesis
  proof (cases "i32 (h + 1) \<noteq> Height b")
    case False
    obtain mg where mg: "group_mod E (Group b) = Ok mg"
      using assms h False by (auto simp: AddBlock_def with_mempool_def Let_def split: if_splits)
    show ?thesis using assms h mg False by (auto simp: AddBlock_def with_mempool_def Let_def case_prod_beta split: if_splits) blast
  qed (use assms h in \<open>simp add: AddBlock_def\<close>)
qed

lemma AddBlock_confined [confined_intros]:
  assumes "AddBlock E g (Some b) s = Ok s'" and "group_mod E (Group b) = Ok g"
  shows "confined g s s'"
proof -
  obtain h s0 where h: "GetHeight E g s = Ok (h, s0)" and rest: "s' = s0 \<or>
     (\<exists>s1 s2 s3 s4 s5 bytes hash added mg m. SetLastest E g (Some b) s0 = Ok s1 \<and>
       node_Set E Blocks g (KBytes hash) bytes s1 = Ok s2 \<and> node_Set E Blocks g (KInt32 (Height b)) hash s2 = Ok s3 \<and>
       AddBlockhead E g (Some b) s3 = Ok (added, s4) \<and> ofold (txn_index_put E g) (Txns b) s4 = Ok s5 \<and>
       group_mod E (Group b) = Ok mg \<and> s' = s5\<lparr>mempools := (mempools s5)(mg := m)\<rparr>)"
    using AddBlock_steps [OF assms(1)] by blast
  have "confined g s0 s'"
  proof (cases "s' = s0")
    case False
    then obtain s1 s2 s3 s4 s5 bytes hash added m where steps: "SetLastest E g (Some b) s0 = Ok s1"
        "node_Set E Blocks g (KBytes hash) bytes s1 = Ok s2" "node_Set E Blocks g (KInt32 (Height b)) hash s2 = Ok s3"
        "AddBlockhead E g (Some b) s3 = Ok (added, s4)" "ofold (txn_index_put E g) (Txns b) s4 = Ok s5"
        "s' = s5\<lparr>mempools := (mempools s5)(g := m)\<rparr>"
      using rest assms(2) by auto
    have "confined g s0 s1" "confined g s1 s2" "confined g s2 s3" "confined g s3 s4" "confined g s4 s5" "confined g s5 s'"
      using steps by (auto intro: confined_intros)
    then show ?thesis by (meson confined_trans)
  qed simp
  then show ?thesis using GetHeight_confined [OF h] confined_trans by blast
qed

lemma DeleteBlock_confined [confined_intros]: "DeleteBlock E g b s = Ok s' \<Longrightarrow> confined g s s'"
proof -
  have "confined g s s'" if "ofold (\<lambda>txn. node_Delete E Txns_db g (KBytes (Transaction_Hash E txn))) txns s = Ok s'" for txns s
    by (rule confined_ofold [OF _ that]) (rule node_Delete_confined)
  then show "DeleteBlock E g b s = Ok s' \<Longrightarrow> confined g s s'"
    by (auto simp: DeleteBlock_def dest!: node_Delete_confined) (blast intro: confined_trans)
qed

lemma TxnReindex_cleared: "TxnReindex E g s = Ok s' \<Longrightarrow> confined g (node_Clear E Txns_db g s) s'"
  by (auto simp: TxnReindex_def Let_def intro: txn_index_confined)

lemma TxnReindex_confined [confined_intros]: "TxnReindex E g s = Ok s' \<Longrightarrow> confined g s s'"
  using confined_trans [OF node_Clear_confined TxnReindex_cleared] .

subsection \<open>The set of unspent outputs\<close>

lemma put_outs_confined [confined_intros]: "put_outs E us h outs s = Ok s' \<Longrightarrow> confined (set_group us) s s'"
  by (auto simp: put_outs_def intro: node_Set_confined)

lemma Reindex_cleared:
  assumes "Reindex E us s = Ok s'"
  shows "confined (set_group us) (node_Clear E UTXOs (set_group us) s) s'"
proof -
  have "confined (set_group us) s s'"
    if "ofold (\<lambda>(txnHash, utxos) s.
         case DecodeString txnHash of (hash, err) \<Rightarrow> if err \<noteq> None then Exit else put_outs E us hash utxos s) m s = Ok s'" for m s
    by (rule confined_ofold [OF _ that]) (auto split: prod.splits if_splits intro: put_outs_confined)
  then show ?thesis using assms by (auto simp: Reindex_def)
qed

lemma Reindex_confined [confined_intros]: "Reindex E us s = Ok s' \<Longrightarrow> confined (set_group us) s s'"
  using confined_trans [OF node_Clear_confined Reindex_cleared] .

lemma node_Clear_made: "confined g (node_Clear E name g s) s' \<Longrightarrow> node_dbs s' name g \<noteq> None"
  by (simp add: confined_def node_Clear_def db_Clear_def db_bucket_def)

lemma update_vins_confined: "update_vins E us vins s = Ok (missing, s') \<Longrightarrow> confined (set_group us) s s'"
proof (induction vins arbitrary: s)
  case (Cons vin vins)
  show ?case
  proof (cases "node_Get E UTXOs (set_group us) (KBytes (VoutHash vin)) s \<in> {None, Some []}")
    case True
    then show ?thesis using Cons by (auto split: if_splits)
  next
    case False
    then obtain b where b: "node_Get E UTXOs (set_group us) (KBytes (VoutHash vin)) s = Some b" "b \<noteq> []" by auto
    let ?outs = "filter (\<lambda>out. \<not> IsLockedWithKey E out (PubKey vin)) (BytesToTxnOutputs E b)"
    obtain t where t: "(if ?outs = [] then node_Delete E UTXOs (set_group us) (KBytes (VoutHash vin)) s
        else put_outs E us (VoutHash vin) ?outs s) = Ok t" "update_vins E us vins t = Ok (missing, s')"
      using Cons.prems b by (auto simp: Let_def)
    have "confined (set_group us) s t" using t(1) by (auto split: if_splits intro: confined_intros)
    moreover have "confined (set_group us) t s'" by (rule Cons.IH [OF t(2)])
    ultimately show ?thesis by (rule confined_trans)
  qed
qed simp

lemma update_txns_confined: "update_txns E us txns s = Ok (missing, s') \<Longrightarrow> confined (set_group us) s s'"
proof (induction txns arbitrary: s)
  case (Cons txn txns)
  obtain m t where t: "(if IsCoinbase txn then Ok (False, s) else update_vins E us (Vin txn) s) = Ok (m, t)"
      "if m then missing \<and> s' = t else obind (put_outs E us (Transaction_Hash E txn) (Vout txn) t) (update_txns E us txns) = Ok (missing, s')"
    using Cons.prems by (auto split: if_splits)
  have "confined (set_group us) s t" using t(1) by (auto split: if_splits intro: update_vins_confined)
  moreover have "confined (set_group us) t s'"
    using t(2) Cons.IH by (auto split: if_splits dest!: put_outs_confined intro: confined_trans)
  ultimately show ?case by (rule confined_trans)
qed simp

lemma Update_confined [confined_intros]:
  assumes "Update E us b s = Ok s'" and "set_bc us = set_group us"
  shows "confined (set_group us) s s'"
proof -
  obtain missing t where t: "update_txns E us (Txns b) s = Ok (missing, t)"
      "if missing then obind (Reindex E us t) (TxnReindex E (set_group us)) = Ok s' else s' = t"
    using assms by (auto simp: Update_def split: if_splits)
  have "confined (set_group us) t s'"
    using t(2) by (auto split: if_splits dest!: Reindex_confined TxnReindex_confined intro: confined_trans)
  then show ?thesis using update_txns_confined [OF t(1)] confined_trans by blast
qed

lemma Reverse_confined [confined_intros]:
  assumes "Reverse E us b s = Ok s'"
  shows "confined (set_group us) s s'"
  using assms unfolding Reverse_def
proof (rule confined_ofold [rotated])
  fix txn s s'
  assume r: "reverse_txn E us txn s = Ok s'"
  have "confined (set_group us) t s'" if "ofold (reverse_vin E us) vins t = Ok s'" for vins t
    by (rule confined_ofold [OF _ that]) (auto simp: reverse_vin_def Let_def intro: put_outs_confined)
  then show "confined (set_group us) s s'"
    using r by (auto simp: reverse_txn_def split: if_splits dest!: node_Delete_confined intro: confined_trans)
qed

end
