(* ===== verification/Sync.thy ===== *)
theory Sync
  imports Mining Network Group_Frame
begin

text \<open>
  \<^verbatim>\<open>api/sync.go\<close> with the client sides of \<^verbatim>\<open>api/db.go\<close> and \<^verbatim>\<open>api/version.go\<close> that it calls: a node asks others for its first block
  and for their height, and replaces its chain by a longer one. What other nodes answer is a parameter. The mutex
  \<^verbatim>\<open>SyncLock\<close> makes \<^verbatim>\<open>syncBlocks\<close> one step.
\<close>

section \<open>Peers\<close>

record Version =
  vGroup :: int
  vVersion :: int
  vHeight :: int
  vRootHash :: HashValue
  vNowHash :: HashValue

text \<open>
  The answers of other nodes. A request that is repeated until it succeeds carries the number of the attempt. \<open>None\<close> is
  an error, \<open>Hang\<close> a request that is never answered; a nil pointer in a list of blocks is an element \<open>None\<close>.
\<close>

record peers =
  peer_genesis :: "nat \<Rightarrow> bytes \<Rightarrow> int \<Rightarrow> Block option outcome"
  peer_version :: "nat \<Rightarrow> bytes \<Rightarrow> Version \<Rightarrow> Version option outcome"
  peer_nodes :: "nat \<Rightarrow> bytes \<Rightarrow> KnownNodesEntry list option outcome"
  peer_hash :: "bytes \<Rightarrow> int \<Rightarrow> int \<Rightarrow> HashValue option outcome"
  peer_blocks :: "bytes \<Rightarrow> int \<Rightarrow> int \<Rightarrow> int \<Rightarrow> HashValue \<Rightarrow> Block option list option outcome"

text \<open>The lists of nodes, the \<^verbatim>\<open>sync.Once\<close> of \<^verbatim>\<open>Register\<close>, and the random numbers of the shuffles.\<close>

record net =
  registered :: bool
  known :: KnownNodes
  sorted_nodes :: "Position list"

definition protocol_version :: int where
  "protocol_version = 0"

section \<open>Requests\<close>

definition request_genesis :: "('k, 'z) env_scheme \<Rightarrow> peers \<Rightarrow> nat \<Rightarrow> int \<Rightarrow> Position list \<Rightarrow> Block option outcome" where
  "request_genesis E P n g nodes =
     obind (CallInnerGroup E (\<lambda>a. peer_genesis P n a g) nodes) (\<lambda>r.
       case r of None \<Rightarrow> Ok None
       | Some (reply, _) \<Rightarrow> obind (Block_Verify E reply) (\<lambda>ok. Ok (if ok then Some reply else None)))"

text \<open>The height of the node that answered, whether there is an error, and its address.\<close>

definition SendVersion ::
  "('k, 'z) env_scheme \<Rightarrow> peers \<Rightarrow> nat \<Rightarrow> int \<Rightarrow> int \<Rightarrow> HashValue \<Rightarrow> HashValue \<Rightarrow> Position list \<Rightarrow> (int \<times> bool \<times> bytes) outcome" where
  "SendVersion E P n g nowHeight rootHash nowHash nodes =
     (let args = \<lparr>vGroup = g, vVersion = protocol_version, vHeight = nowHeight, vRootHash = rootHash, vNowHash = nowHash\<rparr>
      in obind (CallInnerGroup E (\<lambda>a. peer_version P n a args) nodes) (\<lambda>r.
           case r of None \<Rightarrow> Ok (0, True, [])
           | Some (reply, address) \<Rightarrow>
               Ok (vHeight reply, vVersion reply \<noteq> vVersion args \<or> \<not> HashValue_Equal (vRootHash reply) (vRootHash args), address)))"

section \<open>Synchronising one chain\<close>

text \<open>
  The binary search for the first height at which the two chains differ; \<open>None\<close> when the peer reports an error. Heights
  are not negative, so the arithmetic of the source does not overflow.
\<close>

function sync_search ::
  "('k, 'z) env_scheme \<Rightarrow> (int \<Rightarrow> HashValue option outcome) \<Rightarrow> int \<Rightarrow> 'k node \<Rightarrow> int \<Rightarrow> int \<Rightarrow> (int \<times> int) option outcome" where
  "sync_search E hash_at bc s l r =
     (if r < l then Ok (Some (l, r))
      else let m = l + (r - l) sdiv 2
           in obind (hash_at m) (\<lambda>answer.
              case answer of None \<Rightarrow> Ok None
              | Some hash \<Rightarrow>
                  obind (GetBlockByHeight E bc m s) (\<lambda>block.
                    case block of None \<Rightarrow> Panic
                    | Some b \<Rightarrow> obind (Block_Hash E b) (\<lambda>h.
                        if HashValue_Equal hash h then sync_search E hash_at bc s (m + 1) r
                        else sync_search E hash_at bc s l (m - 1)))))"
  by pat_completeness auto
termination
  by (relation "measure (\<lambda>(E, hash_at, bc, s, l, r). nat (r - l + 1))") (auto simp: sdiv_2_nonneg)

declare sync_search.simps [simp del]

text \<open>Undoing \<open>n\<close> blocks from height \<open>i\<close> down.\<close>

fun undo_blocks :: "('k, 'z) env_scheme \<Rightarrow> int \<Rightarrow> UTXOSet \<Rightarrow> int \<Rightarrow> nat \<Rightarrow> 'k node \<Rightarrow> 'k node outcome" where
  "undo_blocks E bc us i 0 s = Ok s"
| "undo_blocks E bc us i (Suc n) s =
     obind (GetBlockByHeight E bc i s) (\<lambda>block.
       case block of None \<Rightarrow> undo_blocks E bc us (i - 1) n s
       | Some b \<Rightarrow>
           obind (Reverse E us b s) (\<lambda>s.
           obind (DeleteBlock E bc b s) (\<lambda>s. undo_blocks E bc us (i - 1) n s)))"

fun append_blocks ::
  "('k, 'z) env_scheme \<Rightarrow> int \<Rightarrow> UTXOSet \<Rightarrow> HashValue \<Rightarrow> Block option list \<Rightarrow> 'k node \<Rightarrow> 'k node outcome" where
  "append_blocks E bc us lastestHash [] s = Ok s"
| "append_blocks E bc us lastestHash (None # blocks) s = Panic"
| "append_blocks E bc us lastestHash (Some b # blocks) s =
     (if \<not> HashValue_Equal lastestHash (PrevHash b) then Ok s
      else obind (AddBlock E bc (Some b) s) (\<lambda>s.
           obind (Update E us b s) (\<lambda>s.
           obind (Block_Hash E b) (\<lambda>h. append_blocks E bc us h blocks s))))"

definition syncBlocks :: "('k, 'z) env_scheme \<Rightarrow> peers \<Rightarrow> int \<Rightarrow> int \<Rightarrow> bytes \<Rightarrow> 'k node \<Rightarrow> 'k node outcome" where
  "syncBlocks E P g newHeight address s =
     obind (GetBlockchain E g) (\<lambda>bc.
     obind (GetHeight E bc s) (\<lambda>(lastestHeight, s).
       if newHeight \<le> lastestHeight then Ok s
       else if lastestHeight = -1 then Ok s
       else obind (GetLastest E bc s) (\<lambda>r.
         case r of None \<Rightarrow> Panic
         | Some lastest \<Rightarrow>
             obind (Block_Hash E lastest) (\<lambda>originHash.
             obind (sync_search E (peer_hash P address g) bc s 0 lastestHeight) (\<lambda>found.
               case found of None \<Rightarrow> Ok s
               | Some (l, r) \<Rightarrow>
                   obind (GetBlockByHeight E bc r s) (\<lambda>same.
                     case same of None \<Rightarrow> Exit
                     | Some lastest \<Rightarrow>
                         obind (SetLastest E bc (Some lastest) s) (\<lambda>s.
                         obind (Block_Hash E lastest) (\<lambda>lastestHash.
                         obind (peer_blocks P address g l newHeight lastestHash) (\<lambda>fetched.
                           case fetched of
                             None \<Rightarrow> obind (GetBlockByHash E bc originHash s) (\<lambda>b. SetLastest E bc b s)
                           | Some blocks \<Rightarrow>
                               obind (GetUTXOSet E g) (\<lambda>us.
                               obind (undo_blocks E bc us lastestHeight (nat (lastestHeight - r)) s)
                                 (append_blocks E bc us lastestHash blocks)))))))))))"

section \<open>Synchronising a node\<close>

text \<open>The loop that asks for the first block of a chain until a peer sends one that verifies.\<close>

partial_function (option) genesis_loop ::
  "('k, 'z) env_scheme \<Rightarrow> peers \<Rightarrow> (nat \<Rightarrow> nat \<Rightarrow> nat) \<Rightarrow> nat \<Rightarrow> int \<Rightarrow> net \<Rightarrow> (Block \<times> net) outcome option" where
  "genesis_loop E P rnd n g N =
     (case request_genesis E P n g (sorted_nodes N) of
        Ok (Some b) \<Rightarrow> Some (Ok (b, N))
      | Ok None \<Rightarrow>
          (case obind (GetKnownNodes E (peer_nodes P n) (sorted_nodes N) (known N)) (\<lambda>(_, kn).
                  obind (UpdateSortedNodes E (rnd n) kn) (\<lambda>ps. Ok (N\<lparr>known := kn, sorted_nodes := ps\<rparr>))) of
             Ok N \<Rightarrow> genesis_loop E P rnd (Suc n) g N
           | Exit \<Rightarrow> Some Exit | Panic \<Rightarrow> Some Panic | Hang \<Rightarrow> Some Hang)
      | Exit \<Rightarrow> Some Exit | Panic \<Rightarrow> Some Panic | Hang \<Rightarrow> Some Hang)"

text \<open>The loop that asks for the height of a peer with the same first block.\<close>

partial_function (option) version_loop ::
  "('k, 'z) env_scheme \<Rightarrow> peers \<Rightarrow> nat \<Rightarrow> int \<Rightarrow> int \<Rightarrow> HashValue \<Rightarrow> HashValue \<Rightarrow> Position list \<Rightarrow> (int \<times> bytes) outcome option" where
  "version_loop E P n g h rootHash nowHash nodes =
     (case SendVersion E P n g h rootHash nowHash nodes of
        Ok (height, err, address) \<Rightarrow>
          if \<not> err then Some (Ok (height, address)) else version_loop E P (Suc n) g h rootHash nowHash nodes
      | Exit \<Rightarrow> Some Exit | Panic \<Rightarrow> Some Panic | Hang \<Rightarrow> Some Hang)"

definition Sync ::
  "('k, 'z) env_scheme \<Rightarrow> peers \<Rightarrow> (nat \<Rightarrow> nat \<Rightarrow> nat) \<Rightarrow> int \<Rightarrow> net \<times> 'k node \<Rightarrow> (net \<times> 'k node) outcome" where
  "Sync E P rnd g = (\<lambda>(N, s).
     obind (group_mod E g) (\<lambda>g.
     obind (network_Register E (rnd 0) (registered N, known N, sorted_nodes N)) (\<lambda>(reg, kn, ps).
       let N = N\<lparr>registered := reg, known := kn, sorted_nodes := ps\<rparr> in
     obind (GetBlockchain E g) (\<lambda>bc.
     obind (GetHeight E bc s) (\<lambda>(h, s).
     obind (if h < 0
            then obind (obind (returns (genesis_loop E P rnd 1 g N)) id) (\<lambda>(genesis, N).
                 obind (AddBlock E bc (Some genesis) s) (\<lambda>s.
                 obind (GetUTXOSet E g) (\<lambda>us.
                 obind (Reindex E us s) (\<lambda>s.
                 obind (TxnReindex E bc s) (\<lambda>s. Ok (N, s))))))
            else Ok (N, s)) (\<lambda>(N, s).
     obind (GetGenesis E bc s) (\<lambda>genesis.
     obind (GetLastest E bc s) (\<lambda>lastest.
       case (genesis, lastest) of
         (Some genesis, Some lastest) \<Rightarrow>
           obind (Block_Hash E genesis) (\<lambda>rootHash.
           obind (Block_Hash E lastest) (\<lambda>nowHash.
           obind (obind (returns (version_loop E P 0 g (Height lastest) rootHash nowHash (sorted_nodes N))) id) (\<lambda>(height, address).
           obind (syncBlocks E P g height address s) (\<lambda>s. Ok (N, s)))))
       | _ \<Rightarrow> Panic))))))))"

section \<open>The search finds the fork\<close>

lemma sync_search_fork:
  assumes blocks: "\<And>m. 0 \<le> m \<Longrightarrow> m \<le> upper \<Longrightarrow> \<exists>b h. GetBlockByHeight E bc m s = Ok (Some b) \<and> Block_Hash E b = Ok h \<and>
      (\<exists>hash. hash_at m = Ok (Some hash) \<and> (hash = h \<longleftrightarrow> m < c))"
    and range: "0 \<le> l" "l \<le> c" "c \<le> r + 1" "r \<le> upper"
  shows "sync_search E hash_at bc s l r = Ok (Some (c, c - 1))"
  using assms
proof (induction E hash_at bc s l r rule: sync_search.induct)
  case (1 E hash_at bc s l r)
  show ?case
  proof (cases "r < l")
    case True
    then have "l = c" "r = c - 1" using "1.prems" by auto
    then show ?thesis using True by (simp add: sync_search.simps)
  next
    case False
    let ?m = "l + (r - l) sdiv 2"
    have m: "l \<le> ?m" "?m \<le> r" using False by (auto simp: sdiv_2_nonneg)
    then have bound: "0 \<le> ?m" "?m \<le> upper" using "1.prems"(2,5) by linarith+
    obtain b h hash where b: "GetBlockByHeight E bc ?m s = Ok (Some b)" "Block_Hash E b = Ok h" "hash_at ?m = Ok (Some hash)"
        "hash = h \<longleftrightarrow> ?m < c"
      using "1.prems"(1) [OF bound] by blast
    show ?thesis
    proof (cases "?m < c")
      case True
      then have "sync_search E hash_at bc s l r = sync_search E hash_at bc s (?m + 1) r"
        using False b by (subst sync_search.simps) (simp add: Let_def HashValue_Equal_def)
      moreover have "sync_search E hash_at bc s (?m + 1) r = Ok (Some (c, c - 1))"
        using True b False "1.prems" bound by (intro "1.IH"(1) [OF False refl b(3) refl b(1) refl b(2)]) (auto simp: HashValue_Equal_def)
      ultimately show ?thesis by simp
    next
      case c: False
      then have "sync_search E hash_at bc s l r = sync_search E hash_at bc s l (?m - 1)"
        using False b by (subst sync_search.simps) (simp add: Let_def HashValue_Equal_def)
      moreover have "sync_search E hash_at bc s l (?m - 1) = Ok (Some (c, c - 1))"
        using c b False "1.prems" m by (intro "1.IH"(2) [OF False refl b(3) refl b(1) refl b(2)]) (auto simp: HashValue_Equal_def)
      ultimately show ?thesis by simp
    qed
  qed
qed

section \<open>Frame\<close>

lemma undo_blocks_confined:
  "undo_blocks E g \<lparr>set_bc = g, set_group = g\<rparr> i n s = Ok s' \<Longrightarrow> confined g s s'"
proof (induction n arbitrary: i s)
  case (Suc n)
  obtain block where block: "GetBlockByHeight E g i s = Ok block" using Suc.prems by auto
  show ?case
  proof (cases block)
    case None
    then show ?thesis using Suc block by auto
  next
    case (Some b)
    then obtain s1 s2 where "Reverse E \<lparr>set_bc = g, set_group = g\<rparr> b s = Ok s1" "DeleteBlock E g b s1 = Ok s2"
        "undo_blocks E g \<lparr>set_bc = g, set_group = g\<rparr> (i - 1) n s2 = Ok s'"
      using Suc.prems block by auto
    then show ?thesis using Suc.IH Reverse_confined [of E "\<lparr>set_bc = g, set_group = g\<rparr>"] DeleteBlock_confined confined_trans
      by (metis UTXOSet.select_convs(2))
  qed
qed simp

lemma append_blocks_confined:
  assumes "append_blocks E g \<lparr>set_bc = g, set_group = g\<rparr> h (map Some bs) s = Ok s'" and "\<forall>b \<in> set bs. group_mod E (Group b) = Ok g"
  shows "confined g s s'"
  using assms
proof (induction bs arbitrary: h s)
  case (Cons b bs)
  show ?case
  proof (cases "HashValue_Equal h (PrevHash b)")
    case True
    then obtain s1 s2 h' where "AddBlock E g (Some b) s = Ok s1" "Update E \<lparr>set_bc = g, set_group = g\<rparr> b s1 = Ok s2"
        "append_blocks E g \<lparr>set_bc = g, set_group = g\<rparr> h' (map Some bs) s2 = Ok s'"
      using Cons.prems(1) by auto
    then have "confined g s s1" "confined g s1 s2" "confined g s2 s'"
      using Cons.IH Cons.prems(2) AddBlock_confined Update_confined [of E "\<lparr>set_bc = g, set_group = g\<rparr>"] by fastforce+
    then show ?thesis by (meson confined_trans)
  qed (use Cons.prems(1) in auto)
qed simp

section \<open>A chain with a lowered end\<close>

text \<open>The blocks \<open>bs\<close> are stored, but the newest block and the cached height are those of the first \<open>k\<close> of them.\<close>

definition chain_upto :: "('k, 'z) env_scheme \<Rightarrow> int \<Rightarrow> Block list \<Rightarrow> nat \<Rightarrow> 'k node \<Rightarrow> bool" where
  "chain_upto E g bs k s \<longleftrightarrow>
     length bs \<le> 2 ^ 24 \<and> (\<forall>i < length bs. Height (bs ! i) = int i) \<and> linked E [] bs \<and>
     (\<forall>b \<in> set bs. block_stored E g b s) \<and> lastest_stored E g (take k bs) s \<and>
     (\<forall>h. int (length bs) \<le> h \<longrightarrow> h < 2 ^ 24 \<longrightarrow> node_Get E Blocks g (KInt32 h) s = None) \<and>
     onceGetHeight s g \<and> cacheHeight s g = int k - 1"

lemma chain_upto_all: "chain_upto E g bs (length bs) s \<longleftrightarrow> chain_ok E g bs s \<and> onceGetHeight s g"
  by (auto simp: chain_upto_def chain_ok_def)

lemma chain_upto_same: "same_blocks E g s s' \<Longrightarrow> chain_upto E g bs k s' = chain_upto E g bs k s"
  by (simp add: same_blocks_def chain_upto_def block_stored_def lastest_stored_def)

text \<open>What the rest of the node needs so that blocks can be taken back and added.\<close>

definition store_ok :: "('k, 'z) env_scheme \<Rightarrow> int \<Rightarrow> 'k node \<Rightarrow> bool" where
  "store_ok E g s \<longleftrightarrow> heads_ok E g s \<and> pool_ok E (mempools s g) \<and> set_ok E \<lparr>set_bc = g, set_group = g\<rparr> s"

definition buckets_made :: "int \<Rightarrow> 'k node \<Rightarrow> bool" where
  "buckets_made g s \<longleftrightarrow> (\<forall>name \<in> {Blocks, Blockheads, Txns_db, UTXOs}. node_dbs s name g \<noteq> None)"

lemma node_Delete_buckets:
  "node_Delete E name g k s = Ok s' \<Longrightarrow> buckets_made g' s \<Longrightarrow> buckets_made g' s'"
  by (auto simp: node_Delete_def db_Delete_def db_bucket_def buckets_made_def split: option.splits)

lemma node_Set_buckets:
  "node_Set E name g k v s = Ok s' \<Longrightarrow> buckets_made g' s \<Longrightarrow> buckets_made g' s'"
  by (auto simp: node_Set_def db_Set_def db_bucket_def buckets_made_def Let_def split: option.splits)

lemma node_Delete_ok:
  "buckets_made g s \<Longrightarrow> name \<in> {Blocks, Blockheads, Txns_db, UTXOs} \<Longrightarrow> \<exists>db. node_Delete E name g k s = Ok (s\<lparr>node_dbs := db\<rparr>)"
  by (auto simp: buckets_made_def node_Delete_def db_Delete_def)

context node_env
begin

lemma node_Delete_keeps_other: "node_Delete E name g k s = Ok s' \<Longrightarrow> keeps_other E name g s s'"
  by (auto simp: keeps_other_def node_Get_Delete)

lemma delete_txns:
  assumes "buckets_made g s"
  shows "\<exists>db. ofold (\<lambda>txn. node_Delete E Txns_db g (KBytes (Transaction_Hash E txn))) ts s = Ok (s\<lparr>node_dbs := db\<rparr>) \<and>
    keeps_other E Txns_db g s (s\<lparr>node_dbs := db\<rparr>) \<and> buckets_made g (s\<lparr>node_dbs := db\<rparr>)"
  using assms
proof (induction ts arbitrary: s)
  case Nil
  then show ?case by (intro exI [of _ "node_dbs s"]) simp
next
  case (Cons t ts)
  obtain db where db: "node_Delete E Txns_db g (KBytes (Transaction_Hash E t)) s = Ok (s\<lparr>node_dbs := db\<rparr>)"
    using node_Delete_ok [OF Cons.prems, of Txns_db] by auto
  obtain db' where "ofold (\<lambda>txn. node_Delete E Txns_db g (KBytes (Transaction_Hash E txn))) ts (s\<lparr>node_dbs := db\<rparr>) = Ok (s\<lparr>node_dbs := db'\<rparr>)"
      "keeps_other E Txns_db g (s\<lparr>node_dbs := db\<rparr>) (s\<lparr>node_dbs := db'\<rparr>)" "buckets_made g (s\<lparr>node_dbs := db'\<rparr>)"
    using Cons.IH [OF node_Delete_buckets [OF db Cons.prems]] by auto
  then show ?case using db keeps_other_trans [OF node_Delete_keeps_other [OF db]] by auto
qed

text \<open>The keys of the bucket of blocks are apart by their lengths.\<close>

lemma keys_apart:
  assumes "length h = 32"
  shows "interfaceToBytes lastest_key \<noteq> h"
    and "0 \<le> i \<Longrightarrow> i < 2 ^ 24 \<Longrightarrow> interfaceToBytes (KInt32 i) \<noteq> h"
    and "0 \<le> i \<Longrightarrow> i < 2 ^ 24 \<Longrightarrow> interfaceToBytes (KInt32 i) \<noteq> interfaceToBytes lastest_key"
proof -
  show "interfaceToBytes lastest_key \<noteq> h" using assms lastest_key_bytes(1) by (metis numeral_eq_iff semiring_norm(89,90))
  show "interfaceToBytes (KInt32 i) \<noteq> h" if "0 \<le> i" "i < 2 ^ 24" using height_key_props(2) [OF that] assms by auto
  show "interfaceToBytes (KInt32 i) \<noteq> interfaceToBytes lastest_key" if "0 \<le> i" "i < 2 ^ 24"
    using height_key_props(2) [OF that] lastest_key_bytes(1) by (intro notI) simp
qed

lemma stored_hash_inject:
  assumes "block_stored E g b s" "block_stored E g b' s" "Block_Hash E b = Ok h" "Block_Hash E b' = Ok h"
  shows "b = b'"
  using assms marshal_block_inject by (auto simp: block_stored_def)

text \<open>Deleting the last of the stored blocks.\<close>

lemma DeleteBlock_last:
  assumes up: "chain_upto E g (bs @ [b]) k s" and k: "k \<le> length bs" and made: "buckets_made g s"
  shows "\<exists>db. DeleteBlock E g b s = Ok (s\<lparr>node_dbs := db\<rparr>) \<and> chain_upto E g bs k (s\<lparr>node_dbs := db\<rparr>) \<and>
    buckets_made g (s\<lparr>node_dbs := db\<rparr>) \<and>
    (\<forall>key. node_Get E UTXOs g key (s\<lparr>node_dbs := db\<rparr>) = node_Get E UTXOs g key s) \<and>
    (heads_ok E g s \<longrightarrow> heads_ok E g (s\<lparr>node_dbs := db\<rparr>))"
proof -
  obtain h bytes where h: "Block_Hash E b = Ok h" "marshal_block E b = Some bytes"
      "node_Get E Blocks g (KBytes h) s = Some bytes" "node_Get E Blocks g (KInt32 (Height b)) s = Some h"
    using up by (auto simp: chain_upto_def block_stored_def)
  have height: "Height b = int (length bs)" using up by (auto simp: chain_upto_def nth_append dest: spec [of _ "length bs"])
  obtain db1 where d1: "node_Delete E Blocks g (KBytes h) s = Ok (s\<lparr>node_dbs := db1\<rparr>)"
    using node_Delete_ok [OF made, of Blocks] by auto
  note made1 = node_Delete_buckets [OF d1 made]
  obtain db2 where d2: "node_Delete E Blocks g (KInt32 (Height b)) (s\<lparr>node_dbs := db1\<rparr>) = Ok (s\<lparr>node_dbs := db2\<rparr>)"
    using node_Delete_ok [OF made1, of Blocks] by auto
  note made2 = node_Delete_buckets [OF d2 made1]
  obtain db3 where d3: "node_Delete E Blockheads g (KInt32 (Height b)) (s\<lparr>node_dbs := db2\<rparr>) = Ok (s\<lparr>node_dbs := db3\<rparr>)"
    using node_Delete_ok [OF made2, of Blockheads] by auto
  note made3 = node_Delete_buckets [OF d3 made2]
  obtain db4 where d4: "ofold (\<lambda>txn. node_Delete E Txns_db g (KBytes (Transaction_Hash E txn))) (Txns b) (s\<lparr>node_dbs := db3\<rparr>) =
        Ok (s\<lparr>node_dbs := db4\<rparr>)" "keeps_other E Txns_db g (s\<lparr>node_dbs := db3\<rparr>) (s\<lparr>node_dbs := db4\<rparr>)"
      "buckets_made g (s\<lparr>node_dbs := db4\<rparr>)"
    using delete_txns [OF made3, of "Txns b"] by auto
  have get: "node_Get E Blocks g key (s\<lparr>node_dbs := db4\<rparr>) =
      (if interfaceToBytes key = h \<or> interfaceToBytes key = interfaceToBytes (KInt32 (Height b)) then None
       else node_Get E Blocks g key s)" for key
    using d4(2) by (simp add: keeps_other_def node_Get_Delete [OF d3] node_Get_Delete [OF d2] node_Get_Delete [OF d1])
  have utxos: "node_Get E UTXOs g key (s\<lparr>node_dbs := db4\<rparr>) = node_Get E UTXOs g key s" for key
    using d4(2) by (simp add: keeps_other_def node_Get_Delete [OF d3] node_Get_Delete [OF d2] node_Get_Delete [OF d1])
  have "heads_ok E g (s\<lparr>node_dbs := db4\<rparr>)" if "heads_ok E g s"
    using that d4(2) by (simp add: heads_ok_def keeps_other_def node_Get_Delete [OF d3] node_Get_Delete [OF d2] node_Get_Delete [OF d1])
  moreover have "DeleteBlock E g b s = Ok (s\<lparr>node_dbs := db4\<rparr>)"
    using h(1) d1 d2 d3 d4(1) by (simp add: DeleteBlock_def)
  moreover have "chain_upto E g bs k (s\<lparr>node_dbs := db4\<rparr>)"
  proof -
    have len: "length h = 32" by (rule Block_Hash_length [OF h(1)])
    have bound: "0 \<le> Height b" "Height b < 2 ^ 24" using up height by (simp_all add: chain_upto_def)
    have stored: "block_stored E g b' (s\<lparr>node_dbs := db4\<rparr>)" if mem: "b' \<in> set bs" for b'
    proof -
      obtain i where i: "i < length bs" "b' = bs ! i" using mem by (auto simp: in_set_conv_nth)
      then have "Height ((bs @ [b]) ! i) = int i" using up unfolding chain_upto_def by simp
      then have hb: "Height b' = int i" using i by (simp add: nth_append)
      then have bound': "0 \<le> Height b'" "Height b' < 2 ^ 24" using i(1) height bound by simp_all
      have st: "block_stored E g b' s" "block_stored E g b s" using up mem by (auto simp: chain_upto_def)
      then obtain h' where h': "Block_Hash E b' = Ok h'" by (auto simp: block_stored_def)
      have "h' \<noteq> h" using stored_hash_inject [OF st h'] h(1) hb height i(1) by auto
      moreover have "interfaceToBytes (KInt32 (Height b')) \<noteq> interfaceToBytes (KInt32 (Height b))"
        using height_key_eq_iff [OF bound' bound] hb height i(1) by simp
      ultimately show ?thesis
        using st(1) h' keys_apart [OF len] keys_apart(2) [OF Block_Hash_length [OF h']] bound bound'
        by (fastforce simp: block_stored_def get)
    qed
    have none: "node_Get E Blocks g (KInt32 i) (s\<lparr>node_dbs := db4\<rparr>) = None" if i: "int (length bs) \<le> i" "i < 2 ^ 24" for i
    proof (cases "i = int (length bs)")
      case True
      then show ?thesis by (simp add: get height)
    next
      case False
      then have "node_Get E Blocks g (KInt32 i) s = None" using up i unfolding chain_upto_def by simp
      then show ?thesis by (simp add: get)
    qed
    have "lastest_stored E g (take k bs) (s\<lparr>node_dbs := db4\<rparr>)"
      using up k keys_apart(1) [OF len] keys_apart(3) [OF len bound] by (simp add: chain_upto_def lastest_stored_def get)
    moreover have "\<forall>i < length bs. Height (bs ! i) = int i"
      using up by (auto simp: chain_upto_def nth_append less_Suc_eq)
    ultimately show ?thesis
      using up stored none unfolding chain_upto_def by (simp add: linked_append)
  qed
  ultimately show ?thesis using d4(3) utxos by blast
qed

end

section \<open>Taking blocks back\<close>

text \<open>Inputs of ordinary transactions name a transaction; only then can \<^verbatim>\<open>Reverse\<close> store their outputs.\<close>

definition named_inputs :: "Block \<Rightarrow> bool" where
  "named_inputs b \<longleftrightarrow> (\<forall>t \<in> set (Txns b). \<not> IsCoinbase t \<longrightarrow> (\<forall>vin \<in> set (Vin t). VoutHash vin \<noteq> []))"

lemma reverse_buckets:
  assumes "Reverse E us b s = Ok s'" and "buckets_made g s"
  shows "buckets_made g s'"
proof -
  have vin: "buckets_made g t'" if "reverse_vin E us v t = Ok t'" "buckets_made g t" for v t t'
    using that by (auto simp: reverse_vin_def put_outs_def Let_def dest: node_Set_buckets)
  have "buckets_made g t'" if rev: "reverse_txn E us txn t = Ok t'" "buckets_made g t" for txn t t'
  proof (cases "IsCoinbase txn")
    case False
    then obtain t1 where "node_Delete E UTXOs (set_group us) (KBytes (Transaction_Hash E txn)) t = Ok t1"
        "ofold (reverse_vin E us) (Vin txn) t1 = Ok t'"
      using rev(1) by (auto simp: reverse_txn_def)
    then show ?thesis using rev(2) vin node_Delete_buckets ofold_invariant [of "reverse_vin E us" "Vin txn" t1 t' "buckets_made g"]
      by blast
  qed (use rev in \<open>simp add: reverse_txn_def\<close>)
  then show ?thesis
    using assms ofold_invariant [of "reverse_txn E us" "rev (Txns b)" s s' "buckets_made g"] by (auto simp: Reverse_def)
qed

context node_env
begin

lemma keeps_node_upto: "keeps_node E us s s' \<Longrightarrow> chain_upto E g bs k s' = chain_upto E g bs k s"
  by (rule chain_upto_same) (auto simp: same_blocks_def keeps_node_def keeps_other_def)

lemma keeps_node_store:
  "keeps_node E us s s' \<Longrightarrow> heads_ok E g s' = heads_ok E g s" "keeps_node E us s s' \<Longrightarrow> mempools s' = mempools s"
  by (auto simp: keeps_node_def keeps_other_def heads_ok_def)

lemma upto_block_at:
  assumes "chain_upto E g bs k s" and "i < length bs"
  shows "GetBlockByHeight E g (int i) s = Ok (Some (bs ! i))"
proof -
  have "block_stored E g (bs ! i) s" "Height (bs ! i) = int i" using assms by (simp_all add: chain_upto_def)
  then show ?thesis by (auto simp: GetBlockByHeight_def block_at_def block_stored_def BytesToBlock_Some)
qed

lemma undo_step:
  assumes up: "chain_upto E g (bs @ [b]) k s" "k \<le> length bs" and st: "store_ok E g s" "buckets_made g s" "named_inputs b"
  shows "\<exists>s'. undo_blocks E g \<lparr>set_bc = g, set_group = g\<rparr> (int (length bs)) (Suc n) s =
      undo_blocks E g \<lparr>set_bc = g, set_group = g\<rparr> (int (length bs) - 1) n s' \<and>
    chain_upto E g bs k s' \<and> store_ok E g s' \<and> buckets_made g s'"
proof -
  let ?us = "\<lparr>set_bc = g, set_group = g\<rparr>"
  have get: "GetBlockByHeight E g (int (length bs)) s = Ok (Some b)"
    using upto_block_at [OF up(1), of "length bs"] by simp
  have "node_dbs s UTXOs (set_group ?us) \<noteq> None" using st(2) by (simp add: buckets_made_def)
  then obtain s1 where s1: "Reverse E ?us b s = Ok s1" "set_ok E ?us s1" "keeps_node E ?us s s1"
    using reverse_txns_refines [of ?us s "rev (Txns b)"] st(1,3) by (auto simp: Reverse_def store_ok_def named_inputs_def)
  have made1: "buckets_made g s1" by (rule reverse_buckets [OF s1(1) st(2)])
  have up1: "chain_upto E g (bs @ [b]) k s1" using keeps_node_upto [OF s1(3)] up(1) by blast
  obtain db where db: "DeleteBlock E g b s1 = Ok (s1\<lparr>node_dbs := db\<rparr>)" "chain_upto E g bs k (s1\<lparr>node_dbs := db\<rparr>)"
      "buckets_made g (s1\<lparr>node_dbs := db\<rparr>)" "\<And>key. node_Get E UTXOs g key (s1\<lparr>node_dbs := db\<rparr>) = node_Get E UTXOs g key s1"
      "heads_ok E g s1 \<Longrightarrow> heads_ok E g (s1\<lparr>node_dbs := db\<rparr>)"
    using DeleteBlock_last [OF up1 up(2) made1] by blast
  have "store_ok E g (s1\<lparr>node_dbs := db\<rparr>)"
    using st(1) s1(2) keeps_node_store [OF s1(3)] db(4,5) by (simp add: store_ok_def set_ok_def)
  then show ?thesis using get s1(1) db(1-3) by (intro exI [of _ "s1\<lparr>node_dbs := db\<rparr>"]) simp
qed

lemma undo_all:
  assumes "chain_upto E g (common @ old) (length common) s" and "store_ok E g s" and "old \<noteq> [] \<Longrightarrow> buckets_made g s"
    and "\<forall>b \<in> set old. named_inputs b"
  shows "\<exists>s'. undo_blocks E g \<lparr>set_bc = g, set_group = g\<rparr> (int (length (common @ old)) - 1) (length old) s = Ok s' \<and>
    chain_ok E g common s' \<and> store_ok E g s'"
  using assms
proof (induction old arbitrary: s rule: rev_induct)
  case Nil
  then show ?case using chain_upto_all [of E g common s] by simp
next
  case (snoc b old)
  obtain s1 where s1: "undo_blocks E g \<lparr>set_bc = g, set_group = g\<rparr> (int (length (common @ old))) (Suc (length old)) s =
      undo_blocks E g \<lparr>set_bc = g, set_group = g\<rparr> (int (length (common @ old)) - 1) (length old) s1"
      "chain_upto E g (common @ old) (length common) s1" "store_ok E g s1" "buckets_made g s1"
    using undo_step [of g "common @ old" b "length common" s "length old"] snoc.prems by auto
  then show ?case using snoc.IH [OF s1(2-4)] snoc.prems(4) by (simp del: undo_blocks.simps)
qed

end

section \<open>Adding blocks\<close>

text \<open>A block continues a chain.\<close>

definition continues :: "('k, 'z) env_scheme \<Rightarrow> int \<Rightarrow> Block list \<Rightarrow> Block \<Rightarrow> bool" where
  "continues E g bs b \<longleftrightarrow> Height b = int (length bs) \<and> length bs < 2 ^ 24 \<and> PrevHash b = tip_hash E [] bs \<and> Group b = g \<and>
     (\<exists>q. Target b = Fin q \<and> 1 \<le> q) \<and> (\<forall>b' \<in> set bs. Block_Hash E b' \<noteq> Block_Hash E b)"

fun continue_all :: "('k, 'z) env_scheme \<Rightarrow> int \<Rightarrow> Block list \<Rightarrow> Block list \<Rightarrow> bool" where
  "continue_all E g bs [] \<longleftrightarrow> True"
| "continue_all E g bs (b # new) \<longleftrightarrow> continues E g bs b \<and> continue_all E g (bs @ [b]) new"

lemma continue_all_groups: "continue_all E g bs new \<Longrightarrow> \<forall>b \<in> set new. Group b = g"
  by (induction new arbitrary: bs) (auto simp: continues_def)

context node_env
begin

lemma node_Set_other: "node_Set E name g k v s = Ok s' \<Longrightarrow> name \<noteq> name' \<Longrightarrow> node_Get E name' g' k' s' = node_Get E name' g' k' s"
  by (simp add: node_Get_Set)

lemma AddBlockhead_other:
  "AddBlockhead E g (Some b) s = Ok (added, s') \<Longrightarrow> node_Get E UTXOs g' k s' = node_Get E UTXOs g' k s"
  by (auto simp: AddBlockhead_def Blockhead_GetHeight_def split: if_splits dest!: node_Set_other [of _ _ _ _ _ _ UTXOs g' k])

lemma AddBlock_other:
  assumes "AddBlock E g (Some b) s = Ok s'"
  shows "node_Get E UTXOs g' k s' = node_Get E UTXOs g' k s"
proof -
  have index: "node_Get E UTXOs g' k t' = node_Get E UTXOs g' k t" if "ofold (txn_index_put E g) ts t = Ok t'" for ts t t'
    using that
  proof (induction ts arbitrary: t)
    case (Cons x ts)
    then show ?case by (auto simp: txn_index_put_def dest!: node_Set_other [of _ _ _ _ _ _ UTXOs g' k])
  qed simp
  have lastest: "node_Get E UTXOs g' k t' = node_Get E UTXOs g' k t" if "SetLastest E g (Some b) t = Ok t'" for t t'
    using that by (auto simp: SetLastest_def dest!: node_Set_other [of _ _ _ _ _ _ UTXOs g' k])
  obtain h s0 where h: "GetHeight E g s = Ok (h, s0)" and rest: "s' = s0 \<or>
     (\<exists>s1 s2 s3 s4 s5 bytes hash added mg m. SetLastest E g (Some b) s0 = Ok s1 \<and>
       node_Set E Blocks g (KBytes hash) bytes s1 = Ok s2 \<and> node_Set E Blocks g (KInt32 (Height b)) hash s2 = Ok s3 \<and>
       AddBlockhead E g (Some b) s3 = Ok (added, s4) \<and> ofold (txn_index_put E g) (Txns b) s4 = Ok s5 \<and>
       s' = s5\<lparr>mempools := (mempools s5)(mg := m)\<rparr>)"
    using AddBlock_steps [OF assms] by blast
  have "node_Get E UTXOs g' k s' = node_Get E UTXOs g' k s0"
    using rest by (auto dest!: index lastest AddBlockhead_other [of _ _ _ _ _ g' k] node_Set_other [of _ _ _ _ _ _ UTXOs g' k])
  also have "\<dots> = node_Get E UTXOs g' k s" using h by (auto simp: GetHeight_def split: if_splits)
  finally show ?thesis .
qed

lemma reindex_step:
  assumes chain: "chain_ok E g bs s" "bs \<noteq> []" and store: "heads_ok E g s" "pool_ok E (mempools s g)"
  shows "\<exists>s1 s2. Reindex E \<lparr>set_bc = g, set_group = g\<rparr> s = Ok s1 \<and> TxnReindex E g s1 = Ok s2 \<and>
    chain_ok E g bs s2 \<and> store_ok E g s2"
proof -
  let ?us = "\<lparr>set_bc = g, set_group = g\<rparr>"
  obtain s1 where s1: "Reindex E ?us s = Ok s1" "set_ok E ?us s1" "keeps_node E ?us s s1"
    using Reindex_ok [of ?us bs s] chain by auto
  have chain1: "chain_ok E g bs s1" using keeps_node_chain [OF s1(3)] chain(1) by blast
  obtain s2 where s2: "TxnReindex E g s1 = Ok s2" "keeps_other E Txns_db g s1 s2" "mempools s2 = mempools s1"
      "cacheHeight s2 = cacheHeight s1" "onceGetHeight s2 = onceGetHeight s1"
    using TxnReindex_ok [OF chain1 chain(2)] by blast
  have "same_blocks E g s1 s2" using s2(2,4,5) by (simp add: same_blocks_def keeps_other_def)
  then have "chain_ok E g bs s2" using chain1 chain_ok_same_blocks by blast
  moreover have "store_ok E g s2"
    using s1(2) s2(2,3) keeps_node_store [OF s1(3)] store by (simp add: store_ok_def set_ok_def heads_ok_def keeps_other_def)
  ultimately show ?thesis using s1(1) s2(1) by blast
qed

lemma append_step:
  assumes ok: "chain_ok E g bs s" "store_ok E g s" and b: "continues E g bs b" and g: "0 \<le> g" "g < MaxGroupNum E"
  shows "\<exists>s1 s2. AddBlock E g (Some b) s = Ok s1 \<and> Update E \<lparr>set_bc = g, set_group = g\<rparr> b s1 = Ok s2 \<and>
    chain_ok E g (bs @ [b]) s2 \<and> store_ok E g s2"
proof -
  let ?us = "\<lparr>set_bc = g, set_group = g\<rparr>"
  obtain q where q: "Target b = Fin q" "1 \<le> q" using b by (auto simp: continues_def)
  obtain s1 s0 where s1: "AddBlock E g (Some b) s = Ok s1" "chain_ok E g (bs @ [b]) s1" "heads_ok E g s1"
      "mempools s1 = (mempools s)(g := pool_after E g s0 b (mempools s g))"
    using AddBlock_ok [OF ok(1) _ _ _ _ _ q] ok(2) b g by (auto simp: store_ok_def continues_def)
  have pool: "pool_ok E (mempools s1 g)" using s1(4) pool_after_ok(1) ok(2) by (simp add: store_ok_def)
  have set: "set_ok E ?us s1" using ok(2) AddBlock_other [OF s1(1)] by (simp add: store_ok_def set_ok_def)
  obtain s2 where s2: "update_txns E ?us (Txns b) s1 = Ok (apply_txns E ?us (Txns b) (uset_of E ?us s1) = None, s2)"
      "set_ok E ?us s2" "keeps_node E ?us s1 s2"
    using update_txns_refines [OF set, of "Txns b"] by blast
  have chain2: "chain_ok E g (bs @ [b]) s2" using keeps_node_chain [OF s2(3)] s1(2) by blast
  have store2: "store_ok E g s2" using s2(2) keeps_node_store [OF s2(3)] s1(3) pool by (simp add: store_ok_def)
  show ?thesis
  proof (cases "apply_txns E ?us (Txns b) (uset_of E ?us s1) = None")
    case False
    then have "Update E ?us b s1 = Ok s2" using s2(1) by (auto simp: Update_def)
    then show ?thesis using s1(1) chain2 store2 by blast
  next
    case True
    obtain s3 s4 where s4: "Reindex E ?us s2 = Ok s3" "TxnReindex E g s3 = Ok s4" "chain_ok E g (bs @ [b]) s4" "store_ok E g s4"
      using reindex_step [OF chain2] store2 by (auto simp: store_ok_def)
    moreover have "Update E ?us b s1 = Ok s4" using True s2(1) s4(1,2) by (auto simp: Update_def)
    ultimately show ?thesis using s1(1) by blast
  qed
qed

lemma append_all:
  assumes "chain_ok E g bs s" and "store_ok E g s" and "continue_all E g bs new" and "0 \<le> g" and "g < MaxGroupNum E"
  shows "\<exists>s'. append_blocks E g \<lparr>set_bc = g, set_group = g\<rparr> (tip_hash E [] bs) (map Some new) s = Ok s' \<and>
    chain_ok E g (bs @ new) s' \<and> store_ok E g s'"
  using assms(1-3)
proof (induction new arbitrary: bs s)
  case (Cons b new)
  obtain s1 s2 where s2: "AddBlock E g (Some b) s = Ok s1" "Update E \<lparr>set_bc = g, set_group = g\<rparr> b s1 = Ok s2"
      "chain_ok E g (bs @ [b]) s2" "store_ok E g s2"
    using append_step [OF Cons.prems(1,2) _ assms(4,5), of b] Cons.prems(3) by auto
  obtain h where h: "Block_Hash E b = Ok h" using s2(3) by (auto simp: chain_ok_def linked_append)
  have "tip_hash E [] (bs @ [b]) = h" by (rule tip_hash_last) (simp_all add: h)
  then show ?case
    using Cons.IH [OF s2(3,4)] Cons.prems(3) s2(1,2) h by (auto simp: continues_def HashValue_Equal_def)
qed simp

end

context node_env
begin

lemma lower_end:
  assumes ok: "chain_ok E g bs s" "onceGetHeight s g" and k: "0 < k" "k \<le> length bs"
  shows "\<exists>s'. SetLastest E g (Some (bs ! (k - 1))) s = Ok s' \<and> chain_upto E g bs k s' \<and> mempools s' = mempools s \<and>
    keeps_other E Blocks g s s' \<and> (buckets_made g s \<longrightarrow> buckets_made g s')"
proof -
  let ?b = "bs ! (k - 1)"
  have mem: "?b \<in> set bs" using k by simp
  obtain bytes where bytes: "marshal_block E ?b = Some bytes" using ok(1) mem by (auto simp: chain_ok_def block_stored_def)
  obtain db where put: "node_Set E Blocks g lastest_key bytes s = Ok (s\<lparr>node_dbs := db\<rparr>)"
    using node_Set_ok [of lastest_key Blocks g bytes s] by auto
  define s' where "s' = s\<lparr>node_dbs := db, cacheHeight := (cacheHeight s)(g := Height ?b)\<rparr>"
  have get: "node_Get E name g' key s' =
      (if name = Blocks \<and> g' = g \<and> interfaceToBytes key = interfaceToBytes lastest_key then Some bytes else node_Get E name g' key s)"
    for name g' key
    using node_Get_Set [OF put] by (simp add: s'_def node_Get_def)
  have height: "Height ?b = int k - 1" using ok(1) k by (simp add: chain_ok_def of_nat_diff)
  have stored: "block_stored E g b s'" if mem: "b \<in> set bs" for b
  proof -
    obtain i where i: "i < length bs" "b = bs ! i" using mem by (auto simp: in_set_conv_nth)
    then have "0 \<le> Height b" "Height b < 2 ^ 24" using ok(1) by (auto simp: chain_ok_def)
    moreover have "block_stored E g b s" using ok(1) mem by (simp add: chain_ok_def)
    then obtain h where "Block_Hash E b = Ok h" by (auto simp: block_stored_def)
    ultimately show ?thesis
      using \<open>block_stored E g b s\<close> keys_apart [OF Block_Hash_length, of b h] by (fastforce simp: block_stored_def get)
  qed
  have "chain_upto E g bs k s'"
  proof -
    have "node_Get E Blocks g (KInt32 h) s' = None" if "int (length bs) \<le> h" "h < 2 ^ 24" for h
      using ok(1) that keys_apart(3) [of "replicate 32 0" h] by (simp add: chain_ok_def get)
    moreover have "lastest_stored E g (take k bs) s'"
      using k bytes by (auto simp: lastest_stored_def get last_conv_nth min_def)
    ultimately show ?thesis using ok stored height by (simp add: chain_upto_def chain_ok_def s'_def)
  qed
  moreover have "SetLastest E g (Some ?b) s = Ok s'" using put bytes by (simp add: SetLastest_def Encode_def s'_def)
  moreover have "keeps_other E Blocks g s s'" by (auto simp: keeps_other_def get)
  moreover have "buckets_made g s'" if "buckets_made g s"
    using node_Set_buckets [OF put that] by (simp add: buckets_made_def s'_def)
  ultimately show ?thesis by (intro exI [of _ s']) (auto simp: s'_def)
qed

lemma syncBlocks_ok:
  assumes ok: "chain_ok E g (common @ old) s" "store_ok E g s" "old \<noteq> [] \<Longrightarrow> buckets_made g s" "common \<noteq> []"
    and old: "\<forall>b \<in> set old. named_inputs b" and new: "continue_all E g common new" "length old < length new"
    and g: "0 \<le> g" "g < MaxGroupNum E"
    and hashes: "\<And>i. i < length (common @ old) \<Longrightarrow> \<exists>h h'. Block_Hash E ((common @ old) ! i) = Ok h \<and>
      peer_hash P a g (int i) = Ok (Some h') \<and> (h' = h \<longleftrightarrow> i < length common)"
    and blocks: "peer_blocks P a g (int (length common)) (int (length (common @ new)) - 1) (tip_hash E [] common) = Ok (Some (map Some new))"
  shows "\<exists>s'. syncBlocks E P g (int (length (common @ new)) - 1) a s = Ok s' \<and> chain_ok E g (common @ new) s' \<and> store_ok E g s' \<and>
    confined g s s'"
proof -
  let ?bs = "common @ old" and ?us = "\<lparr>set_bc = g, set_group = g\<rparr>"
  obtain s0 where s0: "GetHeight E g s = Ok (int (length ?bs) - 1, s0)" "chain_ok E g ?bs s0" "onceGetHeight s0 g"
      "node_dbs s0 = node_dbs s" "mempools s0 = mempools s"
    using GetHeight_chain [OF ok(1)] by blast
  have store0: "store_ok E g s0" "old \<noteq> [] \<Longrightarrow> buckets_made g s0"
    using ok(2,3) s0(4,5) by (simp_all add: store_ok_def heads_ok_def set_ok_def node_Get_def buckets_made_def)
  have search: "sync_search E (peer_hash P a g) g s0 0 (int (length ?bs) - 1) = Ok (Some (int (length common), int (length common) - 1))"
  proof (rule sync_search_fork [where upper = "int (length ?bs) - 1"])
    fix m :: int
    assume m: "0 \<le> m" "m \<le> int (length ?bs) - 1"
    then obtain i where i: "m = int i" "i < length ?bs" by (metis int_ops(6) nonneg_int_cases of_nat_less_iff zle_diff1_eq)
    show "\<exists>b h. GetBlockByHeight E g m s0 = Ok (Some b) \<and> Block_Hash E b = Ok h \<and>
        (\<exists>hash. peer_hash P a g m = Ok (Some hash) \<and> (hash = h \<longleftrightarrow> m < int (length common)))"
      using chain_block_at [OF s0(2) i(2)] hashes [OF i(2)] i(1) by auto
  qed simp_all
  have same: "GetBlockByHeight E g (int (length common) - 1) s0 = Ok (Some (?bs ! (length common - 1)))"
  proof -
    have "length common - 1 < length ?bs" "int (length common - 1) = int (length common) - 1"
      using ok(4) by (cases common; simp)+
    then show ?thesis using chain_block_at [OF s0(2)] by metis
  qed
  obtain s1 where s1: "SetLastest E g (Some (?bs ! (length common - 1))) s0 = Ok s1" "chain_upto E g ?bs (length common) s1"
      "mempools s1 = mempools s0" "keeps_other E Blocks g s0 s1" "old \<noteq> [] \<Longrightarrow> buckets_made g s1"
    using lower_end [OF s0(2,3), of "length common"] ok(4) store0(2) by auto
  have store1: "store_ok E g s1"
    using store0(1) s1(3,4) by (simp add: store_ok_def heads_ok_def set_ok_def keeps_other_def)
  obtain s2 where s2: "undo_blocks E g ?us (int (length ?bs) - 1) (length old) s1 = Ok s2" "chain_ok E g common s2" "store_ok E g s2"
    using undo_all [OF s1(2) store1 s1(5) old] by blast
  obtain s3 where s3: "append_blocks E g ?us (tip_hash E [] common) (map Some new) s2 = Ok s3" "chain_ok E g (common @ new) s3"
      "store_ok E g s3"
    using append_all [OF s2(2,3) new(1) g] by blast
  have last: "?bs ! (length common - 1) = last common" using ok(4) by (simp add: nth_append last_conv_nth)
  have ends: "last common \<in> set common" "last ?bs \<in> set ?bs" using ok(4) by (intro last_in_set; simp)+
  have "\<forall>b \<in> set common. block_stored E g b s2" "\<forall>b \<in> set ?bs. block_stored E g b s"
    using s2(2) ok(1) unfolding chain_ok_def by blast+
  then obtain h h' where h: "Block_Hash E (last common) = Ok h" and h': "Block_Hash E (last ?bs) = Ok h'"
    using ends unfolding block_stored_def by blast
  have "nat (int (length ?bs) - 1 - (int (length common) - 1)) = length old" by simp
  moreover have "confined g s s3"
  proof -
    have "\<forall>b \<in> set new. group_mod E (Group b) = Ok g" using continue_all_groups [OF new(1)] group_mod_ok g by simp
    then have "confined g s2 s3" by (rule append_blocks_confined [OF s3(1)])
    then show ?thesis
      using GetHeight_confined [OF s0(1)] SetLastest_confined [OF s1(1)] undo_blocks_confined [OF s2(1)] by (meson confined_trans)
  qed
  moreover have "int (length ?bs) - 1 \<noteq> -1" using ok(4) by (cases common) auto
  ultimately show ?thesis
    using own_group [OF g] s0(1) GetLastest_chain [OF s0(2)] h' search same [unfolded last] s1(1) [unfolded last] s2(1) s3 new(2) ok(4) h tip_hash_last [OF ok(4) h, of "[]"] blocks
    by (simp add: syncBlocks_def GetUTXOSet_def)
qed

end

section \<open>Properties\<close>

text \<open>
  Synchronising with a peer whose chain is longer replaces the local chain by the peer's. The binary search finds the last
  common block, the local blocks above it are taken back and deleted, and the peer's blocks are added: the stored
  chain is then the peer's chain, and the other groups of the node are as before. The two chains share a prefix that is not empty, the peer answers with the hashes and
  blocks of its chain, and each of its new blocks continues the chain before it.
\<close>

lemma syncBlocks_adopts_longer_chain:
  assumes "node_env E" and "chain_ok E g (common @ old) s" and "store_ok E g s" and "old \<noteq> [] \<Longrightarrow> buckets_made g s"
    and "common \<noteq> []" and "\<forall>b \<in> set old. named_inputs b" and "continue_all E g common new" and "length old < length new"
    and "0 \<le> g" and "g < MaxGroupNum E"
    and "\<And>i. i < length (common @ old) \<Longrightarrow> \<exists>h h'. Block_Hash E ((common @ old) ! i) = Ok h \<and>
      peer_hash P a g (int i) = Ok (Some h') \<and> (h' = h \<longleftrightarrow> i < length common)"
    and "peer_blocks P a g (int (length common)) (int (length (common @ new)) - 1) (tip_hash E [] common) = Ok (Some (map Some new))"
  shows "\<exists>s'. syncBlocks E P g (int (length (common @ new)) - 1) a s = Ok s' \<and> chain_ok E g (common @ new) s' \<and> store_ok E g s' \<and>
    confined g s s'"
  using assms by (rule node_env.syncBlocks_ok)

subsection \<open>A fork\<close>

text \<open>
  The reference environment with a digest that mirrors, cuts and pads, so that the nonce of a block comes first in its hash.
\<close>

definition mirror_env :: "ref_bucket env" where
  "mirror_env = plain_env\<lparr>sha256 := (\<lambda>m. take 32 (rev m @ replicate 32 0))\<rparr>"

lemma mirror_env_fields [simp]:
  "sha256 mirror_env m = take 32 (rev m @ replicate 32 0)" "ripemd160 mirror_env = ripemd160 plain_env"
  "ecdsa_Public mirror_env = ecdsa_Public ref_env" "ecdsa_Sign mirror_env = ecdsa_Sign ref_env"
  "ecdsa_Verify mirror_env = ecdsa_Verify ref_env" "marshal_header mirror_env = marshal_header ref_env"
  "marshal_block mirror_env = marshal_block ref_env" "unmarshal_block mirror_env = unmarshal_block ref_env"
  "marshal_txn mirror_env = marshal_txn ref_env" "unmarshal_txn mirror_env = unmarshal_txn ref_env"
  "marshal_outs mirror_env = marshal_outs ref_env" "unmarshal_outs mirror_env = unmarshal_outs ref_env"
  "bolt_new mirror_env = bolt_new ref_env" "bolt_get mirror_env = bolt_get ref_env" "bolt_put mirror_env = bolt_put ref_env"
  "bolt_delete mirror_env = bolt_delete ref_env" "bolt_items mirror_env = bolt_items ref_env"
  "MaxGroupNum mirror_env = MaxGroupNum ref_env" "GroupNum mirror_env = GroupNum ref_env" "Address mirror_env = Address ref_env"
  "range_perm mirror_env = range_perm ref_env"
  by (simp_all add: mirror_env_def)

interpretation mirror_bolt: bolt_store mirror_env
  using ref_bolt.bolt_store_axioms unfolding bolt_store_def mirror_env_fields .

interpretation mirror_codec: json_codec mirror_env
  using ref_env_codec.json_codec_axioms unfolding json_codec_def mirror_env_fields .

interpretation mirror_node: node_env mirror_env
  by unfold_locales simp_all

definition fork_block :: "Block list \<Rightarrow> int \<Rightarrow> Block" where
  "fork_block bs nonce = \<lparr>Group = 0, Height = int (length bs), PrevHash = tip_hash mirror_env [] bs, Timestamp = 0, MerkleRoot = [],
     Target = Fin 1, GroupBase = 0, BatchSize = 1, BatchMerklePath = [], Nonce = nonce, Txns = []\<rparr>"

lemma fork_hash: "\<exists>h. Block_Hash mirror_env (fork_block bs n) = Ok h \<and> hd h = word_of_int n"
  by (simp add: Block_Hash_def BlockHeader_Hash_def Encode_def ref_json_def fork_block_def BlockHeader.truncate_def
      be_bytes_def numeral_eq_Suc)

lemma fork_hash_neq: "word_of_int m \<noteq> (word_of_int n :: byte) \<Longrightarrow> Block_Hash mirror_env (fork_block bs m) \<noteq> Block_Hash mirror_env (fork_block bs' n)"
  using fork_hash [of bs m] fork_hash [of bs' n] by force

definition fork_root :: "Block list" where
  "fork_root = [fork_block [] 1]"

definition fork_old :: "Block list" where
  "fork_old = [fork_block fork_root 2]"

definition fork_new :: "Block list" where
  "fork_new = [fork_block fork_root 3, fork_block (fork_root @ [fork_block fork_root 3]) 4]"

text \<open>A peer that has the longer branch.\<close>

definition fork_peer :: peers where
  "fork_peer = \<lparr>peer_genesis = (\<lambda>_ _ _. Ok None), peer_version = (\<lambda>_ _ _. Ok None), peer_nodes = (\<lambda>_ _. Ok None),
     peer_hash = (\<lambda>_ _ i. case Block_Hash mirror_env ((fork_root @ fork_new) ! nat i) of Ok h \<Rightarrow> Ok (Some h) | _ \<Rightarrow> Ok None),
     peer_blocks = (\<lambda>_ _ from to _. Ok (Some (map Some fork_new)))\<rparr>"

lemma fork_continues:
  assumes "\<forall>b \<in> set bs. \<exists>bs' m. b = fork_block bs' m \<and> word_of_int m \<noteq> (word_of_int n :: byte)" and "length bs < 2 ^ 24"
  shows "continues mirror_env 0 bs (fork_block bs n)"
proof -
  have "\<forall>b' \<in> set bs. Block_Hash mirror_env b' \<noteq> Block_Hash mirror_env (fork_block bs n)"
    using assms(1) fork_hash_neq by metis
  then show ?thesis using assms(2) by (simp add: continues_def) (simp add: fork_block_def)
qed

lemma fork_chains:
  "continue_all mirror_env 0 [] (fork_root @ fork_old)" "continue_all mirror_env 0 fork_root fork_new"
proof -
  have "continues mirror_env 0 [] (fork_block [] 1)" "continues mirror_env 0 fork_root (fork_block fork_root 2)"
      "continues mirror_env 0 fork_root (fork_block fork_root 3)"
      "continues mirror_env 0 (fork_root @ [fork_block fork_root 3]) (fork_block (fork_root @ [fork_block fork_root 3]) 4)"
    by (rule fork_continues; force simp: fork_root_def)+
  then show "continue_all mirror_env 0 [] (fork_root @ fork_old)" "continue_all mirror_env 0 fork_root fork_new"
    by (simp_all add: fork_root_def fork_old_def fork_new_def)
qed

lemma fork_state:
  "\<exists>s. chain_ok mirror_env 0 (fork_root @ fork_old) s \<and> store_ok mirror_env 0 s \<and> buckets_made 0 s"
proof -
  have "chain_ok mirror_env 0 [] empty_node" "store_ok mirror_env 0 empty_node"
    by (simp_all add: chain_ok_def lastest_stored_def empty_node_def node_Get_def db_Get_def heads_ok_def pool_ok_def store_ok_def set_ok_def)
  from mirror_node.append_all [OF this fork_chains(1)] obtain s where
    s: "chain_ok mirror_env 0 (fork_root @ fork_old) s" "store_ok mirror_env 0 s" by auto
  define s' where "s' = node_Clear mirror_env UTXOs 0 (node_Clear mirror_env Blockheads 0 (node_Clear mirror_env Txns_db 0 s))"
  have "same_blocks mirror_env 0 s s'"
    by (simp add: same_blocks_def s'_def node_Clear_def node_Get_def db_Get_def db_Clear_def db_bucket_def)
  then have chain: "chain_ok mirror_env 0 (fork_root @ fork_old) s'" using s(1) chain_ok_same_blocks by blast
  have "store_ok mirror_env 0 s'"
    using s(2) by (simp add: store_ok_def heads_ok_def set_ok_def s'_def node_Clear_def node_Get_def db_Get_def db_Clear_def db_bucket_def)
  moreover have "node_dbs s' Blocks 0 \<noteq> None"
    using chain by (auto simp: chain_ok_def block_stored_def fork_root_def node_Get_def db_Get_def split: option.splits)
  then have "buckets_made 0 s'" by (auto simp: buckets_made_def s'_def node_Clear_def db_Clear_def db_bucket_def)
  ultimately show ?thesis using chain by blast
qed

end
