(* ===== verification/Handlers.thy ===== *)
theory Handlers
  imports Sync
begin

text \<open>
  The handlers of \<^verbatim>\<open>api/db.go\<close>, \<^verbatim>\<open>api/version.go\<close> and \<^verbatim>\<open>api/server.go\<close>: what a node does with the requests of other nodes. The
  parsed arguments are parameters. Each handler that changes the node holds a mutex of its own while it runs and is one
  step here; a message that it sends in a goroutine of its own is part of the result.
\<close>

section \<open>Replies and messages\<close>

text \<open>The errors that a request can be answered with.\<close>

datatype api_error =
    NoGenesis int
  | BadAddress
  | UseGetGenesis
  | NoBlockAt int
  | OtherPrevHash HashValue
  | NoChain
  | SendFailed send_error
  | SignError txn_error
  | NoNodes

text \<open>
  A message that a handler sends to other nodes in a goroutine of its own; the address excepted from gossip comes last.
\<close>

datatype message =
    MGossipTxn int Transaction bytes
  | MGossipRelayTxn int int int "MerklePath list" Transaction bytes
  | MGossipBlock Block bytes
  | MCallbackGossipBlock "Block option" bytes
  | MGossipBlockHead Block bytes

text \<open>
  \<^verbatim>\<open>Return\<close> and \<^verbatim>\<open>ReturnErr\<close> end the handler. \<open>excepted\<close> is the parameter \<^verbatim>\<open>:address\<close> of the request, \<open>sender\<close> its query parameter
  \<^verbatim>\<open>address\<close>.
\<close>

section \<open>Reading\<close>

definition handle_GetGenesis :: "('k, 'z) env_scheme \<Rightarrow> int \<Rightarrow> 'k node \<Rightarrow> (api_error + Block) outcome" where
  "handle_GetGenesis E g s =
     obind (GetBlockchain E g) (\<lambda>bc.
     obind (GetGenesis E bc s) (\<lambda>genesis.
       Ok (case genesis of None \<Rightarrow> Inl (NoGenesis g) | Some b \<Rightarrow> Inr b)))"

definition handle_GetBalance :: "('k, 'z) env_scheme \<Rightarrow> bytes \<Rightarrow> 'k node \<Rightarrow> (api_error + int) outcome" where
  "handle_GetBalance E address s =
     (if \<not> ValidateAddress E address then Ok (Inl BadAddress)
      else obind (GetGroup E) (\<lambda>g.
           obind (GetUTXOSet E g) (\<lambda>us.
           obind (address_hash address) (\<lambda>pubKeyHash.
           obind (FindUTXOByHash E us pubKeyHash s) (\<lambda>utxos.
             Ok (Inr (fold (\<lambda>utxo balance. i64 (balance + Value utxo)) utxos 0)))))))"

text \<open>
  The loop of \<^verbatim>\<open>GetBlocks\<close> from height \<open>i\<close> on, with \<open>n\<close> rounds left. It stops at the first missing block, and no block has a
  height above \<open>2 ^ 24\<close>, so the counter does not wrap around.
\<close>

fun block_range :: "('k, 'z) env_scheme \<Rightarrow> int \<Rightarrow> int \<Rightarrow> nat \<Rightarrow> 'k node \<Rightarrow> (api_error + Block list) outcome" where
  "block_range E bc i 0 s = Ok (Inr [])"
| "block_range E bc i (Suc n) s =
     obind (GetBlockByHeight E bc i s) (\<lambda>data.
       case data of None \<Rightarrow> Ok (Inl (NoBlockAt i))
       | Some b \<Rightarrow> obind (block_range E bc (i + 1) n s) (\<lambda>rest.
           Ok (case rest of Inl err \<Rightarrow> Inl err | Inr bs \<Rightarrow> Inr (b # bs))))"

definition handle_GetBlocks ::
  "('k, 'z) env_scheme \<Rightarrow> int \<Rightarrow> int \<Rightarrow> int \<Rightarrow> HashValue \<Rightarrow> 'k node \<Rightarrow> (api_error + Block list) outcome" where
  "handle_GetBlocks E g from to hash s =
     (if from = 0 then Ok (Inl UseGetGenesis)
      else obind (GetBlockchain E g) (\<lambda>bc.
           obind (GetBlockByHeight E bc from s) (\<lambda>block.
             case block of None \<Rightarrow> Ok (Inl (NoBlockAt from))
             | Some b \<Rightarrow>
                 if \<not> HashValue_Equal (PrevHash b) hash then Ok (Inl (OtherPrevHash (PrevHash b)))
                 else block_range E bc from (nat (to - from + 1)) s)))"

definition handle_GetHash :: "('k, 'z) env_scheme \<Rightarrow> int \<Rightarrow> int \<Rightarrow> 'k node \<Rightarrow> (api_error + HashValue) outcome" where
  "handle_GetHash E g height s =
     obind (GetBlockchain E g) (\<lambda>bc.
     obind (GetBlockByHeight E bc height s) (\<lambda>block.
       case block of None \<Rightarrow> Ok (Inl (NoBlockAt height))
       | Some b \<Rightarrow> obind (Block_Hash E b) (\<lambda>h. Ok (Inr h))))"

definition handle_SendVersion :: "('k, 'z) env_scheme \<Rightarrow> Version \<Rightarrow> 'k node \<Rightarrow> (api_error + Version) outcome" where
  "handle_SendVersion E args s =
     obind (if vGroup args = -1 then GetGroup E else Ok (vGroup args)) (\<lambda>g.
     obind (GetBlockchain E g) (\<lambda>bc.
     obind (GetGenesis E bc s) (\<lambda>genesis.
     obind (GetLastest E bc s) (\<lambda>lastest.
       case (genesis, lastest) of
         (Some genesis, Some lastest) \<Rightarrow>
           obind (Block_Hash E genesis) (\<lambda>rootHash.
           obind (Block_Hash E lastest) (\<lambda>nowHash.
             Ok (Inr \<lparr>vGroup = g, vVersion = protocol_version, vHeight = Height lastest, vRootHash = rootHash,
                      vNowHash = nowHash\<rparr>)))
       | _ \<Rightarrow> Ok (Inl NoChain)))))"

section \<open>Transactions\<close>

definition own_groups :: "('k, 'z) env_scheme \<Rightarrow> int \<Rightarrow> bool outcome" where
  "own_groups E g = obind (GetGroup E) (\<lambda>own. Ok (InGroup g own (GroupNum E) (MaxGroupNum E)))"

definition handle_GossipTxn ::
  "('k, 'z) env_scheme \<Rightarrow> int \<Rightarrow> Transaction \<Rightarrow> bytes \<Rightarrow> 'k node \<Rightarrow> (message list \<times> 'k node) outcome" where
  "handle_GossipTxn E g txn excepted s =
     obind (own_groups E g) (\<lambda>own.
       if \<not> own then Ok ([], s)
       else obind (mempool_GetTxn E g (Transaction_Hash E txn) s) (\<lambda>(pooled, s).
         if pooled \<noteq> None then Ok ([], s)
         else obind (GetBlockchain E g) (\<lambda>bc.
           if FindTxn E bc (Transaction_Hash E txn) s \<noteq> None then Ok ([], s)
           else obind (VerifyTransaction E bc txn s) (\<lambda>err.
             if err \<noteq> None then Ok ([], s)
             else obind (GetUTXOSet E g) (\<lambda>us.
                  obind (UTXOMemVerifyTransaction E us txn s) (\<lambda>(ok, s).
                    if ok then obind (mempool_AddTxn E g txn s) (\<lambda>s. Ok ([MGossipTxn g txn excepted], s))
                    else Ok ([], s)))))))"

definition handle_GossipRelayTxn ::
  "('k, 'z) env_scheme \<Rightarrow> int \<Rightarrow> int \<Rightarrow> int \<Rightarrow> MerklePath list \<Rightarrow> Transaction \<Rightarrow> bytes \<Rightarrow> 'k node \<Rightarrow> (message list \<times> 'k node) outcome" where
  "handle_GossipRelayTxn E fromGroup toGroup height path txn excepted s =
     obind (mempool_GetTxn E toGroup (Transaction_Hash E txn) s) (\<lambda>(pooled, s).
       if pooled \<noteq> None then Ok ([], s)
       else obind (GetBlockheadByHeight E fromGroup height s) (\<lambda>block.
         case block of None \<Rightarrow> Ok ([], s)
         | Some b \<Rightarrow>
             if \<not> RelayVerify E txn (MerkleRoot b) path then Ok ([], s)
             else obind (GetUTXOSet E toGroup) (\<lambda>us.
                  obind (UTXOMemVerifyTransaction E us txn s) (\<lambda>(ok, s).
                    if ok then obind (mempool_AddTxn E toGroup txn s) (\<lambda>s.
                      Ok ([MGossipRelayTxn fromGroup toGroup height path txn excepted], s))
                    else Ok ([], s)))))"

text \<open>\<^verbatim>\<open>SendCMD\<close>: the list of known nodes is refreshed before the transaction is sent, and the request fails when no node answers.\<close>

definition handle_SendCMD ::
  "('k, 'z) env_scheme \<Rightarrow> (bytes \<rightharpoonup> Wallet) option \<Rightarrow> (nat \<Rightarrow> nat) \<Rightarrow> (bytes \<Rightarrow> KnownNodesEntry list option outcome) \<Rightarrow> bytes \<Rightarrow> bytes \<Rightarrow>
   bytes \<Rightarrow> int \<Rightarrow> net \<times> 'k node \<Rightarrow> (api_error option \<times> message list \<times> net) outcome" where
  "handle_SendCMD E wallets rnd call self from to_addr amount = (\<lambda>(N, s).
     obind (GetGroupByAddress (MaxGroupNum E) from) (\<lambda>g.
     obind (GetUTXOSet E g) (\<lambda>us.
     obind (CreateTransaction E us wallets rnd from to_addr amount s) (\<lambda>r.
       case r of Inl err \<Rightarrow> Ok (Some (SendFailed err), [], N)
       | Inr (txn, Some err) \<Rightarrow> Ok (Some (SignError err), [], N)
       | Inr (txn, None) \<Rightarrow>
           obind (GetKnownNodes E call (sorted_nodes N) (known N)) (\<lambda>(answered, kn).
             let N = N\<lparr>known := kn\<rparr>
             in if \<not> answered then Ok (Some NoNodes, [], N)
                else obind (oindex (Vin txn) 0) (\<lambda>vin.
                     obind (GetGroupByPubKeyHash (MaxGroupNum E) (PublicKey_Hash E (PubKey vin))) (\<lambda>_.
                       Ok (None, [MGossipTxn g txn self], N))))))))"

section \<open>Blocks\<close>

text \<open>
  \<^verbatim>\<open>GossipBlock\<close>. Reading the hash of a nil newest block panics; \<^verbatim>\<open>Sync\<close> and \<^verbatim>\<open>SyncBlocks\<close> are called when the block is still
  ahead.
\<close>

definition handle_GossipBlock ::
  "('k, 'z) env_scheme \<Rightarrow> peers \<Rightarrow> (nat \<Rightarrow> nat \<Rightarrow> nat) \<Rightarrow> Block \<Rightarrow> bytes \<Rightarrow> bytes \<Rightarrow> net \<times> 'k node \<Rightarrow>
   (message list \<times> net \<times> 'k node) outcome" where
  "handle_GossipBlock E P rnd b sender excepted = (\<lambda>(N, s).
     obind (own_groups E (Group b)) (\<lambda>own.
       if \<not> own then Ok ([], N, s)
       else obind (GetBlockchain E (Group b)) (\<lambda>bc.
            obind (GetUTXOSet E (Group b)) (\<lambda>us.
            obind (GetLastest E bc s) (\<lambda>lastest.
              let lastestHeight = (case lastest of None \<Rightarrow> -1 | Some l \<Rightarrow> Height l);
                  msgs = (if Height b < lastestHeight then [MCallbackGossipBlock lastest sender] else [])
              in obind (if Height b = i32 (lastestHeight + 1)
                        then (case lastest of None \<Rightarrow> Panic
                              | Some l \<Rightarrow>
                                  obind (Block_Hash E l) (\<lambda>h.
                                    if HashValue_Equal (PrevHash b) h
                                    then obind (AddBlock E bc (Some b) s) (\<lambda>s.
                                         obind (Update E us b s) (\<lambda>s.
                                           Ok (msgs @ [MGossipBlock b excepted], i32 (lastestHeight + 1), s)))
                                    else Ok (msgs, lastestHeight, s)))
                        else Ok (msgs, lastestHeight, s)) (\<lambda>(msgs, lastestHeight, s).
                 if Height b > lastestHeight
                 then (if lastestHeight = -1
                       then obind (Sync E P rnd (Group b) (N, s)) (\<lambda>(N, s). Ok (msgs, N, s))
                       else obind (syncBlocks E P (Group b) (Height b) sender s) (\<lambda>s. Ok (msgs, N, s)))
                 else Ok (msgs, N, s)))))))"

definition handle_GossipBlockHead ::
  "('k, 'z) env_scheme \<Rightarrow> Block \<Rightarrow> bytes \<Rightarrow> 'k node \<Rightarrow> (message list \<times> 'k node) outcome" where
  "handle_GossipBlockHead E b excepted s =
     obind (own_groups E (Group b)) (\<lambda>own.
       if \<not> own then Ok ([], s)
       else obind (Block_Verify E b) (\<lambda>ok.
         if \<not> ok then Ok ([], s)
         else obind (AddBlockhead E (Group b) (Some b) s) (\<lambda>(added, s).
           Ok (if added then [MGossipBlockHead (b\<lparr>Txns := []\<rparr>) excepted] else [], s))))"

section \<open>Properties\<close>

text \<open>
  C23: a transaction enters the pool through \<^verbatim>\<open>GossipTxn\<close> only when it is verified. When the handler passes a transaction on, the
  transaction is for a group of the node, was neither in the pool nor in the chain, verifies against the chain, and is
  in the pool afterwards. Otherwise the pool of the group is as before, at most without the transactions that depend on a cycle.
  The database does not change.
\<close>

theorem GossipTxn_admits_verified:
  assumes "node_env E" and "pool_ok E (mempools s (gomod g (MaxGroupNum E)))" and "handle_GossipTxn E g txn excepted s = Ok (msgs, s')"
  shows "node_dbs s' = node_dbs s \<and>
    (if msgs = []
     then mempools s' (gomod g (MaxGroupNum E)) \<in> {mempools s (gomod g (MaxGroupNum E)), snd (GetTxns E (mempools s (gomod g (MaxGroupNum E))))}
     else msgs = [MGossipTxn g txn excepted] \<and> own_groups E g = Ok True \<and>
       GetTxn (Transaction_Hash E txn) (mempools s (gomod g (MaxGroupNum E))) = None \<and>
       FindTxn E (gomod g (MaxGroupNum E)) (Transaction_Hash E txn) s = None \<and>
       VerifyTransaction E (gomod g (MaxGroupNum E)) txn s = Ok None \<and>
       GetTxn (Transaction_Hash E txn) (mempools s' (gomod g (MaxGroupNum E))) = Some txn)"
proof -
  let ?mg = "gomod g (MaxGroupNum E)"
  have mod: "group_mod E g = Ok ?mg" by (rule node_env.group_mod_ok [OF assms(1)])
  obtain own where own: "own_groups E g = Ok own" using assms(3) by (auto simp: handle_GossipTxn_def)
  show ?thesis
  proof (cases "\<exists>ok s1. own \<and> GetTxn (Transaction_Hash E txn) (mempools s ?mg) = None \<and>
      FindTxn E ?mg (Transaction_Hash E txn) s = None \<and> VerifyTransaction E ?mg txn s = Ok None \<and>
      UTXOMemVerifyTransaction E \<lparr>set_bc = ?mg, set_group = g\<rparr> txn s = Ok (ok, s1)")
    case False
    then have "msgs = [] \<and> s' = s"
      using assms(3) own mod
      by (auto simp: handle_GossipTxn_def mempool_GetTxn_eq GetBlockchain_def GetUTXOSet_def split: if_splits)
    then show ?thesis by simp
  next
    case True
    then obtain ok s1 where h: "own" "GetTxn (Transaction_Hash E txn) (mempools s ?mg) = None"
        "FindTxn E ?mg (Transaction_Hash E txn) s = None" "VerifyTransaction E ?mg txn s = Ok None"
        "UTXOMemVerifyTransaction E \<lparr>set_bc = ?mg, set_group = g\<rparr> txn s = Ok (ok, s1)"
      by blast
    have s1: "node_dbs s1 = node_dbs s" "mempools s1 ?mg \<in> {mempools s ?mg, snd (GetTxns E (mempools s ?mg))}"
      using h(5) mod by (auto simp: UTXOMemVerifyTransaction_def mempool_GetTxns_def with_mempool_def case_prod_beta split: if_splits)
    have "msgs = (if ok then [MGossipTxn g txn excepted] else []) \<and>
        s' = (if ok then s1\<lparr>mempools := (mempools s1)(?mg := AddTxn E txn (mempools s1 ?mg))\<rparr> else s1)"
      using assms(3) own h mod
      by (auto simp: handle_GossipTxn_def mempool_GetTxn_eq GetBlockchain_def GetUTXOSet_def mempool_AddTxn_def with_mempool_def split: if_splits)
    then show ?thesis using s1 h own by (auto simp: mempool.lookup_add split: if_splits)
  qed
qed

text \<open>
  C24: \<^verbatim>\<open>GossipBlock\<close> appends every block that fits: when a block for a group of the node has the next height, names the newest
  block, has a target of at least 1 and a hash that no stored block has, the handler returns, stores the chain with the block at its end, and passes the block on.
  No proof of work is asked for.
\<close>

theorem GossipBlock_appends:
  assumes "node_env E" and "chain_ok E g bs s" and "store_ok E g s" and "bs \<noteq> []" and "continues E g bs b"
    and "0 \<le> g" and "g < MaxGroupNum E" and "own_groups E g = Ok True"
  shows "\<exists>s'. handle_GossipBlock E P rnd b sender excepted (N, s) = Ok ([MGossipBlock b excepted], N, s') \<and>
    chain_ok E g (bs @ [b]) s' \<and> store_ok E g s'"
proof -
  have b: "Group b = g" "Height b = int (length bs)" "length bs < 2 ^ 24" "PrevHash b = tip_hash E [] bs"
    using assms(5) by (auto simp: continues_def)
  obtain s1 s2 where s2: "AddBlock E g (Some b) s = Ok s1" "Update E \<lparr>set_bc = g, set_group = g\<rparr> b s1 = Ok s2"
      "chain_ok E g (bs @ [b]) s2" "store_ok E g s2"
    using node_env.append_step [OF assms(1-3,5-7)] by blast
  have "block_stored E g (last bs) s" using assms(2,4) unfolding chain_ok_def by simp
  then obtain h where h: "Block_Hash E (last bs) = Ok h" by (auto simp: block_stored_def)
  have "HashValue_Equal (PrevHash b) h"
    using node_env.tip_hash_last [OF assms(1) assms(4) h, of "[]"] b(4) by (simp add: HashValue_Equal_def)
  moreover have "GetBlockchain E g = Ok g" by (rule node_env.own_group [OF assms(1,6,7)])
  moreover have "Height (last bs) = int (length bs) - 1" by (rule node_env.last_Height [OF assms(1,2,4)])
  moreover have "i32 (int (length bs)) = int (length bs)" using b(3) by (simp add: i32_id)
  ultimately show ?thesis
    using assms(4,8) b s2 h node_env.GetLastest_chain [OF assms(1,2)]
    by (simp add: handle_GossipBlock_def GetUTXOSet_def Let_def)
qed

section \<open>Balances\<close>

lemma collect_outs:
  "cursor_loop (\<lambda>k v utxos. Ok (utxos @ f v, True)) items acc = Ok (acc @ concat (map (\<lambda>(k, v). f v) items))"
  by (induction items arbitrary: acc) auto

text \<open>
  \<^verbatim>\<open>GetBalance\<close> takes the hash inside the address for a public key and hashes it again: when no stored output is locked with
  the hash of the hash of a wallet's key, the balance of the wallet's address is 0, whatever outputs are
  locked with the key.
\<close>

lemma GetBalance_hashes_twice:
  assumes "node_env E" and "GetGroup E = Ok g" and "node_dbs s UTXOs g = Some bucket"
    and "\<forall>(k, v) \<in> set (bolt_items E bucket). \<forall>out \<in> set (BytesToTxnOutputs E v).
      PubKeyHash out \<noteq> PublicKey_Hash E (PublicKey_Hash E (wPublicKey w))"
  shows "handle_GetBalance E (GetAddress E w) s = Ok (Inr 0)"
proof -
  have dig: "digests E" using assms(1) by (simp add: node_env_def)
  have "filter (\<lambda>out. IsLockedWithKey E out (PublicKey_Hash E (wPublicKey w))) (BytesToTxnOutputs E v) = []"
    if "(k, v) \<in> set (bolt_items E bucket)" for k v
    using assms(4) that by (auto simp: filter_empty_conv IsLockedWithKey_def HashValue_Equal_def)
  then have "concat (map (\<lambda>(k, v). filter (\<lambda>out. IsLockedWithKey E out (PublicKey_Hash E (wPublicKey w))) (BytesToTxnOutputs E v))
      (bolt_items E bucket)) = []"
    by (auto simp: concat_eq_Nil_conv)
  then have "FindUTXOByHash E \<lparr>set_bc = bc, set_group = g\<rparr> (PublicKey_Hash E (wPublicKey w)) s = Ok []" for bc
    using assms(3) by (simp add: FindUTXOByHash_def db_Foreach_def collect_outs)
  moreover have "ValidateAddress E (GetAddress E w)"
    unfolding digests.ValidateAddress_iff [OF dig] digests.decoded_address [OF dig] by blast
  ultimately show ?thesis
    using assms(2) digests.address_hash_GetAddress [OF dig] node_env.group_mod_ok [OF assms(1)]
    by (simp add: handle_GetBalance_def GetUTXOSet_def GetBlockchain_def)
qed

section \<open>Witnesses\<close>

lemma mirror_group: "GetGroup mirror_env = Ok 0"
  using ref_group by (simp add: GetGroup_def)

theorem GossipTxn_admits_verified_witness:
  "\<exists>s'. handle_GossipTxn mirror_env 0 sample_coinbase [9] empty_node = Ok ([MGossipTxn 0 sample_coinbase [9]], s') \<and>
     GetTxn (Transaction_Hash mirror_env sample_coinbase) (mempools s' 0) = Some sample_coinbase"
proof -
  have "\<exists>s'. handle_GossipTxn mirror_env 0 sample_coinbase [9] empty_node = Ok ([MGossipTxn 0 sample_coinbase [9]], s')"
    using mirror_group sample_coinbase_is(1)
    by (simp add: handle_GossipTxn_def own_groups_def InGroup_def in_range_def mempool_GetTxn_eq group_mod_def GetBlockchain_def
        FindTxn_def empty_node_def node_Get_def db_Get_def GetTxn_def VerifyTransaction_def GetUTXOSet_def
        UTXOMemVerifyTransaction_def mempool_AddTxn_def with_mempool_def)
  then obtain s' where s': "handle_GossipTxn mirror_env 0 sample_coinbase [9] empty_node = Ok ([MGossipTxn 0 sample_coinbase [9]], s')"
    by blast
  have "pool_ok mirror_env (mempools empty_node (gomod 0 (MaxGroupNum mirror_env)))" by (simp add: empty_node_def pool_ok_def)
  from GossipTxn_admits_verified [OF mirror_node.node_env_axioms this s'] s' show ?thesis by simp
qed

text \<open>A block that no nonce could make valid: its threshold is 0.\<close>

definition unworked_block :: Block where
  "unworked_block = (fork_block fork_root 5)\<lparr>Target := Fin (2 ^ 256 + 1)\<rparr>"

lemma unworked_hash: "\<exists>h. Block_Hash mirror_env unworked_block = Ok h \<and> hd h = 5"
  by (simp add: Block_Hash_def BlockHeader_Hash_def Encode_def ref_json_def unworked_block_def fork_block_def BlockHeader.truncate_def
      be_bytes_def numeral_eq_Suc)

lemma unworked_fails: "Block_Verify mirror_env unworked_block = Ok False"
proof -
  have "\<lfloor>2 ^ 256 + 1 :: rat\<rfloor> = 2 ^ 256 + 1" by simp
  then have "GetTarget (Target unworked_block) = Ok 0"
    by (simp add: unworked_block_def GetTarget_def truncate_rat_def)
  then show ?thesis using unworked_hash by (auto simp: Block_Verify_def)
qed

definition quiet_net :: net where
  "quiet_net = \<lparr>registered = True, known = [], sorted_nodes = []\<rparr>"

theorem GossipBlock_appends_witness:
  "\<exists>s s'. Block_Verify mirror_env unworked_block = Ok False \<and> chain_ok mirror_env 0 fork_root s \<and>
     handle_GossipBlock mirror_env fork_peer (\<lambda>_. id) unworked_block [] [] (quiet_net, s) =
       Ok ([MGossipBlock unworked_block []], quiet_net, s') \<and>
     chain_ok mirror_env 0 (fork_root @ [unworked_block]) s'"
proof -
  have "continue_all mirror_env 0 [] fork_root" using fork_chains(1) by (simp add: fork_root_def fork_old_def)
  then obtain s where s: "chain_ok mirror_env 0 fork_root s" "store_ok mirror_env 0 s"
    using mirror_node.append_all [of 0 "[]" empty_node fork_root]
    by (auto simp: chain_ok_def lastest_stored_def empty_node_def node_Get_def db_Get_def heads_ok_def pool_ok_def store_ok_def set_ok_def)
  have "Block_Hash mirror_env (fork_block [] 1) \<noteq> Block_Hash mirror_env unworked_block"
    using fork_hash [of "[]" 1] unworked_hash by force
  then have "continues mirror_env 0 fork_root unworked_block"
    by (simp add: continues_def fork_root_def) (simp add: unworked_block_def fork_block_def fork_root_def)
  moreover have "own_groups mirror_env 0 = Ok True" using mirror_group by (simp add: own_groups_def InGroup_def in_range_def)
  ultimately show ?thesis
    using GossipBlock_appends [OF mirror_node.node_env_axioms s, of unworked_block fork_peer "\<lambda>_. id" "[]" "[]" quiet_net]
      s(1) unworked_fails by (auto simp: fork_root_def)
qed

definition rich_node :: "ref_bucket node" where
  "rich_node = empty_node\<lparr>node_dbs := (\<lambda>name g. Some [([7], marshal_outs mirror_env [\<lparr>Value = 50, PubKeyHash = PublicKey_Hash mirror_env [1]\<rparr>])])\<rparr>"

end
