(* ===== verification/Two_Nodes.thy ===== *)
theory Two_Nodes
  imports Handlers
begin

text \<open>
  Two nodes that run the same code: the requests of \<open>Sync\<close> are answered by the handlers of \<open>Handlers\<close> in the state of the other
  node. What a node with a well-formed chain answers, that a synchronisation makes the chains of two nodes equal, and
  how a node without blocks joins.
\<close>

section \<open>A request answered by another node\<close>

text \<open>
  \<^verbatim>\<open>call\<close> of \<^verbatim>\<open>network/call.go\<close>, for a request that the other node answers with the handler outcome \<open>r\<close>. A message in the answer is an
  error. The error of decoding is dropped, so the page that a panic gives counts as an answer with nothing in it, \<open>zero\<close>. What
  travels as JSON arrives as it was sent. A process that ended refuses the connection or closes it; for a handler that never returns the caller waits.
\<close>

definition call_reply :: "'a \<Rightarrow> (api_error + 'a) outcome \<Rightarrow> 'a option outcome" where
  "call_reply zero r =
     (case r of Ok (Inr x) \<Rightarrow> Ok (Some x) | Ok (Inl err) \<Rightarrow> Ok None | Panic \<Rightarrow> Ok (Some zero) | Exit \<Rightarrow> Ok None | Hang \<Rightarrow> Hang)"

definition zero_block :: Block where
  "zero_block = \<lparr>Group = 0, Height = 0, PrevHash = [], Timestamp = 0, MerkleRoot = [], Target = Fin 0, GroupBase = 0, BatchSize = 0,
     BatchMerklePath = [], Nonce = 0, Txns = []\<rparr>"

definition zero_version :: Version where
  "zero_version = \<lparr>vGroup = 0, vVersion = 0, vHeight = 0, vRootHash = [], vNowHash = []\<rparr>"

text \<open>The client functions of \<^verbatim>\<open>api\<close> when every address leads to a node in the state \<open>t\<close>.\<close>

definition CallbackGetHash :: "('k, 'z) env_scheme \<Rightarrow> 'k node \<Rightarrow> int \<Rightarrow> int \<Rightarrow> HashValue option outcome" where
  "CallbackGetHash E t g height = call_reply [] (handle_GetHash E g height t)"

definition CallbackGetBlocks :: "('k, 'z) env_scheme \<Rightarrow> 'k node \<Rightarrow> int \<Rightarrow> int \<Rightarrow> int \<Rightarrow> HashValue \<Rightarrow> Block option list option outcome" where
  "CallbackGetBlocks E t g start to hash = obind (call_reply [] (handle_GetBlocks E g start to hash t)) (\<lambda>r. Ok (map_option (map Some) r))"

definition peer_of :: "('k, 'z) env_scheme \<Rightarrow> (nat \<Rightarrow> bytes \<Rightarrow> KnownNodesEntry list option outcome) \<Rightarrow> 'k node \<Rightarrow> peers" where
  "peer_of E nodes t =
     \<lparr>peer_genesis = (\<lambda>n a g. call_reply zero_block (handle_GetGenesis E g t)),
      peer_version = (\<lambda>n a args. call_reply zero_version (handle_SendVersion E args t)),
      peer_nodes = nodes,
      peer_hash = (\<lambda>a. CallbackGetHash E t),
      peer_blocks = (\<lambda>a. CallbackGetBlocks E t)\<rparr>"

section \<open>What a node with a chain answers\<close>

lemma linked_nth:
  "linked E p bs \<Longrightarrow> i < length bs \<Longrightarrow> PrevHash (bs ! i) = tip_hash E p (take i bs) \<and> (\<exists>h. Block_Hash E (bs ! i) = Ok h)"
proof (induction bs arbitrary: p i)
  case (Cons b bs)
  then show ?case by (cases i) auto
qed simp

context node_env
begin

lemma chain_PrevHash:
  assumes "chain_ok E g bs s" and "Suc i < length bs" and "Block_Hash E (bs ! i) = Ok h"
  shows "PrevHash (bs ! Suc i) = h"
proof -
  have "last (take (Suc i) bs) = bs ! i" using assms(2) by (simp add: take_Suc_conv_app_nth)
  then have "tip_hash E [] (take (Suc i) bs) = h" using assms(2,3) by (intro tip_hash_last) auto
  then show ?thesis using linked_nth [of E "[]" bs "Suc i"] assms(1,2) by (simp add: chain_ok_def)
qed

lemma chain_hash:
  assumes "chain_ok E g bs s" and "i < length bs"
  shows "\<exists>h. Block_Hash E (bs ! i) = Ok h"
  using linked_nth [of E "[]" bs i] assms by (simp add: chain_ok_def)

lemma GetHash_answer:
  assumes "chain_ok E g bs t" and "0 \<le> g" and "g < MaxGroupNum E" and "i < length bs" and "Block_Hash E (bs ! i) = Ok h"
  shows "CallbackGetHash E t g (int i) = Ok (Some h)"
  using own_group [OF assms(2,3)] chain_block_at [OF assms(1,4)] assms(5)
  by (simp add: CallbackGetHash_def call_reply_def handle_GetHash_def)

lemma block_range_chain:
  assumes "chain_ok E g bs t" and "k + n \<le> length bs"
  shows "block_range E g (int k) n t = Ok (Inr (take n (drop k bs)))"
  using assms(2)
proof (induction n arbitrary: k)
  case (Suc n)
  have "drop k bs = bs ! k # drop (Suc k) bs" using Suc.prems by (simp add: Cons_nth_drop_Suc)
  moreover have "block_range E g (int k + 1) n t = Ok (Inr (take n (drop (Suc k) bs)))"
    using Suc.IH [of "Suc k"] Suc.prems by (simp add: add.commute)
  ultimately show ?case using Suc.prems chain_block_at [OF assms(1), of k] by simp
qed simp

lemma GetBlocks_answer:
  assumes "chain_ok E g bs t" and "0 \<le> g" and "g < MaxGroupNum E" and "0 < k" and "k < n" and "n \<le> length bs"
  shows "CallbackGetBlocks E t g (int k) (int n - 1) (tip_hash E [] (take k bs)) = Ok (Some (map Some (drop k (take n bs))))"
proof -
  have k: "k < length bs" using assms(5,6) by simp
  have "PrevHash (bs ! k) = tip_hash E [] (take k bs)" using linked_nth [of E "[]" bs k] assms(1) k by (simp add: chain_ok_def)
  moreover have "nat (int n - 1 - int k + 1) = n - k" using assms(5) by simp
  ultimately have "handle_GetBlocks E g (int k) (int n - 1) (tip_hash E [] (take k bs)) t = Ok (Inr (drop k (take n bs)))"
    using own_group [OF assms(2,3)] chain_block_at [OF assms(1) k] block_range_chain [OF assms(1), of k "n - k"] assms(4-6)
    by (simp add: handle_GetBlocks_def HashValue_Equal_def drop_take)
  then show ?thesis by (simp add: CallbackGetBlocks_def call_reply_def)
qed

lemma chain_genesis:
  assumes "chain_ok E g bs t" and "bs \<noteq> []"
  shows "GetGenesis E g t = Ok (Some (hd bs))"
  using chain_block_at [OF assms(1), of 0] assms(2)
  by (simp add: GetGenesis_def GetBlockByHeight_def block_at_def genesis_key_reads hd_conv_nth)

lemma GetGenesis_answer:
  assumes "chain_ok E g bs t" and "bs \<noteq> []" and "0 \<le> g" and "g < MaxGroupNum E"
  shows "peer_genesis (peer_of E nodes t) n a g = Ok (Some (hd bs))"
  using own_group [OF assms(3,4)] chain_genesis [OF assms(1,2)] by (simp add: peer_of_def call_reply_def handle_GetGenesis_def)

lemma SendVersion_answer:
  assumes "chain_ok E g bs t" and "bs \<noteq> []" and "0 \<le> g" and "g < MaxGroupNum E" and "vGroup args = g"
    and "Block_Hash E (hd bs) = Ok rootHash" and "Block_Hash E (last bs) = Ok nowHash"
  shows "peer_version (peer_of E nodes t) n a args =
    Ok (Some \<lparr>vGroup = g, vVersion = protocol_version, vHeight = int (length bs) - 1, vRootHash = rootHash, vNowHash = nowHash\<rparr>)"
  using own_group [OF assms(3,4)] chain_genesis [OF assms(1,2)] GetLastest_chain [OF assms(1)] last_Height [OF assms(1,2)] assms(2,3,5-7)
  by (simp add: peer_of_def call_reply_def handle_SendVersion_def)

end

text \<open>A peer that answers from a chain. What it answers depends on the protocol only: nodes may differ in their address, in the number of groups they
  serve and in the order of their maps.\<close>

definition peer_chain :: "'z json_scheme \<Rightarrow> peers \<Rightarrow> int \<Rightarrow> Block list \<Rightarrow> bool" where
  "peer_chain E P g bs \<longleftrightarrow>
     (\<forall>a i h. i < length bs \<longrightarrow> Block_Hash E (bs ! i) = Ok h \<longrightarrow> peer_hash P a g (int i) = Ok (Some h)) \<and>
     (\<forall>a k. 0 < k \<longrightarrow> k < length bs \<longrightarrow>
        peer_blocks P a g (int k) (int (length bs) - 1) (tip_hash E [] (take k bs)) = Ok (Some (map Some (drop k bs))))"

definition peer_serves :: "'z json_scheme \<Rightarrow> peers \<Rightarrow> int \<Rightarrow> Block list \<Rightarrow> bool" where
  "peer_serves E P g bs \<longleftrightarrow> peer_chain E P g bs \<and>
     (bs \<noteq> [] \<longrightarrow> (\<forall>n a. peer_genesis P n a g = Ok (Some (hd bs)))) \<and>
     (bs \<noteq> [] \<longrightarrow> (\<forall>n a args rootHash nowHash. vGroup args = g \<longrightarrow> Block_Hash E (hd bs) = Ok rootHash \<longrightarrow> Block_Hash E (last bs) = Ok nowHash \<longrightarrow>
        peer_version P n a args =
          Ok (Some \<lparr>vGroup = g, vVersion = protocol_version, vHeight = int (length bs) - 1, vRootHash = rootHash, vNowHash = nowHash\<rparr>)))"

context node_env
begin

text \<open>A node may announce a block and go on: it also serves every shorter chain that its own chain continues.\<close>

lemma peer_of_chain:
  assumes "chain_ok E g bs t" and "0 \<le> g" and "g < MaxGroupNum E" and "n \<le> length bs"
  shows "peer_chain E (peer_of E nodes t) g (take n bs)"
proof -
  have "min k n = k" if "k < n" for k using that by simp
  then show ?thesis
    using GetHash_answer [OF assms(1-3)] GetBlocks_answer [OF assms(1-3), of _ n] assms(4)
    by (simp add: peer_chain_def peer_of_def)
qed

lemma peer_of_serves:
  assumes "chain_ok E g bs t" and "0 \<le> g" and "g < MaxGroupNum E"
  shows "peer_serves E (peer_of E nodes t) g bs"
  using peer_of_chain [OF assms order_refl, of nodes] GetGenesis_answer [OF assms(1) _ assms(2,3)] SendVersion_answer [OF assms(1) _ assms(2,3)]
  by (simp add: peer_serves_def)

end

section \<open>Two chains\<close>

text \<open>The blocks of a chain are for its group and have a usable difficulty.\<close>

definition sound_blocks :: "int \<Rightarrow> Block list \<Rightarrow> bool" where
  "sound_blocks g bs \<longleftrightarrow> (\<forall>b \<in> set bs. Group b = g \<and> (\<exists>q. Target b = Fin q \<and> 1 \<le> q))"

text \<open>No block of one chain collides with another block of the other.\<close>

definition no_collision :: "'z json_scheme \<Rightarrow> Block list \<Rightarrow> Block list \<Rightarrow> bool" where
  "no_collision E xs ys \<longleftrightarrow> (\<forall>b \<in> set xs. \<forall>b' \<in> set ys. Block_Hash E b = Block_Hash E b' \<longrightarrow> b = b')"

lemma fork_point:
  "\<exists>common old new. xs = common @ old \<and> ys = common @ new \<and> (old = [] \<or> new = [] \<or> hd old \<noteq> hd new)"
proof (induction xs arbitrary: ys)
  case (Cons x xs)
  show ?case
  proof (cases "ys \<noteq> [] \<and> hd ys = x")
    case True
    then obtain ys' where ys: "ys = x # ys'" by (cases ys) auto
    obtain common old new where "xs = common @ old" "ys' = common @ new" "old = [] \<or> new = [] \<or> hd old \<noteq> hd new"
      using Cons.IH by blast
    then show ?thesis using ys by (intro exI [of _ "x # common"] exI [of _ old] exI [of _ new]) simp
  next
    case False
    then show ?thesis by (intro exI [of _ "[]"] exI [of _ "x # xs"] exI [of _ ys]) auto
  qed
qed simp

context node_env
begin

lemma chains_agree_below:
  assumes "chain_ok E g xs s" and "chain_ok E g ys t" and "no_collision E xs ys"
    and "i < length xs" and "i < length ys" and "xs ! i = ys ! i" and "j \<le> i"
  shows "xs ! j = ys ! j"
  using assms(4-7)
proof (induction i)
  case (Suc i)
  obtain h h' where h: "Block_Hash E (xs ! i) = Ok h" "Block_Hash E (ys ! i) = Ok h'"
    using chain_hash [OF assms(1), of i] chain_hash [OF assms(2), of i] Suc.prems by auto
  then have "h = h'" using chain_PrevHash [OF assms(1)] chain_PrevHash [OF assms(2)] Suc.prems(1-3) by metis
  then have "xs ! i = ys ! i" using assms(3) h Suc.prems(1,2) by (simp add: no_collision_def)
  then show ?case using Suc by (cases "j = Suc i") auto
qed simp

lemma chain_continues:
  assumes "chain_ok E g (common @ new) t" and "sound_blocks g new"
  shows "continue_all E g common new"
  using assms
proof (induction new arbitrary: common)
  case (Cons b new)
  let ?bs = "common @ b # new"
  have b: "Height b = int (length common)" "length common < 2 ^ 24"
    using Cons.prems(1) by (auto simp: chain_ok_def dest!: spec [of _ "length common"])
  have "PrevHash b = tip_hash E [] common"
    using linked_nth [of E "[]" ?bs "length common"] Cons.prems(1) by (simp add: chain_ok_def)
  moreover have "Block_Hash E b' \<noteq> Block_Hash E b" if b': "b' \<in> set common" for b'
  proof
    assume same: "Block_Hash E b' = Block_Hash E b"
    obtain h where "Block_Hash E b = Ok h" using chain_hash [OF Cons.prems(1), of "length common"] by auto
    then have "b' = b" using chain_hash_inject [OF Cons.prems(1), of b' b] same b' by simp
    moreover obtain i where "i < length common" "common ! i = b'" using b' by (auto simp: in_set_conv_nth)
    then have "Height b' = int i" "i < length common" using Cons.prems(1) by (auto simp: chain_ok_def nth_append dest!: spec [of _ i])
    ultimately show False using b(1) by simp
  qed
  ultimately show ?case
    using Cons.IH [of "common @ [b]"] Cons.prems b by (simp add: continues_def sound_blocks_def)
qed simp

lemma GetHeight_store:
  assumes "chain_ok E g bs s" and "store_ok E g s"
  shows "\<exists>s'. GetHeight E g s = Ok (int (length bs) - 1, s') \<and> chain_ok E g bs s' \<and> store_ok E g s' \<and> confined g s s' \<and>
    onceBlockheadGetHeight s' = onceBlockheadGetHeight s \<and> cacheBlockheadHeight s' = cacheBlockheadHeight s \<and> node_dbs s' = node_dbs s"
proof -
  obtain s' where s': "GetHeight E g s = Ok (int (length bs) - 1, s')" "chain_ok E g bs s'" "node_dbs s' = node_dbs s"
      "mempools s' = mempools s" "onceBlockheadGetHeight s' = onceBlockheadGetHeight s" "cacheBlockheadHeight s' = cacheBlockheadHeight s"
    using GetHeight_chain [OF assms(1)] by blast
  then show ?thesis
    using assms(2) GetHeight_confined [OF s'(1)] by (auto simp: store_ok_def heads_ok_def set_ok_def node_Get_def)
qed

lemma sync_not_longer:
  assumes "chain_ok E g bs s" and "store_ok E g s" and "height < int (length bs)" and "0 \<le> g" and "g < MaxGroupNum E"
  shows "\<exists>s'. syncBlocks E P g height a s = Ok s' \<and> chain_ok E g bs s' \<and> store_ok E g s' \<and> confined g s s'"
proof -
  obtain s' where "GetHeight E g s = Ok (int (length bs) - 1, s')" "chain_ok E g bs s'" "store_ok E g s'" "confined g s s'"
    using GetHeight_store [OF assms(1,2)] by blast
  then show ?thesis using own_group [OF assms(4,5)] assms(3) by (intro exI [of _ s']) (simp add: syncBlocks_def)
qed

lemma nodes_converge_ok:
  assumes mine: "chain_ok E g mine s" "store_ok E g s" "(\<nexists>rest. other = mine @ rest) \<Longrightarrow> buckets_made g s" "\<forall>b \<in> set mine. named_inputs b"
    and other: "chain_ok E g other t" "sound_blocks g other" "peer_chain E P g other" and longer: "length mine < length other" "mine \<noteq> []" "hd mine = hd other"
    and coll: "no_collision E mine other" and g: "0 \<le> g" "g < MaxGroupNum E"
  shows "\<exists>s'. syncBlocks E P g (int (length other) - 1) a s = Ok s' \<and> chain_ok E g other s' \<and> store_ok E g s' \<and>
    confined g s s'"
proof -
  obtain common old new where split: "mine = common @ old" "other = common @ new" and fork: "old = [] \<or> new = [] \<or> hd old \<noteq> hd new"
    using fork_point by blast
  have "common \<noteq> []" using split fork longer by (cases common) auto
  have differ: "mine ! i \<noteq> other ! i" if i: "i < length mine" "length common \<le> i" for i
  proof
    assume "mine ! i = other ! i"
    then have "mine ! length common = other ! length common"
      using chains_agree_below [OF mine(1) other(1) coll i(1) _ _ i(2)] i(1) longer(1) by simp
    moreover have "old \<noteq> []" "new \<noteq> []" using split i longer(1) by auto
    ultimately show False using fork by (simp add: split nth_append hd_conv_nth)
  qed
  have "\<exists>h h'. Block_Hash E ((common @ old) ! i) = Ok h \<and> peer_hash P a g (int i) = Ok (Some h') \<and>
      (h' = h \<longleftrightarrow> i < length common)" if "i < length (common @ old)" for i
  proof -
    have i: "i < length mine" "i < length other" using that split longer(1) by auto
    obtain h h' where h: "Block_Hash E (mine ! i) = Ok h" "Block_Hash E (other ! i) = Ok h'"
      using chain_hash [OF mine(1) i(1)] chain_hash [OF other(1) i(2)] by blast
    have "h' = h \<longleftrightarrow> mine ! i = other ! i" using coll h i by (auto simp: no_collision_def)
    also have "\<dots> \<longleftrightarrow> i < length common" using differ [OF i(1)] split by (auto simp: nth_append)
    finally show ?thesis using h split(1) other(3) i(2) by (simp add: peer_chain_def)
  qed
  moreover have "continue_all E g common new"
    using chain_continues [of g common new t] other split(2) by (auto simp: sound_blocks_def)
  moreover have "length old < length new" using longer(1) split by simp
  moreover from this have "new \<noteq> []" by auto
  moreover have "peer_blocks P a g (int (length common)) (int (length (common @ new)) - 1) (tip_hash E [] common) = Ok (Some (map Some new))"
  proof -
    have "0 < length common" "length common < length other" using \<open>common \<noteq> []\<close> \<open>new \<noteq> []\<close> split(2) by auto
    then have "peer_blocks P a g (int (length common)) (int (length other) - 1) (tip_hash E [] (take (length common) other)) =
        Ok (Some (map Some (drop (length common) other)))"
      using other(3) unfolding peer_chain_def by blast
    then show ?thesis by (simp add: split(2))
  qed
  moreover have "buckets_made g s" if "old \<noteq> []"
  proof -
    have "new \<noteq> old @ rest" for rest using fork that \<open>new \<noteq> []\<close> by (cases old) auto
    then show ?thesis using mine(3) by (simp add: split)
  qed
  ultimately show ?thesis
    using syncBlocks_ok [of g common old s new "P" a] mine split \<open>common \<noteq> []\<close> g by auto
qed

lemma adopt_ok:
  assumes mine: "chain_ok E g mine s" "store_ok E g s" "(\<nexists>rest. other = mine @ rest) \<Longrightarrow> buckets_made g s" "\<forall>b \<in> set mine. named_inputs b"
    and other: "chain_ok E g other t" "sound_blocks g other" "peer_chain E P g other" and root: "mine \<noteq> []" "hd mine = hd other"
    and coll: "no_collision E mine other" and g: "0 \<le> g" "g < MaxGroupNum E"
  shows "\<exists>s'. syncBlocks E P g (int (length other) - 1) a s = Ok s' \<and>
    chain_ok E g (if length mine < length other then other else mine) s' \<and> store_ok E g s' \<and> confined g s s'"
  using nodes_converge_ok [OF mine other _ root coll g] sync_not_longer [OF mine(1,2) _ g] by (cases "length mine < length other") auto

end

section \<open>Joining the network\<close>

text \<open>Some node in the list serves the group of this node.\<close>

definition reachable_peer :: "('k, 'z) env_scheme \<Rightarrow> Position list \<Rightarrow> bool" where
  "reachable_peer E nodes \<longleftrightarrow> (\<exists>own. GetGroup E = Ok own \<and> (\<exists>node \<in> set nodes. covers E own node))"

lemma CallInnerGroup_answer:
  assumes "reachable_peer E nodes" and "\<And>a. call a = Ok (Some r)"
  shows "\<exists>a. CallInnerGroup E call nodes = Ok (Some (r, a))"
proof -
  obtain own where own: "GetGroup E = Ok own" "\<exists>node \<in> set nodes. covers E own node" using assms(1) by (auto simp: reachable_peer_def)
  then show ?thesis
  proof (induction nodes)
    case (Cons node nodes)
    then show ?case using assms(2) by (cases "covers E own node") auto
  qed simp
qed

context node_env
begin

lemma genesis_fetched:
  assumes "reachable_peer E (sorted_nodes N)" and "\<And>a. peer_genesis P n a g = Ok (Some b)" and "Block_Verify E b = Ok True"
  shows "genesis_loop E P rnd n g N = Some (Ok (b, N))"
  using CallInnerGroup_answer [OF assms(1), of "\<lambda>a. peer_genesis P n a g" b] assms(2,3)
  by (subst genesis_loop.simps) (auto simp: request_genesis_def)

lemma version_fetched:
  assumes "reachable_peer E nodes" and "\<And>a. peer_version P 0 a \<lparr>vGroup = g, vVersion = protocol_version, vHeight = h, vRootHash = root_hash, vNowHash = now\<rparr> = Ok (Some v)"
    and "vVersion v = protocol_version" and "vRootHash v = root_hash"
  shows "\<exists>a. version_loop E P 0 g h root_hash now nodes = Some (Ok (vHeight v, a))"
  using CallInnerGroup_answer [OF assms(1), of "\<lambda>a. peer_version P 0 a \<lparr>vGroup = g, vVersion = protocol_version, vHeight = h, vRootHash = root_hash, vNowHash = now\<rparr>" v] assms(2-4)
  by (subst version_loop.simps) (auto simp: SendVersion_def HashValue_Equal_def)

lemma genesis_stored:
  assumes chain: "chain_ok E g [] s" "store_ok E g s" and b: "continues E g [] b" and g: "0 \<le> g" "g < MaxGroupNum E"
  shows "\<exists>s1 s2 s3. AddBlock E g (Some b) s = Ok s1 \<and> Reindex E \<lparr>set_bc = g, set_group = g\<rparr> s1 = Ok s2 \<and>
    TxnReindex E g s2 = Ok s3 \<and> chain_ok E g [b] s3 \<and> store_ok E g s3 \<and> confined g s s3"
proof -
  obtain q where q: "Target b = Fin q" "1 \<le> q" using b by (auto simp: continues_def)
  obtain s1 s0 where s1: "AddBlock E g (Some b) s = Ok s1" "chain_ok E g [b] s1" "heads_ok E g s1"
      "mempools s1 = (mempools s)(g := pool_after E g s0 b (mempools s g))"
    using AddBlock_ok [OF chain(1) _ _ _ _ _ q] chain(2) b g by (auto simp: store_ok_def continues_def)
  have "pool_ok E (mempools s1 g)" using s1(4) pool_after_ok(1) chain(2) by (simp add: store_ok_def)
  then obtain s2 s3 where s3: "Reindex E \<lparr>set_bc = g, set_group = g\<rparr> s1 = Ok s2" "TxnReindex E g s2 = Ok s3"
      "chain_ok E g [b] s3" "store_ok E g s3"
    using reindex_step [OF s1(2) _ s1(3)] by blast
  have "confined g s s1" by (rule AddBlock_confined [OF s1(1)]) (use b g group_mod_ok in \<open>simp add: continues_def\<close>)
  moreover have "confined g s1 s2" using Reindex_confined [OF s3(1)] by simp
  ultimately have "confined g s s3" using TxnReindex_confined [OF s3(2)] by (meson confined_trans)
  then show ?thesis using s1(1) s3 by blast
qed

end

text \<open>A node without heads of a group has no height of heads cached but \<open>-1\<close>.\<close>

definition heads_fresh :: "int \<Rightarrow> 'k node \<Rightarrow> bool" where
  "heads_fresh g s \<longleftrightarrow> node_dbs s Blockheads g = None \<longrightarrow> onceBlockheadGetHeight s g \<longrightarrow> cacheBlockheadHeight s g = -1"

lemma AddBlockhead_first:
  assumes "AddBlockhead E g (Some b) s = Ok (added, s')" and "heads_fresh g s" and "Height b = 0" and "Block_Verify E b = Ok True"
  shows "node_dbs s' Blockheads g \<noteq> None"
proof (cases "node_dbs s Blockheads g")
  case None
  have "node_Get E Blockheads g k s = None" for k using None by (simp add: node_Get_def db_Get_def)
  moreover have "i32 0 = 0" by (simp add: i32_id)
  ultimately have "node_Get E Blockheads g lastest_key s' \<noteq> None \<or> (\<exists>s1 bytes. node_Set E Blockheads g lastest_key bytes s1 = Ok s')"
    using assms None
    by (auto simp: AddBlockhead_def Blockhead_GetHeight_def Blockhead_GetLastest_def BytesToBlock_def heads_fresh_def split: if_splits)
  then show ?thesis by (auto simp: node_Set_def db_Set_def db_bucket_def node_Get_def db_Get_def Let_def split: option.splits)
next
  case (Some bucket)
  then show ?thesis using AddBlockhead_confined [OF assms(1)] by (simp add: confined_def)
qed

lemma heads_fresh_Set: "node_Set E Blocks g k v s = Ok s' \<Longrightarrow> heads_fresh g s \<Longrightarrow> heads_fresh g s'"
  by (auto simp: node_Set_def db_Set_def db_bucket_def heads_fresh_def Let_def split: option.splits)

lemma heads_fresh_SetLastest: "SetLastest E g (Some b) s = Ok s' \<Longrightarrow> heads_fresh g s \<Longrightarrow> heads_fresh g s'"
  by (auto simp: SetLastest_def dest!: heads_fresh_Set [of E g lastest_key _ s]) (simp add: heads_fresh_def)

lemma heads_fresh_GetHeight: "GetHeight E g s = Ok (h, s') \<Longrightarrow> heads_fresh g s \<Longrightarrow> heads_fresh g s'"
  by (auto simp: GetHeight_def heads_fresh_def split: if_splits)

lemma AddBlock_heads:
  assumes "AddBlock E g (Some b) s = Ok s'" and "GetHeight E g s = Ok (-1, s0)" and "Height b = 0" and "Block_Verify E b = Ok True"
    and "heads_fresh g s"
  shows "node_dbs s' Blockheads g \<noteq> None"
proof -
  have "i32 ((-1) + 1) = Height b" using assms(3) by (simp add: i32_id)
  then obtain s1 s2 s3 s4 s5 bytes hash added mg m where steps: "SetLastest E g (Some b) s0 = Ok s1"
      "node_Set E Blocks g (KBytes hash) bytes s1 = Ok s2" "node_Set E Blocks g (KInt32 (Height b)) hash s2 = Ok s3"
      "AddBlockhead E g (Some b) s3 = Ok (added, s4)" "ofold (txn_index_put E g) (Txns b) s4 = Ok s5"
      "s' = s5\<lparr>mempools := (mempools s5)(mg := m)\<rparr>"
    using AddBlock_steps [OF assms(1)] assms(2) by auto
  have "heads_fresh g s3"
    using heads_fresh_GetHeight [OF assms(2,5)] steps(1-3) heads_fresh_SetLastest heads_fresh_Set by metis
  then have "node_dbs s4 Blockheads g \<noteq> None" by (rule AddBlockhead_first [OF steps(4) _ assms(3,4)])
  then show ?thesis using txn_index_confined [OF steps(5)] steps(6) by (simp add: confined_def)
qed

lemma genesis_buckets:
  assumes add: "AddBlock E g (Some b) s = Ok s1" "Reindex E \<lparr>set_bc = g, set_group = g\<rparr> s1 = Ok s2" "TxnReindex E g s2 = Ok s3"
    and chain: "chain_ok E g [b] s3" and new: "GetHeight E g s = Ok (-1, s0)" "Height b = 0" "Block_Verify E b = Ok True" "heads_fresh g s"
  shows "buckets_made g s3"
proof -
  have c3: "confined g s2 s3" by (rule TxnReindex_confined [OF add(3)])
  have c2: "confined g s1 s2" using Reindex_confined [OF add(2)] by simp
  have "node_dbs s3 Txns_db g \<noteq> None" by (rule node_Clear_made [OF TxnReindex_cleared [OF add(3)]])
  moreover have "node_dbs s2 UTXOs g \<noteq> None" using node_Clear_made [OF Reindex_cleared [OF add(2)]] by simp
  then have "node_dbs s3 UTXOs g \<noteq> None" using c3 by (simp add: confined_def)
  moreover have "node_dbs s3 Blocks g \<noteq> None"
    using chain by (auto simp: chain_ok_def block_stored_def node_Get_def db_Get_def split: option.splits)
  moreover have "node_dbs s3 Blockheads g \<noteq> None"
    using AddBlock_heads [OF add(1) new] c2 c3 by (simp add: confined_def)
  ultimately show ?thesis by (simp add: buckets_made_def)
qed

section \<open>Asking for the height\<close>

context node_env
begin

lemma resync_ok:
  assumes mine: "chain_ok E g mine s" "store_ok E g s" "(\<nexists>rest. other = mine @ rest) \<Longrightarrow> buckets_made g s" "\<forall>b \<in> set mine. named_inputs b"
    and other: "chain_ok E g other t" "sound_blocks g other" "peer_serves E P g other" and first: "mine \<noteq> []" "other \<noteq> []" "hd mine = hd other"
    and coll: "no_collision E mine other" and net: "reachable_peer E ps" and g: "0 \<le> g" "g < MaxGroupNum E"
  shows "\<exists>rootHash nowHash a s'. Block_Hash E (hd mine) = Ok rootHash \<and> Block_Hash E (last mine) = Ok nowHash \<and>
    version_loop E P 0 g (Height (last mine)) rootHash nowHash ps = Some (Ok (int (length other) - 1, a)) \<and>
    syncBlocks E P g (int (length other) - 1) a s = Ok s' \<and>
    chain_ok E g (if length mine < length other then other else mine) s' \<and> store_ok E g s' \<and> confined g s s'"
proof -
  have hash: "\<exists>h. Block_Hash E (hd bs) = Ok h" "\<exists>h. Block_Hash E (last bs) = Ok h" if "chain_ok E g bs u" "bs \<noteq> []" for bs u
    using chain_hash [OF that(1), of 0] chain_hash [OF that(1), of "length bs - 1"] that(2) by (simp_all add: hd_conv_nth last_conv_nth)
  obtain rootHash nowHash otherHash where h: "Block_Hash E (hd mine) = Ok rootHash" "Block_Hash E (last mine) = Ok nowHash"
      "Block_Hash E (last other) = Ok otherHash"
    using hash [OF mine(1) first(1)] hash(2) [OF other(1) first(2)] by blast
  define v where "v = \<lparr>vGroup = g, vVersion = protocol_version, vHeight = int (length other) - 1, vRootHash = rootHash, vNowHash = otherHash\<rparr>"
  have served: "peer_chain E P g other" using other(3) by (simp add: peer_serves_def)
  obtain a where ver: "version_loop E P 0 g (Height (last mine)) rootHash nowHash ps = Some (Ok (int (length other) - 1, a))"
    using version_fetched [OF net, of "P" g "Height (last mine)" rootHash nowHash v]
      other(3) first(2) h(1) [unfolded first(3)] h(3) by (auto simp: v_def peer_serves_def)
  show ?thesis using adopt_ok [OF mine other(1,2) served first(1,3) coll g, of a] ver h by blast
qed

lemma Sync_again_ok:
  assumes mine: "chain_ok E g mine s" "store_ok E g s" "buckets_made g s" "\<forall>b \<in> set mine. named_inputs b"
    and other: "chain_ok E g other t" "sound_blocks g other" "peer_serves E P g other" and first: "mine \<noteq> []" "other \<noteq> []" "hd mine = hd other"
    and coll: "no_collision E mine other" and net: "registered N" "reachable_peer E (sorted_nodes N)" and g: "0 \<le> g" "g < MaxGroupNum E"
  shows "\<exists>s'. Sync E P rnd g (N, s) = Ok (N, s') \<and>
    chain_ok E g (if length mine < length other then other else mine) s' \<and> store_ok E g s' \<and> confined g s s'"
proof -
  obtain s0 where s0: "GetHeight E g s = Ok (int (length mine) - 1, s0)" "chain_ok E g mine s0" "store_ok E g s0" "confined g s s0"
    using GetHeight_store [OF mine(1,2)] by blast
  have "buckets_made g s0" using mine(3) s0(4) by (simp add: buckets_made_def confined_def)
  then obtain rootHash nowHash a s' where s': "Block_Hash E (hd mine) = Ok rootHash" "Block_Hash E (last mine) = Ok nowHash"
      "version_loop E P 0 g (Height (last mine)) rootHash nowHash (sorted_nodes N) = Some (Ok (int (length other) - 1, a))"
      "syncBlocks E P g (int (length other) - 1) a s0 = Ok s'"
      "chain_ok E g (if length mine < length other then other else mine) s'" "store_ok E g s'" "confined g s0 s'"
    using resync_ok [OF s0(2,3) _ mine(4) other first coll net(2) g] by blast
  have "N\<lparr>registered := True\<rparr> = N" using net(1) by (cases N) simp
  moreover have "\<not> int (length mine) - 1 < 0" using first(1) by (cases mine) auto
  ultimately have "Sync E P rnd g (N, s) = Ok (N, s')"
    using s'(1-4) net(1) own_group [OF g] group_mod_ok [of g] s0(1) g first(1) GetLastest_chain [OF s0(2)] chain_genesis [OF s0(2)]
    by (simp add: Sync_def network_Register_def returns_def Let_def)
  then show ?thesis using s'(5-7) confined_trans [OF s0(4)] by blast
qed

lemma joining_ok:
  assumes mine: "chain_ok E g [] s" "store_ok E g s"
    and other: "chain_ok E g other t" "sound_blocks g other" "peer_serves E P g other" "other \<noteq> []" "Block_Verify E (hd other) = Ok True"
    and named: "named_inputs (hd other)" and net: "registered N" "reachable_peer E (sorted_nodes N)" and g: "0 \<le> g" "g < MaxGroupNum E"
  shows "\<exists>s'. Sync E P rnd g (N, s) = Ok (N, s') \<and> chain_ok E g other s' \<and> store_ok E g s' \<and> confined g s s' \<and>
    (heads_fresh g s \<longrightarrow> buckets_made g s')"
proof -
  let ?b = "hd other"
  obtain s0 where s0: "GetHeight E g s = Ok (-1, s0)" "chain_ok E g [] s0" "store_ok E g s0" "confined g s s0"
    using GetHeight_store [OF mine] by auto
  have split: "other = [?b] @ tl other" using other(4) by simp
  have "continue_all E g [] ([?b] @ tl other)" using chain_continues [of g "[]" other t] other split by simp
  then have "continues E g [] ?b" by simp
  then obtain s1 s2 s3 where s3: "AddBlock E g (Some ?b) s0 = Ok s1" "Reindex E \<lparr>set_bc = g, set_group = g\<rparr> s1 = Ok s2"
      "TxnReindex E g s2 = Ok s3" "chain_ok E g [?b] s3" "store_ok E g s3" "confined g s0 s3"
    using genesis_stored [OF s0(2,3) _ g] by blast
  have gen: "genesis_loop E P rnd 1 g N = Some (Ok (?b, N))"
    using genesis_fetched [OF net(2) _ other(5)] other(3,4) by (simp add: peer_serves_def)
  obtain h where h: "Block_Hash E ?b = Ok h" using chain_hash [OF other(1), of 0] other(4) by (auto simp: hd_conv_nth)
  have coll: "no_collision E [?b] other"
    using chain_hash_inject [OF other(1) hd_in_set [OF other(4)] _ h] h by (simp add: no_collision_def)
  have pre: "(\<nexists>rest. other = [?b] @ rest) \<Longrightarrow> buckets_made g s3" using split by blast
  have one: "\<forall>b \<in> set [?b]. named_inputs b" "[?b] \<noteq> []" "hd [?b] = hd other" "last [?b] = ?b" using named by simp_all
  obtain rootHash nowHash a s' where s': "Block_Hash E ?b = Ok rootHash" "Block_Hash E ?b = Ok nowHash"
      "version_loop E P 0 g (Height ?b) rootHash nowHash (sorted_nodes N) = Some (Ok (int (length other) - 1, a))"
      "syncBlocks E P g (int (length other) - 1) a s3 = Ok s'"
      "chain_ok E g (if length [?b] < length other then other else [?b]) s'" "store_ok E g s'" "confined g s3 s'"
    using resync_ok [OF s3(4,5) pre one(1) other(1,2,3) one(2) other(4) one(3) coll net(2) g] unfolding one(3,4) by blast
  have "(if length [?b] < length other then other else [?b]) = other" using other(4) by (cases other; cases "tl other") auto
  then have "chain_ok E g other s'" using s'(5) by (simp only:)
  moreover have same: "N\<lparr>registered := True\<rparr> = N" using net(1) by (cases N) simp
  have "Sync E P rnd g (N, s) = Ok (N, s')"
    using s'(1-4) net(1) own_group [OF g] group_mod_ok [of g] s0(1) s3(1-3) g gen GetLastest_chain [OF s3(4)] chain_genesis [OF s3(4)]
    by (simp add: Sync_def network_Register_def returns_def Let_def GetUTXOSet_def same)
  moreover have "confined g s s'" using s0(4) s3(6) s'(7) by (meson confined_trans)
  moreover have "buckets_made g s'" if "heads_fresh g s"
  proof -
    have "GetHeight E g s0 = Ok (-1, s0)" using s0(1) by (auto simp: GetHeight_def split: if_splits)
    moreover have "Height ?b = 0" using other(1,4) by (simp add: chain_ok_def hd_conv_nth)
    ultimately have "buckets_made g s3" using genesis_buckets [OF s3(1-4) _ _ other(5)] heads_fresh_GetHeight [OF s0(1) that] by blast
    then show ?thesis using s'(7) by (simp add: buckets_made_def confined_def)
  qed
  ultimately show ?thesis using s'(6) by blast
qed

end

section \<open>Properties\<close>

text \<open>
  C4: two nodes that run this code agree after a synchronisation. When the other node, which answers \<^verbatim>\<open>GetHash\<close> and \<^verbatim>\<open>GetBlocks\<close> from its own
  state, has a longer chain with the same first block, \<^verbatim>\<open>syncBlocks\<close> returns and this node stores the chain of the
  other, whatever fork lies between them, with its other groups as before. The blocks of the two chains do not collide.
\<close>

theorem nodes_converge:
  assumes "node_env E" and "chain_ok E g mine s" and "store_ok E g s" and "buckets_made g s" and "\<forall>b \<in> set mine. named_inputs b"
    and "chain_ok E g other t" and "sound_blocks g other" and "length mine < length other" and "mine \<noteq> []" and "hd mine = hd other"
    and "no_collision E mine other" and "0 \<le> g" and "g < MaxGroupNum E"
  shows "\<exists>s'. syncBlocks E (peer_of E nodes t) g (int (length other) - 1) a s = Ok s' \<and> chain_ok E g other s' \<and> store_ok E g s' \<and>
    confined g s s'"
  using node_env.nodes_converge_ok [OF assms(1-7) _ assms(8-13)] node_env.peer_of_serves [OF assms(1,6,12,13)] by (simp add: peer_serves_def)

text \<open>
  C8: a node without blocks joins the network. When a node of the list serves its group and answers from a chain whose first
  block verifies, the loops of \<^verbatim>\<open>Sync\<close> end at the first answer and the new node then stores the whole chain of the other.
\<close>

theorem new_node_joins:
  assumes "node_env E" and "chain_ok E g [] s" and "store_ok E g s"
    and "chain_ok E g other t" and "sound_blocks g other" and "other \<noteq> []" and "Block_Verify E (hd other) = Ok True"
    and "named_inputs (hd other)" and "registered N" and "reachable_peer E (sorted_nodes N)" and "0 \<le> g" and "g < MaxGroupNum E"
  shows "\<exists>s'. Sync E (peer_of E nodes t) rnd g (N, s) = Ok (N, s') \<and> chain_ok E g other s' \<and> store_ok E g s' \<and>
    confined g s s'"
  using node_env.joining_ok [OF assms(1-5) node_env.peer_of_serves [OF assms(1,4,11,12)] assms(6-12), of nodes rnd] by blast

subsection \<open>Two nodes\<close>

lemma empty_mirror: "chain_ok mirror_env 0 [] empty_node" "store_ok mirror_env 0 empty_node"
  by (simp_all add: chain_ok_def lastest_stored_def empty_node_def node_Get_def db_Get_def heads_ok_def pool_ok_def store_ok_def set_ok_def)

lemma fork_other: "\<exists>t. chain_ok mirror_env 0 (fork_root @ fork_new) t"
proof -
  have "continue_all mirror_env 0 [] (fork_root @ fork_new)"
    using fork_chains by (simp add: fork_root_def)
  then show ?thesis using mirror_node.append_all [OF empty_mirror] by fastforce
qed

lemma fork_sound: "sound_blocks 0 (fork_root @ fork_new)" "\<forall>b \<in> set (fork_root @ fork_old). named_inputs b"
  by (auto simp: sound_blocks_def fork_root_def fork_new_def fork_old_def fork_block_def named_inputs_def)

lemma fork_no_collision: "no_collision mirror_env (fork_root @ fork_old) (fork_root @ fork_new)"
proof -
  have "Block_Hash mirror_env (fork_block bs m) \<noteq> Block_Hash mirror_env (fork_block bs' n)"
    if "(m, n) \<in> {(1, 3), (1, 4), (2, 1), (2, 3), (2, 4)}" for m n bs bs'
    using that by (intro fork_hash_neq) auto
  then show ?thesis by (simp add: no_collision_def fork_root_def fork_old_def fork_new_def)
qed

theorem nodes_converge_witness:
  "\<exists>s t s'. chain_ok mirror_env 0 (fork_root @ fork_old) s \<and> chain_ok mirror_env 0 (fork_root @ fork_new) t \<and>
     syncBlocks mirror_env (peer_of mirror_env (\<lambda>_ _. Ok None) t) 0 2 [] s = Ok s' \<and> chain_ok mirror_env 0 (fork_root @ fork_new) s'"
proof -
  obtain s where s: "chain_ok mirror_env 0 (fork_root @ fork_old) s" "store_ok mirror_env 0 s" "buckets_made 0 s"
    using fork_state by blast
  obtain t where t: "chain_ok mirror_env 0 (fork_root @ fork_new) t" using fork_other by blast
  show ?thesis
    using nodes_converge [OF mirror_node.node_env_axioms s fork_sound(2) t fork_sound(1) _ _ _ fork_no_collision] s(1) t
    by (fastforce simp: fork_root_def fork_old_def fork_new_def)
qed

definition fork_net :: net where
  "fork_net = \<lparr>registered = True, known = [], sorted_nodes = [\<lparr>posAddress = [1], Distance = 0, posGroupBase = 0, posGroupNumber = 1\<rparr>]\<rparr>"

theorem new_node_joins_witness:
  "\<exists>t s'. chain_ok mirror_env 0 (fork_root @ fork_new) t \<and>
     Sync mirror_env (peer_of mirror_env (\<lambda>_ _. Ok None) t) (\<lambda>_. id) 0 (fork_net, empty_node) = Ok (fork_net, s') \<and>
     chain_ok mirror_env 0 (fork_root @ fork_new) s'"
proof -
  obtain t where t: "chain_ok mirror_env 0 (fork_root @ fork_new) t" using fork_other by blast
  have first: "hd (fork_root @ fork_new) = fork_block [] 1" "fork_root @ fork_new \<noteq> []" by (simp_all add: fork_root_def)
  have "Block_Verify mirror_env (hd (fork_root @ fork_new)) = Ok True"
    unfolding first by (rule mirror_node.easy_block_verifies) (simp add: fork_block_def)
  moreover have "named_inputs (hd (fork_root @ fork_new))" by (simp add: first named_inputs_def fork_block_def)
  moreover have "registered fork_net" "reachable_peer mirror_env (sorted_nodes fork_net)"
    using mirror_group by (simp_all add: fork_net_def reachable_peer_def covers_def InGroup_def in_range_def)
  ultimately show ?thesis
    using new_node_joins [OF mirror_node.node_env_axioms empty_mirror t fork_sound(1) first(2)] t by fastforce
qed

end
