(* ===== verification/Node_Network.thy ===== *)
theory Node_Network
  imports Two_Nodes
begin

text \<open>
  Nodes that serve several groups and exchange blocks: what it is for a node to serve a chain, and that each handler leaves the
  chains of the other groups alone and keeps or extends the one of its own group.
\<close>

section \<open>A well-formed node\<close>

text \<open>
  A node serves the chain \<open>bs\<close> of a group: the chain is stored, the pool, the heads and the set are well formed, every block is for the group
  with a usable difficulty, its first block verifies, and the buckets exist as soon as there is a block.
\<close>

definition serves :: "('k, 'z) env_scheme \<Rightarrow> int \<Rightarrow> Block list \<Rightarrow> 'k node \<Rightarrow> bool" where
  "serves E g bs s \<longleftrightarrow>
     chain_ok E g bs s \<and> store_ok E g s \<and> sound_blocks g bs \<and> (\<forall>b \<in> set bs. named_inputs b) \<and>
     (bs \<noteq> [] \<longrightarrow> Block_Verify E (hd bs) = Ok True \<and> buckets_made g s) \<and> (bs = [] \<longrightarrow> heads_fresh g s)"

text \<open>A step that leaves the chains of all groups as they are.\<close>

definition keeps_chains :: "('k, 'z) env_scheme \<Rightarrow> 'k node \<Rightarrow> 'k node \<Rightarrow> bool" where
  "keeps_chains E s s' \<longleftrightarrow> (\<forall>g bs. 0 \<le> g \<longrightarrow> g < MaxGroupNum E \<longrightarrow> serves E g bs s \<longrightarrow> serves E g bs s')"

lemma keeps_chains_refl [simp]: "keeps_chains E s s"
  by (simp add: keeps_chains_def)

lemma keeps_chains_trans: "keeps_chains E s t \<Longrightarrow> keeps_chains E t u \<Longrightarrow> keeps_chains E s u"
  by (simp add: keeps_chains_def)

lemma serves_frame: "confined g' s s' \<Longrightarrow> g \<noteq> g' \<Longrightarrow> serves E g bs s' = serves E g bs s"
  by (simp add: confined_def serves_def chain_ok_def store_ok_def block_stored_def lastest_stored_def heads_ok_def set_ok_def
      buckets_made_def heads_fresh_def node_Get_def db_Get_def)

lemma keeps_chains_confined:
  assumes "confined g s s'" and "\<And>bs. serves E g bs s \<Longrightarrow> serves E g bs s'"
  shows "keeps_chains E s s'"
  unfolding keeps_chains_def
proof (intro allI impI)
  fix g' bs assume "serves E g' bs s"
  then show "serves E g' bs s'" using assms(2) serves_frame [OF assms(1), of g' E bs] by (cases "g' = g") simp_all
qed

context node_env
begin

lemma chain_unique:
  assumes "chain_ok E g bs s" and "chain_ok E g bs' s"
  shows "bs = bs'"
proof (cases "bs = []")
  case True
  then show ?thesis using assms GetLastest_chain [of g bs s] GetLastest_chain [of g bs' s] by (auto split: if_splits)
next
  case False
  then have "bs' \<noteq> []" using assms GetLastest_chain [of g bs s] GetLastest_chain [of g bs' s] by (auto split: if_splits)
  then show ?thesis using chain_blocks_chain [OF assms(1) False] chain_blocks_chain [OF assms(2)] by simp
qed

lemma serves_chain:
  assumes "serves E g bs s" and "chain_ok E g bs' s"
  shows "bs' = bs"
  using assms by (intro chain_unique [OF assms(2)]) (simp add: serves_def)

section \<open>Handlers that only touch a pool\<close>

lemma pool_change:
  assumes "pool_ok E (mempools s mg) \<Longrightarrow> pool_ok E m"
  shows "keeps_chains E s (s\<lparr>mempools := (mempools s)(mg := m)\<rparr>)"
  using assms by (auto simp: keeps_chains_def serves_def chain_ok_def store_ok_def block_stored_def lastest_stored_def heads_ok_def set_ok_def
      buckets_made_def heads_fresh_def)

text \<open>The last part of both handlers: check against set and pool, then add.\<close>

lemma admit_pool:
  assumes "UTXOMemVerifyTransaction E us txn s = Ok (ok, s1)"
    and "if ok then mempool_AddTxn E (set_group us) txn s1 = Ok s' else s' = s1"
  shows "keeps_chains E s s'"
proof -
  let ?mg = "gomod (set_group us) (MaxGroupNum E)"
  have mod: "group_mod E (set_group us) = Ok ?mg" by (rule group_mod_ok)
  obtain m where s1: "s1 = s\<lparr>mempools := (mempools s)(?mg := m)\<rparr>" "pool_ok E (mempools s ?mg) \<Longrightarrow> pool_ok E m"
  proof (cases "IsCoinbase txn")
    case True
    then have "s1 = s\<lparr>mempools := (mempools s)(?mg := mempools s ?mg)\<rparr>" using assms(1) by (simp add: UTXOMemVerifyTransaction_def)
    then show thesis using that by blast
  next
    case False
    then have "s1 = s\<lparr>mempools := (mempools s)(?mg := snd (GetTxns E (mempools s ?mg)))\<rparr>"
      using assms(1) mod by (auto simp: UTXOMemVerifyTransaction_def mempool_GetTxns_def with_mempool_def case_prod_beta)
    moreover have "pool_ok E (snd (GetTxns E (mempools s ?mg)))" if "pool_ok E (mempools s ?mg)"
      by (rule GetTxns_valid [OF that prod.collapse [symmetric]])
    ultimately show thesis using that by blast
  qed
  have "keeps_chains E s s1" unfolding s1(1) by (rule pool_change [OF s1(2)])
  moreover have "s' = s1\<lparr>mempools := (mempools s1)(?mg := AddTxn E txn (mempools s1 ?mg))\<rparr>" if ok
    using assms(2) that mod by (auto simp: mempool_AddTxn_def with_mempool_def)
  moreover have "keeps_chains E s1 (s1\<lparr>mempools := (mempools s1)(?mg := AddTxn E txn (mempools s1 ?mg))\<rparr>)"
    by (intro pool_change mempool.valid_add)
  ultimately show ?thesis using assms(2) keeps_chains_trans by (cases ok) auto
qed

end

context node_env
begin

lemma GossipTxn_keeps:
  assumes "handle_GossipTxn E g txn excepted s = Ok (msgs, s')"
  shows "keeps_chains E s s'"
proof -
  have mod: "group_mod E g = Ok (gomod g (MaxGroupNum E))" by (rule group_mod_ok)
  have "s' = s \<or> (\<exists>us ok s1. set_group us = g \<and> UTXOMemVerifyTransaction E us txn s = Ok (ok, s1) \<and>
      (if ok then mempool_AddTxn E g txn s1 = Ok s' else s' = s1))"
    using assms mod
    by (auto simp: handle_GossipTxn_def mempool_GetTxn_eq GetBlockchain_def GetUTXOSet_def split: if_splits) (metis UTXOSet.select_convs(2))+
  then show ?thesis using admit_pool by (metis keeps_chains_refl)
qed

lemma GossipRelayTxn_keeps:
  assumes "handle_GossipRelayTxn E fromGroup toGroup height path txn excepted s = Ok (msgs, s')"
  shows "keeps_chains E s s'"
proof -
  have mod: "group_mod E toGroup = Ok (gomod toGroup (MaxGroupNum E))" by (rule group_mod_ok)
  have "s' = s \<or> (\<exists>us ok s1. set_group us = toGroup \<and> UTXOMemVerifyTransaction E us txn s = Ok (ok, s1) \<and>
      (if ok then mempool_AddTxn E toGroup txn s1 = Ok s' else s' = s1))"
    using assms mod
    by (auto simp: handle_GossipRelayTxn_def mempool_GetTxn_eq GetBlockchain_def GetUTXOSet_def split: if_splits option.splits)
      (metis UTXOSet.select_convs(2))+
  then show ?thesis using admit_pool by (metis keeps_chains_refl)
qed

section \<open>Heads\<close>

lemma own_groups_range:
  assumes "own_groups E g = Ok True" and "GroupNum E \<le> MaxGroupNum E"
  shows "0 \<le> g" and "g < MaxGroupNum E"
proof -
  obtain own where own: "GetGroup E = Ok own" "InGroup g own (GroupNum E) (MaxGroupNum E)" using assms(1) by (auto simp: own_groups_def)
  then have "0 \<le> own" "own < MaxGroupNum E" using GetGroup_range by simp_all
  then show "0 \<le> g" "g < MaxGroupNum E" using own(2) assms(2) by (auto simp: InGroup_def in_range_def split: if_splits)
qed

lemma AddBlockhead_keeps:
  assumes "AddBlockhead E g (Some b) s = Ok (added, s')" and "serves E g bs s"
  shows "serves E g bs s'"
proof -
  have other: "node_Get E name g k s' = node_Get E name g k s" if "name \<noteq> Blockheads" for name k
    using assms(1) that by (auto simp: AddBlockhead_def Blockhead_GetHeight_def node_Get_Set split: if_splits)
  have "heads_ok E g s' \<and> (heads_fresh g s \<longrightarrow> heads_fresh g s')"
  proof (cases added)
    case True
    then obtain bytes t where "marshal_block E (b\<lparr>Txns := []\<rparr>) = Some bytes" and put: "node_Set E Blockheads g lastest_key bytes t = Ok s'"
      using assms(1) by (auto simp: AddBlockhead_def Encode_def split: if_splits option.splits)
    then have "heads_ok E g s'" by (simp add: heads_ok_def node_Get_Set unmarshal_marshal_block)
    moreover have "node_Get E Blockheads g lastest_key s' \<noteq> None" using node_Get_Set [OF put] by simp
    then have "heads_fresh g s'" by (auto simp: heads_fresh_def node_Get_def db_Get_def)
    ultimately show ?thesis by simp
  next
    case False
    then have "s' = s \<or> (\<exists>h. Blockhead_GetHeight E g s = Ok (h, s'))" using assms(1) by (auto simp: AddBlockhead_def split: if_splits)
    moreover have "heads_fresh g s'" if "Blockhead_GetHeight E g s = Ok (h, s')" "heads_fresh g s" for h
      using that by (auto simp: Blockhead_GetHeight_def Blockhead_GetLastest_def BytesToBlock_def heads_fresh_def node_Get_def db_Get_def
          split: if_splits)
    moreover have "heads_ok E g s'" if "Blockhead_GetHeight E g s = Ok (h, s')" for h
      using that assms(2) by (auto simp: Blockhead_GetHeight_def serves_def store_ok_def heads_ok_def split: if_splits)
    ultimately show ?thesis using assms(2) by (auto simp: serves_def store_ok_def)
  qed
  moreover have "mempools s' = mempools s \<and> cacheHeight s' = cacheHeight s \<and> onceGetHeight s' = onceGetHeight s"
    using assms(1) by (auto simp: AddBlockhead_def Blockhead_GetHeight_def node_Set_def split: if_splits)
  moreover have "buckets_made g s'" if "buckets_made g s"
    using that AddBlockhead_confined [OF assms(1)] by (simp add: buckets_made_def confined_def)
  ultimately show ?thesis using assms(2) other
    by (auto simp: serves_def chain_ok_def store_ok_def block_stored_def lastest_stored_def set_ok_def)
qed

lemma GossipBlockHead_keeps:
  assumes "handle_GossipBlockHead E b excepted s = Ok (msgs, s')"
  shows "keeps_chains E s s'"
proof (cases "s' = s")
  case False
  then obtain added where add: "AddBlockhead E (Group b) (Some b) s = Ok (added, s')"
    using assms by (auto simp: handle_GossipBlockHead_def split: if_splits)
  show ?thesis by (rule keeps_chains_confined [OF AddBlockhead_confined [OF add] AddBlockhead_keeps [OF add]])
qed simp

end

section \<open>Blocks\<close>

text \<open>A synchronisation ends with the longer of the two chains.\<close>

definition longer :: "Block list \<Rightarrow> Block list \<Rightarrow> Block list" where
  "longer mine other = (if length mine < length other then other else mine)"

context node_env
begin

lemma serves_append:
  assumes "serves E g bs s" and "bs \<noteq> []" and "continues E g bs b" and "named_inputs b" and "0 \<le> g" and "g < MaxGroupNum E"
  shows "\<exists>s1 s2. AddBlock E g (Some b) s = Ok s1 \<and> Update E \<lparr>set_bc = g, set_group = g\<rparr> b s1 = Ok s2 \<and>
    serves E g (bs @ [b]) s2 \<and> confined g s s2"
proof -
  have ok: "chain_ok E g bs s" "store_ok E g s" using assms(1) by (simp_all add: serves_def)
  obtain s1 s2 where s2: "AddBlock E g (Some b) s = Ok s1" "Update E \<lparr>set_bc = g, set_group = g\<rparr> b s1 = Ok s2"
      "chain_ok E g (bs @ [b]) s2" "store_ok E g s2"
    using append_step [OF ok assms(3,5,6)] by blast
  have "group_mod E (Group b) = Ok g" using group_mod_ok assms(3,5,6) by (simp add: continues_def)
  then have con: "confined g s s2"
    using AddBlock_confined [OF s2(1)] Update_confined [OF s2(2)] by (auto intro: confined_trans)
  then have "buckets_made g s2" using assms(1,2) by (simp add: serves_def buckets_made_def confined_def)
  moreover have "sound_blocks g (bs @ [b])" using assms(1,3) by (auto simp: serves_def sound_blocks_def continues_def)
  ultimately have "serves E g (bs @ [b]) s2" using assms(1,2,4) s2(3,4) by (auto simp: serves_def)
  then show ?thesis using s2(1,2) con by blast
qed

text \<open>What \<^verbatim>\<open>GossipBlock\<close> does with a block that is not below the newest one.\<close>

lemma GossipBlock_cases:
  assumes "handle_GossipBlock E P rnd b sender excepted (N, s) = Ok (msgs, N', s')" and "chain_ok E g mine s" and "Group b = g"
    and "own_groups E g = Ok True" and "0 \<le> g" and "g < MaxGroupNum E" and "int (length mine) \<le> Height b"
  shows "if mine = [] then Sync E P rnd g (N, s) = Ok (N', s')
    else if Height b = int (length mine) \<and> PrevHash b = tip_hash E [] mine
    then \<exists>s1. AddBlock E g (Some b) s = Ok s1 \<and> Update E \<lparr>set_bc = g, set_group = g\<rparr> b s1 = Ok s'
    else syncBlocks E P g (Height b) sender s = Ok s'"
proof -
  have bc: "GetBlockchain E g = Ok g" by (rule own_group [OF assms(5,6)])
  show ?thesis
  proof (cases "mine = []")
    case True
    then have last: "GetLastest E g s = Ok None" using GetLastest_chain [OF assms(2)] by simp
    have "Height b \<noteq> 0" using assms(1,3,4) bc last by (auto simp: handle_GossipBlock_def GetUTXOSet_def i32_id)
    then show ?thesis
      using True assms(1,3,4,7) bc last by (auto simp: handle_GossipBlock_def GetUTXOSet_def i32_id Let_def)
  next
    case False
    then have last: "GetLastest E g s = Ok (Some (last mine))" using GetLastest_chain [OF assms(2)] by simp
    have "block_stored E g (last mine) s" using assms(2) False by (simp add: chain_ok_def)
    then obtain h where h: "Block_Hash E (last mine) = Ok h" by (auto simp: block_stored_def)
    have height: "Height (last mine) = int (length mine) - 1" by (rule last_Height [OF assms(2) False])
    have "length mine \<le> 2 ^ 24" using assms(2) by (simp add: chain_ok_def)
    then have wrap: "i32 (int (length mine)) = int (length mine)" by (simp add: i32_id)
    have tip: "tip_hash E [] mine = h" by (rule tip_hash_last [OF False h])
    show ?thesis
      using False assms(1,3,4,7) bc last h height wrap tip
      by (auto simp: handle_GossipBlock_def GetUTXOSet_def Let_def HashValue_Equal_def split: if_splits)
  qed
qed

lemma GossipBlock_below:
  assumes "handle_GossipBlock E P rnd b sender excepted (N, s) = Ok (msgs, N', s')" and "chain_ok E (Group b) mine s"
    and "Height b < int (length mine)" and "GroupNum E \<le> MaxGroupNum E"
  shows "s' = s"
proof (cases "own_groups E (Group b) = Ok True")
  case True
  note g = own_groups_range [OF True assms(4)]
  have "mine \<noteq> [] \<or> Height b < 0" using assms(3) by auto
  moreover have "length mine \<le> 2 ^ 24" using assms(2) by (simp add: chain_ok_def)
  then have "i32 (int (length mine)) = int (length mine)" by (simp add: i32_id)
  ultimately show ?thesis
    using True assms(1,3) own_group [OF g] GetLastest_chain [OF assms(2)] last_Height [OF assms(2)]
    by (cases "mine = []") (auto simp: handle_GossipBlock_def GetUTXOSet_def Let_def i32_id split: if_splits)
next
  case False
  then show ?thesis using assms(1) by (auto simp: handle_GossipBlock_def split: if_splits)
qed

lemma serves_sync:
  assumes mine: "serves E g mine s" "mine \<noteq> []" and other: "chain_ok E g other t" "sound_blocks g other" "\<forall>b \<in> set other. named_inputs b"
    "hd mine = hd other" and peer: "peer_chain E P g other"
    and coll: "no_collision E mine other" and g: "0 \<le> g" "g < MaxGroupNum E"
  shows "\<exists>s'. syncBlocks E P g (int (length other) - 1) a s = Ok s' \<and>
    serves E g (longer mine other) s' \<and> confined g s s'"
proof -
  have ok: "chain_ok E g mine s" "store_ok E g s" "buckets_made g s" "\<forall>b \<in> set mine. named_inputs b"
    using mine by (simp_all add: serves_def)
  let ?bs = "longer mine other"
  obtain s' where s': "syncBlocks E P g (int (length other) - 1) a s = Ok s'" "chain_ok E g ?bs s'" "store_ok E g s'" and con: "confined g s s'"
    using adopt_ok [OF ok(1,2) _ ok(4) other(1,2) peer mine(2) other(4) coll g, of a] ok(3) unfolding longer_def by auto
  have "buckets_made g s'" using ok(3) con by (simp add: buckets_made_def confined_def)
  then have "serves E g ?bs s'" using s' mine other by (auto simp: serves_def longer_def)
  then show ?thesis using s'(1) con by blast
qed

lemma serves_Sync:
  assumes mine: "serves E g mine s" and other: "serves E g other t" "other \<noteq> []" "mine = [] \<or> hd mine = hd other"
    and peer: "peer_serves E P g other"
    and coll: "no_collision E mine other" and net: "registered N" "reachable_peer E (sorted_nodes N)" and g: "0 \<le> g" "g < MaxGroupNum E"
  shows "\<exists>s'. Sync E P rnd g (N, s) = Ok (N, s') \<and>
    serves E g (longer mine other) s' \<and> confined g s s'"
proof -
  have ok: "chain_ok E g mine s" "store_ok E g s" "\<forall>b \<in> set mine. named_inputs b" "chain_ok E g other t" "sound_blocks g other"
      "Block_Verify E (hd other) = Ok True" "named_inputs (hd other)"
    using mine other(1,2) by (simp_all add: serves_def)
  show ?thesis
  proof (cases "mine = []")
    case True
    then obtain s' where s': "Sync E P rnd g (N, s) = Ok (N, s')" "chain_ok E g other s'" "store_ok E g s'" "confined g s s'" "buckets_made g s'"
      using joining_ok [OF _ ok(2,4,5) peer other(2) ok(6,7) net g, of rnd] ok(1) mine by (auto simp: serves_def)
    then have "serves E g other s'" using other by (simp add: serves_def)
    then show ?thesis using s'(1,4) True other(2) by (auto simp: longer_def)
  next
    case False
    then have made: "buckets_made g s" "hd mine = hd other" using mine other(3) by (simp_all add: serves_def)
    let ?bs = "longer mine other"
    obtain s' where s': "Sync E P rnd g (N, s) = Ok (N, s')" "chain_ok E g ?bs s'" "store_ok E g s'" and con: "confined g s s'"
      using Sync_again_ok [OF ok(1,2) made(1) ok(3-5) peer False other(2) made(2) coll net g, of rnd] unfolding longer_def by auto
    have "buckets_made g s'" using made(1) con by (simp add: buckets_made_def confined_def)
    then have "serves E g ?bs s'" using s' mine other by (auto simp: serves_def longer_def)
    then show ?thesis using s'(1) con by blast
  qed
qed

end

section \<open>The first block\<close>

lemma GetHeight_again: "GetHeight E g s = Ok (h, t) \<Longrightarrow> GetHeight E g t = Ok (h, t)"
  by (auto simp: GetHeight_def split: if_splits)

text \<open>A search that no other goroutine disturbs reads one height and changes nothing else.\<close>

lemma Run_loop_quiet:
  assumes "Run_loop E world speed pow nonce s = Ok (r, s')" and "\<And>n t. world n t = t" and "pow_blocks pow = [b]"
    and "GetBlockchain E (Group b) = Ok g"
  shows "s' = s \<or> (\<exists>h. GetHeight E g s = Ok (h, s'))"
  using assms
proof (induction E world speed pow nonce s rule: Run_loop.induct)
  case (1 E world speed pow nonce s)
  show ?case
  proof (cases "MaxInt64 \<le> nonce")
    case True
    then show ?thesis using "1.prems"(1) by (simp add: Run_loop.simps)
  next
    case False
    obtain same t where t: "heights_same E (pow_blocks pow) (world nonce s) = Ok (same, t)"
      using "1.prems"(1) False by (subst (asm) Run_loop.simps) auto
    then obtain h where h: "GetHeight E g s = Ok (h, t)" using "1.prems"(2-4) by (auto split: if_splits)
    have "s' = t \<or> (\<exists>h. GetHeight E g t = Ok (h, s'))"
      using "1.prems"(1) False t "1.IH" [OF False t refl _ _ _ _ "1.prems"(2-4)]
      by (subst (asm) Run_loop.simps) (auto split: if_splits)
    then show ?thesis using h GetHeight_again [OF h] by auto
  qed
qed

context node_env
begin

lemma serves_GetHeight:
  assumes "serves E g bs s" and "GetHeight E g s = Ok (h, s')"
  shows "serves E g bs s'" and "confined g s s'"
proof -
  have "chain_ok E g bs s" "store_ok E g s" using assms(1) by (simp_all add: serves_def)
  then have s': "chain_ok E g bs s'" "store_ok E g s'" "node_dbs s' = node_dbs s"
    using GetHeight_store [of g bs s] assms(2) by auto
  moreover have "heads_fresh g s \<Longrightarrow> heads_fresh g s'" by (rule heads_fresh_GetHeight [OF assms(2)])
  ultimately show "serves E g bs s'" using assms(1) by (simp add: serves_def buckets_made_def)
  show "confined g s s'" by (rule GetHeight_confined [OF assms(2)])
qed

lemma serves_clear:
  assumes "serves E g [] s"
  shows "serves E g [] (node_Clear E Blocks g s)"
  using assms by (auto simp: serves_def chain_ok_def lastest_stored_def store_ok_def set_ok_def heads_ok_def heads_fresh_def node_Clear_def
      node_Get_def db_Get_def db_Clear_def db_bucket_def)

lemma serves_first:
  assumes "serves E g [] s" and "continues E g [] b" and "named_inputs b" and "Block_Verify E b = Ok True" and "0 \<le> g" and "g < MaxGroupNum E"
  shows "\<exists>s1 s2 s3. AddBlock E g (Some b) s = Ok s1 \<and> Reindex E \<lparr>set_bc = g, set_group = g\<rparr> s1 = Ok s2 \<and>
    TxnReindex E g s2 = Ok s3 \<and> serves E g [b] s3 \<and> confined g s s3"
proof -
  have ok: "chain_ok E g [] s" "store_ok E g s" "heads_fresh g s" using assms(1) by (simp_all add: serves_def)
  obtain s1 s2 s3 where s3: "AddBlock E g (Some b) s = Ok s1" "Reindex E \<lparr>set_bc = g, set_group = g\<rparr> s1 = Ok s2"
      "TxnReindex E g s2 = Ok s3" "chain_ok E g [b] s3" "store_ok E g s3" "confined g s s3"
    using genesis_stored [OF ok(1,2) assms(2,5,6)] by blast
  obtain s0 where "GetHeight E g s = Ok (-1, s0)" using GetHeight_store [OF ok(1,2)] by auto
  then have "buckets_made g s3"
    using genesis_buckets [OF s3(1-4) _ _ assms(4) ok(3)] assms(2) by (simp add: continues_def)
  moreover have "sound_blocks g [b]" using assms(2) by (simp add: sound_blocks_def continues_def)
  ultimately have "serves E g [b] s3" using s3(4,5) assms(3,4) by (simp add: serves_def)
  then show ?thesis using s3 by blast
qed

lemma serves_create:
  assumes create: "CreateBlockchain E M randData minerAddress s = Ok (r, s')" and "serves E g [] s" and "GetGroup E = Ok g"
    and quiet: "\<And>n t. mine_world M n t = t"
  shows "\<exists>b. serves E g [b] s'" and "confined g s s'"
proof -
  have g: "0 \<le> g" "g < MaxGroupNum E" using GetGroup_range [OF assms(3)] by simp_all
  obtain txn where txn: "NewCoinbaseTxn randData minerAddress = Ok txn"
    using create assms(3) own_group [OF g] by (auto simp: CreateBlockchain_def)
  have ready: "ready E g [] s" using assms(2) by (simp add: ready_def serves_def store_ok_def)
  obtain b s1 where b: "MineBlocksForCreate E M txn g s = Ok (Inr b, s1)" "Height b = 0" "PrevHash b = []" "Group b = g" "Target b = Fin 1"
      "Txns b = [txn]"
    using genesis_mined [OF ready g, of M txn] quiet by auto
  have "s1 = s \<or> (\<exists>h. GetHeight E g s = Ok (h, s1))"
  proof -
    obtain tree c pow r where "Group c = g" "NewPOW E (mine_rnd M) [c] = Ok pow" "Run E (mine_world M) (mine_speed M) pow s = Ok (r, s1)"
      using b(1) by (auto simp: MineBlocksForCreate_def Let_def) (metis BlockHeader.select_convs(1))
    moreover from this(2) have "pow_blocks pow = [c]" by (auto simp: NewPOW_def Let_def split: if_splits)
    ultimately show ?thesis using Run_loop_quiet [of E "mine_world M" "mine_speed M" pow _ s r s1, OF _ quiet] own_group [OF g] by (auto simp: Run_def)
  qed
  then have s1: "serves E g [] s1" "confined g s s1" using assms(2) serves_GetHeight [OF assms(2)] by auto
  let ?s = "node_Clear E Blocks g s1"
  have "continues E g [] b" using b(2-5) by (auto simp: continues_def)
  moreover have "named_inputs b" using b(6) txn by (auto simp: named_inputs_def NewCoinbaseTxn_def IsCoinbase_def split: if_splits)
  ultimately obtain s2 s3 s4 where s4: "AddBlock E g (Some b) ?s = Ok s2" "Reindex E \<lparr>set_bc = g, set_group = g\<rparr> s2 = Ok s3"
      "TxnReindex E g s3 = Ok s4" "serves E g [b] s4" "confined g ?s s4"
    using serves_first [OF serves_clear [OF s1(1)] _ _ easy_block_verifies [OF b(5)] g] by blast
  have "s' = s4"
    using create assms(3) own_group [OF g] txn b(1) s4(1-3) by (simp add: CreateBlockchain_def GetUTXOSet_def)
  then show "\<exists>b. serves E g [b] s'" "confined g s s'"
    using s4(4,5) s1(2) node_Clear_confined [of g s1] by (blast, meson confined_trans)
qed

end

section \<open>A node that has just started\<close>

definition fresh_node :: "'k node" where
  "fresh_node = \<lparr>node_dbs = \<lambda>_ _. None, onceGetHeight = \<lambda>_. False, cacheHeight = \<lambda>_. 0, onceBlockheadGetHeight = \<lambda>_. False,
     cacheBlockheadHeight = \<lambda>_. 0, mempools = \<lambda>_. []\<rparr>"

context node_env
begin

lemma fresh_serves: "serves E g [] fresh_node"
  by (simp add: serves_def chain_ok_def lastest_stored_def store_ok_def heads_ok_def set_ok_def pool_ok_def heads_fresh_def sound_blocks_def
      fresh_node_def node_Get_def db_Get_def)

end

lemma fresh_ready: "ready mirror_env g [] fresh_node"
  using mirror_node.fresh_serves [of g] by (simp add: ready_def serves_def store_ok_def)

lemma created_node:
  "\<exists>s b. CreateBlockchain mirror_env quiet_miner [] (Base58Encode (replicate 25 0)) fresh_node = Ok (None, s) \<and> serves mirror_env 0 [b] s"
proof -
  obtain txn where txn: "NewCoinbaseTxn [] (Base58Encode (replicate 25 0)) = Ok txn"
    by (simp add: NewCoinbaseTxn_def NewTxnOutput_def zero_address)
  have quiet: "mine_world quiet_miner n t = t" for n t by (simp add: quiet_miner_def)
  obtain s where s: "CreateBlockchain mirror_env quiet_miner [] (Base58Encode (replicate 25 0)) fresh_node = Ok (None, s)"
    using mirror_node.CreateBlockchain_ok [OF mirror_group txn fresh_ready, of quiet_miner] quiet by auto
  then show ?thesis using mirror_node.serves_create [OF s mirror_node.fresh_serves mirror_group quiet] by blast
qed

lemma fork_net_ok: "registered fork_net" "reachable_peer mirror_env (sorted_nodes fork_net)"
  using mirror_group by (simp_all add: fork_net_def reachable_peer_def covers_def InGroup_def in_range_def)

end
