(* ===== verification/Server.thy ===== *)
theory Server
  imports Node_Network
begin

text \<open>
  \<^verbatim>\<open>StartServer\<close> of \<^verbatim>\<open>network/server.go\<close> and the command \<^verbatim>\<open>sync\<close>: the rounds of the goroutines that keep the node list and the
  chains up to date. The pauses, the signal that the server is ready and the web server itself have no effect on the
  state.
\<close>

section \<open>The code\<close>

text \<open>
  One round of the first goroutine. The heartbeats run in parallel; \<^verbatim>\<open>UpdateNode\<close> holds the mutex of the map, so their effects come one
  after the other, in an order that is again a permutation of the entries. \<open>nanos a\<close> is the time that the
  heartbeat of \<open>a\<close> took, whether it was answered or not.
\<close>

definition maintenance_round ::
  "('k, 'z) env_scheme \<Rightarrow> (bytes \<Rightarrow> KnownNodesEntry list option outcome) \<Rightarrow> (bytes \<Rightarrow> int) \<Rightarrow> (nat \<Rightarrow> nat) \<Rightarrow> net \<Rightarrow> net outcome" where
  "maintenance_round E call nanos rnd N =
     obind (GetKnownNodes E call (sorted_nodes N) (known N)) (\<lambda>(_, kn).
     obind (ofold (\<lambda>(address, _). UpdateNode address (nanos address)) (range_map E 7 kn) kn) (\<lambda>kn.
     obind (UpdateSortedNodes E rnd kn) (\<lambda>ps. Ok (N\<lparr>known := kn, sorted_nodes := ps\<rparr>))))"

text \<open>
  One round of the second goroutine: one \<^verbatim>\<open>Sync\<close> for every group of the node, in parallel. Each works on a group of its own,
  so they are run one after the other here, in any order. Their errors are dropped.
\<close>

definition sync_round ::
  "('k, 'z) env_scheme \<Rightarrow> (nat \<Rightarrow> peers) \<Rightarrow> (nat \<Rightarrow> nat \<Rightarrow> nat \<Rightarrow> nat) \<Rightarrow> nat list \<Rightarrow> net \<times> 'k node \<Rightarrow> (net \<times> 'k node) outcome" where
  "sync_round E P rnd order st =
     obind (GetGroup E) (\<lambda>group. ofold (\<lambda>i. Sync E (P i) (rnd i) (int i + group)) order st)"

text \<open>The command \<^verbatim>\<open>sync\<close> takes the groups in turn.\<close>

definition SyncCmd ::
  "('k, 'z) env_scheme \<Rightarrow> (nat \<Rightarrow> peers) \<Rightarrow> (nat \<Rightarrow> nat \<Rightarrow> nat \<Rightarrow> nat) \<Rightarrow> net \<times> 'k node \<Rightarrow> (net \<times> 'k node) outcome" where
  "SyncCmd E P rnd =
     ofold (\<lambda>i st. obind (GetGroup E) (\<lambda>group. Sync E (P i) (rnd i) (group + int i) st)) [0..<nat (GroupNum E)]"

section \<open>Keeping the node list\<close>

lemma CallInterGroup_returns: "\<exists>r. CallInterGroup (\<lambda>a. Ok (call a)) ps = Ok r"
  by (induction ps) (auto split: option.split)

lemma GetKnownNodes_ok:
  assumes "reachable_nodes kn" and "GetGroup E = Ok own"
  shows "\<exists>answered kn'. GetKnownNodes E (\<lambda>a. Ok (call a)) ps kn = Ok (answered, kn') \<and> reachable_nodes kn' \<and> dom (map_of kn) \<subseteq> dom (map_of kn')"
proof -
  obtain r0 where r0: "CallInterGroup (\<lambda>a. Ok (call a)) ps = Ok r0" using CallInterGroup_returns by blast
  show ?thesis
proof (cases r0)
  case None
  then show ?thesis using assms r0 by (auto simp: GetKnownNodes_def)
next
  case (Some r)
  obtain entries a where r: "r = (entries, a)" by (cases r)
  have "\<exists>kn'. ofold (\<lambda>e. AddNode (knAddress e) (knTimestamp e) (knGroupBase e) (knGroupNumber e)) entries kn = Ok kn' \<and>
      reachable_nodes kn' \<and> dom (map_of kn) \<subseteq> dom (map_of kn')"
    using assms(1)
  proof (induction entries arbitrary: kn)
    case (Cons e entries)
    obtain kn1 where kn1: "AddNode (knAddress e) (knTimestamp e) (knGroupBase e) (knGroupNumber e) kn = Ok kn1"
        "dom (map_of kn1) = insert (knAddress e) (dom (map_of kn))"
      using AddNode_ok [OF reachable_ok [OF Cons.prems], of "knAddress e" "knTimestamp e" "knGroupBase e" "knGroupNumber e"] by blast
    moreover have "reachable_nodes kn1" using reachable_nodes.add [OF Cons.prems kn1(1)] .
    ultimately obtain kn' where "ofold (\<lambda>e. AddNode (knAddress e) (knTimestamp e) (knGroupBase e) (knGroupNumber e)) entries kn1 = Ok kn'"
        "reachable_nodes kn'" "dom (map_of kn1) \<subseteq> dom (map_of kn')"
      using Cons.IH [of kn1] by blast
    then show ?case using kn1 by simp
  qed simp
  then obtain kn' where "ofold (\<lambda>e. AddNode (knAddress e) (knTimestamp e) (knGroupBase e) (knGroupNumber e)) entries kn = Ok kn'"
      "reachable_nodes kn'" "dom (map_of kn) \<subseteq> dom (map_of kn')" by blast
  then show ?thesis using Some r r0 assms(2) by (intro exI [of _ True] exI [of _ kn']) (simp add: GetKnownNodes_def)
qed
qed

text \<open>A round of heartbeats enters one reaction time for each node it visits.\<close>

lemma heartbeats_ok:
  assumes "reachable_nodes kn" and "set (map fst es) \<subseteq> dom (map_of kn)" and "distinct (map fst es)"
  shows "\<exists>kn'. ofold (\<lambda>(address, _). UpdateNode address (nanos address)) es kn = Ok kn' \<and> reachable_nodes kn' \<and>
    dom (map_of kn') = dom (map_of kn) \<and>
    (\<forall>a \<in> dom (map_of kn). ring_elems (ReactTime (the (map_of kn' a))) =
      (if a \<in> set (map fst es) then lastn 5 (ring_elems (ReactTime (the (map_of kn a))) @ [Some (nanos a sdiv 1000000)])
       else ring_elems (ReactTime (the (map_of kn a)))))"
  using assms
proof (induction es arbitrary: kn)
  case (Cons e es)
  obtain x n where e: "e = (x, n)" by (cases e)
  obtain node where node: "map_of kn x = Some node" using Cons.prems(2) e by auto
  obtain node' where node': "UpdateNode x (nanos x) kn = Ok (AList.update x node' kn)"
      "ring_elems (ReactTime node') = lastn 5 (ring_elems (ReactTime node) @ [Some (nanos x sdiv 1000000)])"
    using UpdateNode_ok [OF reachable_ok [OF Cons.prems(1)] node] by blast
  let ?kn = "AList.update x node' kn"
  have upd: "map_of ?kn = (map_of kn)(x \<mapsto> node')" by (rule AList.update_conv')
  have "reachable_nodes ?kn" using reachable_nodes.beat [OF Cons.prems(1) _ node'(1)] node by simp
  moreover have "dom (map_of ?kn) = dom (map_of kn)" using node by (auto simp: upd)
  ultimately obtain kn' where kn': "ofold (\<lambda>(address, _). UpdateNode address (nanos address)) es ?kn = Ok kn'" "reachable_nodes kn'"
      "dom (map_of kn') = dom (map_of kn)"
      "\<forall>a \<in> dom (map_of kn). ring_elems (ReactTime (the (map_of kn' a))) =
        (if a \<in> set (map fst es) then lastn 5 (ring_elems (ReactTime (the (map_of ?kn a))) @ [Some (nanos a sdiv 1000000)])
         else ring_elems (ReactTime (the (map_of ?kn a))))"
    using Cons.IH [of ?kn] Cons.prems(2,3) by auto
  have "x \<notin> set (map fst es)" using Cons.prems(3) e by simp
  then show ?case using kn' node node' e by (auto simp: upd)
qed simp

section \<open>Synchronising all groups\<close>

definition served_group :: "('k, 'z) env_scheme \<Rightarrow> int \<Rightarrow> nat \<Rightarrow> int" where
  "served_group E own i = (int i + own) mod MaxGroupNum E"

text \<open>What each \<^verbatim>\<open>Sync\<close> of a round meets: a well-formed chain here and one on the node that answers, with the same first block.\<close>

definition round_ok ::
  "('k, 'z) env_scheme \<Rightarrow> int \<Rightarrow> 'k node \<Rightarrow> (nat \<Rightarrow> 'k node) \<Rightarrow> (nat \<Rightarrow> Block list) \<Rightarrow> (nat \<Rightarrow> Block list) \<Rightarrow> nat \<Rightarrow> bool" where
  "round_ok E own s t mine other i \<longleftrightarrow>
     serves E (served_group E own i) (mine i) s \<and> serves E (served_group E own i) (other i) (t i) \<and> other i \<noteq> [] \<and>
     (mine i = [] \<or> hd (mine i) = hd (other i)) \<and> no_collision E (mine i) (other i)"

lemma served_group_inject:
  assumes "served_group E own i = served_group E own j" and "int i < MaxGroupNum E" and "int j < MaxGroupNum E"
  shows "i = j"
proof -
  have "(int i + own - own) mod MaxGroupNum E = (int j + own - own) mod MaxGroupNum E"
    using assms(1) unfolding served_group_def by (metis mod_diff_left_eq)
  then show ?thesis using assms(2,3) by simp
qed

context node_env
begin

lemma served_group_range: "0 \<le> served_group E own i \<and> served_group E own i < MaxGroupNum E"
  using MaxGroupNum_pos by (simp add: served_group_def)

lemma Sync_mod: "0 \<le> g \<Longrightarrow> Sync E P rnd g st = Sync E P rnd (g mod MaxGroupNum E) st"
  using MaxGroupNum_pos by (cases st) (simp add: Sync_def group_mod_ok)

lemma sync_groups:
  assumes net: "registered N" "reachable_peer E (sorted_nodes N)" and own: "0 \<le> own"
  shows "distinct order \<Longrightarrow> \<forall>i \<in> set order. int i < MaxGroupNum E \<and> round_ok E own s t mine other i \<Longrightarrow>
    \<exists>s'. ofold (\<lambda>i. Sync E (peer_of E (nodes i) (t i)) (rnd i) (int i + own)) order (N, s) = Ok (N, s') \<and>
      (\<forall>i \<in> set order. serves E (served_group E own i) (longer (mine i) (other i)) s') \<and>
      (\<forall>g. g \<notin> served_group E own ` set order \<longrightarrow> (\<forall>bs. serves E g bs s' = serves E g bs s))"
proof (induction order arbitrary: s)
  case (Cons i order)
  let ?g = "served_group E own i" and ?sync = "\<lambda>i. Sync E (peer_of E (nodes i) (t i)) (rnd i) (int i + own)"
  have i: "round_ok E own s t mine other i" "int i < MaxGroupNum E" using Cons.prems(2) by simp_all
  obtain s1 where s1: "?sync i (N, s) = Ok (N, s1)" "serves E ?g (longer (mine i) (other i)) s1" "confined ?g s s1"
  proof -
    have ok: "serves E ?g (mine i) s" "serves E ?g (other i) (t i)" "other i \<noteq> []" "mine i = [] \<or> hd (mine i) = hd (other i)"
        "no_collision E (mine i) (other i)"
      using i(1) by (simp_all add: round_ok_def)
    have "peer_serves E (peer_of E (nodes i) (t i)) ?g (other i)"
      using peer_of_serves [of ?g "other i" "t i"] ok(2) served_group_range [of own i] by (simp add: serves_def)
    from serves_Sync [OF ok(1-4) this ok(5) net, of "rnd i"]
    show thesis using that served_group_range [of own i] own Sync_mod [of "int i + own"] by (auto simp: served_group_def)
  qed
  have apart: "served_group E own j \<noteq> ?g" if "j \<in> set order" for j
    using served_group_inject [of E own j i] Cons.prems that by auto
  then have "\<forall>j \<in> set order. int j < MaxGroupNum E \<and> round_ok E own s1 t mine other j"
    using Cons.prems(2) serves_frame [OF s1(3), of _ E] by (simp add: round_ok_def)
  then obtain s' where s': "ofold ?sync order (N, s1) = Ok (N, s')"
      "\<forall>j \<in> set order. serves E (served_group E own j) (longer (mine j) (other j)) s'"
      "\<forall>g. g \<notin> served_group E own ` set order \<longrightarrow> (\<forall>bs. serves E g bs s' = serves E g bs s1)"
    using Cons.IH [of s1] Cons.prems(1) by auto
  have "serves E ?g (longer (mine i) (other i)) s'" using s'(3) s1(2) apart by (metis imageE)
  moreover have "serves E g bs s' = serves E g bs s" if "g \<notin> served_group E own ` set (i # order)" for g bs
    using that s'(3) serves_frame [OF s1(3), of g E] by auto
  ultimately show ?case using s1(1) s'(1,2) by auto
qed simp

end

section \<open>Properties\<close>

text \<open>
  C22: a round of the goroutine that keeps the node list returns when the requests do, whatever nodes are announced: no node is forgotten, every known node
  gets the time of its heartbeat as its newest reaction time, of which it keeps five, and the list of nodes to call
  names every known address exactly once.
\<close>

theorem maintenance_round_ok:
  assumes "node_env E" and "GetGroup E = Ok own" and "reachable_nodes (known N)"
  shows "\<exists>N' kn. GetKnownNodes E (\<lambda>a. Ok (call a)) (sorted_nodes N) (known N) = Ok kn \<and> maintenance_round E (\<lambda>a. Ok (call a)) nanos rnd N = Ok N' \<and>
    reachable_nodes (known N') \<and> registered N' = registered N \<and>
    dom (map_of (known N)) \<subseteq> dom (map_of (known N')) \<and> dom (map_of (known N')) = dom (map_of (snd kn)) \<and>
    distinct (map posAddress (sorted_nodes N')) \<and> set (map posAddress (sorted_nodes N')) = dom (map_of (known N')) \<and>
    (\<forall>a \<in> dom (map_of (known N')). ring_elems (ReactTime (the (map_of (known N') a))) =
      lastn 5 (ring_elems (ReactTime (the (map_of (snd kn) a))) @ [Some (nanos a sdiv 1000000)]))"
proof -
  have E: "go_ranges E" using assms(1) by (simp add: node_env_def)
  obtain answered kn where kn: "GetKnownNodes E (\<lambda>a. Ok (call a)) (sorted_nodes N) (known N) = Ok (answered, kn)" "reachable_nodes kn"
      "dom (map_of (known N)) \<subseteq> dom (map_of kn)"
    using GetKnownNodes_ok [OF assms(3,2)] by blast
  have m: "mset (map fst (range_map E 7 kn)) = mset (map fst kn)" using go_ranges.mset_range_map [OF E, of 7 kn] by (simp add: mset_map)
  then have set: "set (map fst (range_map E 7 kn)) = dom (map_of kn)"
    by (simp only: mset_eq_setD [OF m]) (simp add: dom_map_of_conv_image_fst)
  have "distinct (map fst kn)" using reachable_ok [OF kn(2)] by (simp add: known_ok_def)
  then have "distinct (map fst (range_map E 7 kn))" using m mset_eq_imp_distinct_iff by blast
  then obtain kn' where kn': "ofold (\<lambda>(address, _). UpdateNode address (nanos address)) (range_map E 7 kn) kn = Ok kn'" "reachable_nodes kn'"
      "dom (map_of kn') = dom (map_of kn)"
      "\<forall>a \<in> dom (map_of kn). ring_elems (ReactTime (the (map_of kn' a))) =
        lastn 5 (ring_elems (ReactTime (the (map_of kn a))) @ [Some (nanos a sdiv 1000000)])"
    using heartbeats_ok [OF kn(2), of "range_map E 7 kn" nanos] set by auto
  obtain ps where ps: "UpdateSortedNodes E rnd kn' = Ok ps" "distinct (map posAddress ps)" "set (map posAddress ps) = dom (map_of kn')"
    using sorted_nodes_complete [OF E kn'(2)] by blast
  have "maintenance_round E (\<lambda>a. Ok (call a)) nanos rnd N = Ok (N\<lparr>known := kn', sorted_nodes := ps\<rparr>)"
    using kn(1) kn'(1) ps(1) by (simp add: maintenance_round_def)
  then show ?thesis using kn kn' ps by (intro exI [of _ "N\<lparr>known := kn', sorted_nodes := ps\<rparr>"] exI [of _ "(answered, kn)"]) simp
qed

text \<open>
  C13: after a round of the goroutine that synchronises, and equally after the command \<^verbatim>\<open>sync\<close>, the node stores for each of its
  groups the longer of its own chain and that of the node that answered for the group, in whatever order the parallel
  synchronisations run; the other groups are as before.
\<close>

theorem sync_round_converges:
  assumes "node_env E" and "GetGroup E = Ok own" and "GroupNum E \<le> MaxGroupNum E" and "registered N"
    and "reachable_peer E (sorted_nodes N)" and "mset order = mset [0..<nat (GroupNum E)]"
    and "\<forall>i < nat (GroupNum E). round_ok E own s t mine other i"
  shows "\<exists>s' s2. sync_round E (\<lambda>i. peer_of E (nodes i) (t i)) rnd order (N, s) = Ok (N, s') \<and>
    SyncCmd E (\<lambda>i. peer_of E (nodes i) (t i)) rnd (N, s) = Ok (N, s2) \<and>
    (\<forall>u \<in> {s', s2}. (\<forall>i < nat (GroupNum E). serves E (served_group E own i) (longer (mine i) (other i)) u) \<and>
      (\<forall>g. g \<notin> served_group E own ` {0..<nat (GroupNum E)} \<longrightarrow> (\<forall>bs. serves E g bs u = serves E g bs s)))"
proof -
  have own: "0 \<le> own" using node_env.GetGroup_range [OF assms(1,2)] by simp
  have run: "\<exists>u. ofold (\<lambda>i. Sync E (peer_of E (nodes i) (t i)) (rnd i) (int i + own)) xs (N, s) = Ok (N, u) \<and>
      (\<forall>i < nat (GroupNum E). serves E (served_group E own i) (longer (mine i) (other i)) u) \<and>
      (\<forall>g. g \<notin> served_group E own ` {0..<nat (GroupNum E)} \<longrightarrow> (\<forall>bs. serves E g bs u = serves E g bs s))"
    if xs: "mset xs = mset [0..<nat (GroupNum E)]" for xs
  proof -
    have "distinct xs" "set xs = {0..<nat (GroupNum E)}" using xs mset_eq_imp_distinct_iff mset_eq_setD by (metis distinct_upt set_upt)+
    then show ?thesis
      using node_env.sync_groups [OF assms(1,4,5) own, of xs s t mine other nodes rnd] assms(3,7) by fastforce
  qed
  obtain s' s2 where "sync_round E (\<lambda>i. peer_of E (nodes i) (t i)) rnd order (N, s) = Ok (N, s')"
      "SyncCmd E (\<lambda>i. peer_of E (nodes i) (t i)) rnd (N, s) = Ok (N, s2)"
      "\<forall>u \<in> {s', s2}. (\<forall>i < nat (GroupNum E). serves E (served_group E own i) (longer (mine i) (other i)) u) \<and>
        (\<forall>g. g \<notin> served_group E own ` {0..<nat (GroupNum E)} \<longrightarrow> (\<forall>bs. serves E g bs u = serves E g bs s))"
    using run [OF assms(6)] run [OF refl] assms(2) by (auto simp: sync_round_def SyncCmd_def add.commute)
  then show ?thesis by blast
qed

subsection \<open>A node and its peer\<close>

theorem maintenance_round_ok_witness:
  "\<exists>kn N'. AddNode [1] 0 0 2 [] = Ok kn \<and>
     maintenance_round ref_env (\<lambda>a. Ok (Some [\<lparr>knAddress = [2], knTimestamp = 5, knGroupBase = 1, knGroupNumber = 1\<rparr>])) (\<lambda>a. 3000000) id
       \<lparr>registered = True, known = kn, sorted_nodes = []\<rparr> = Ok N' \<and>
     set (map posAddress (sorted_nodes N')) = dom (map_of (known N')) \<and> [1] \<in> dom (map_of (known N'))"
proof -
  obtain kn where kn: "AddNode [1] 0 0 2 [] = Ok kn" "reachable_nodes kn" "dom (map_of kn) = {[1]}" using sample_nodes by blast
  let ?N = "\<lparr>registered = True, known = kn, sorted_nodes = []\<rparr>"
  have "reachable_nodes (known ?N)" using kn(2) by simp
  from maintenance_round_ok [OF ref_node.node_env_axioms ref_group this, of
      "\<lambda>a. Some [\<lparr>knAddress = [2], knTimestamp = 5, knGroupBase = 1, knGroupNumber = 1\<rparr>]" "\<lambda>a. 3000000" id]
  show ?thesis using kn(1,3) by auto
qed

theorem sync_round_converges_witness:
  "\<exists>t b s'. serves mirror_env 0 [b] t \<and>
     sync_round mirror_env (\<lambda>i. peer_of mirror_env (\<lambda>_ _. Ok None) t) (\<lambda>_ _. id) [0] (fork_net, fresh_node) = Ok (fork_net, s') \<and>
     serves mirror_env 0 [b] s'"
proof -
  obtain t b where t: "serves mirror_env 0 [b] t" using created_node by blast
  have zero: "served_group mirror_env 0 0 = 0" by (simp add: served_group_def)
  have "round_ok mirror_env 0 fresh_node (\<lambda>_. t) (\<lambda>_. []) (\<lambda>_. [b]) 0"
    using t mirror_node.fresh_serves [of 0] by (simp add: round_ok_def zero no_collision_def)
  moreover have "nat (GroupNum mirror_env) = 1" by (simp add: mirror_env_def)
  ultimately show ?thesis
    using sync_round_converges [OF mirror_node.node_env_axioms mirror_group _ fork_net_ok, of "[0]" fresh_node "\<lambda>_. t" "\<lambda>_. []"
        "\<lambda>_. [b]" "\<lambda>_ _ _. Ok None" "\<lambda>_ _. id"] t
    by (fastforce simp: zero longer_def)
qed

end
