(* ===== verification/Mining_Round.thy ===== *)
theory Mining_Round
  imports Node_Network
begin

text \<open>
  The mining command of \<^verbatim>\<open>commands/mining.go\<close> and \<^verbatim>\<open>CallSelfBlock\<close> of \<^verbatim>\<open>api/db.go\<close>: a round takes transactions from the pools, mines a batch of
  blocks, hands them to the node's own handler and relays their transactions to other groups.
\<close>

section \<open>A round of mining\<close>

text \<open>
  The first loop of a round: for each group a coinbase transaction, with random data \<open>rnd i\<close>, and what the pool of the group offers.
\<close>

fun mining_txns ::
  "('k, 'z) env_scheme \<Rightarrow> (nat \<Rightarrow> bytes) \<Rightarrow> int \<Rightarrow> nat \<Rightarrow> nat \<Rightarrow> 'k node \<Rightarrow> (Transaction list list \<times> 'k node) outcome" where
  "mining_txns E rnd g i 0 s = Ok ([], s)"
| "mining_txns E rnd g i (Suc n) s =
     obind (NewCoinbaseTxn (rnd i) (Address E)) (\<lambda>coinbase.
     obind (mempool_GetTxns E (g + int i) s) (\<lambda>(ts, s).
     obind (mining_txns E rnd g (Suc i) n s) (\<lambda>(txns, s). Ok ((coinbase # ts) # txns, s))))"

text \<open>
  \<^verbatim>\<open>CallSelfBlock\<close> hands a block to the node's own handler, over the loopback address \<open>self\<close>, and gossips its header. No route of the server
  has a segment \<^verbatim>\<open>:address\<close>, so the handler excepts the empty address. A panic of the handler, which the web server recovers from, is reported
  as \<open>Panic\<close> of the round.
\<close>

definition CallSelfBlock ::
  "('k, 'z) env_scheme \<Rightarrow> peers \<Rightarrow> (nat \<Rightarrow> nat \<Rightarrow> nat) \<Rightarrow> bytes \<Rightarrow> Block \<Rightarrow> message list \<times> net \<times> 'k node \<Rightarrow>
   (message list \<times> net \<times> 'k node) outcome" where
  "CallSelfBlock E P rnd self b = (\<lambda>(msgs, st).
     obind (handle_GossipBlock E P rnd b self [] st) (\<lambda>(sent, st).
       Ok (msgs @ sent @ [MGossipBlockHead (b\<lparr>Txns := []\<rparr>) self], st)))"

definition mining_round ::
  "('k, 'z) env_scheme \<Rightarrow> 'k miner \<Rightarrow> (nat \<Rightarrow> bytes) \<Rightarrow> peers \<Rightarrow> (nat \<Rightarrow> nat \<Rightarrow> nat) \<Rightarrow> bytes \<Rightarrow> net \<times> 'k node \<Rightarrow>
   ((mine_error + Block list) \<times> message list \<times> net \<times> 'k node) outcome" where
  "mining_round E M coins P rnd self = (\<lambda>(N, s).
     obind (GetGroup E) (\<lambda>group.
     obind (mining_txns E coins group 0 (nat (GroupNum E)) s) (\<lambda>(txns, s).
     obind (MineBlocks E M txns group (GroupNum E) s) (\<lambda>(r, s).
       case r of Inl err \<Rightarrow> Ok (Inl err, [], N, s)
       | Inr newBlocks \<Rightarrow>
           obind (ofold (CallSelfBlock E P rnd self) newBlocks ([], N, s)) (\<lambda>(msgs, N, s). Ok (Inr newBlocks, msgs, N, s))))))"

text \<open>
  The goroutine that a round starts: every transaction is relayed to the other groups that its outputs pay to. The set of groups
  is a Go map.
\<close>

fun out_groups :: "('k, 'z) env_scheme \<Rightarrow> TxnOutput list \<Rightarrow> int list \<Rightarrow> int list outcome" where
  "out_groups E [] groups = Ok groups"
| "out_groups E (out # outs) groups =
     obind (GetGroupByPubKeyHash (MaxGroupNum E) (PubKeyHash out)) (\<lambda>g. out_groups E outs (List.insert g groups))"

fun relay_txns ::
  "('k, 'z) env_scheme \<Rightarrow> bytes \<Rightarrow> MerkleNode \<Rightarrow> Block \<Rightarrow> nat \<Rightarrow> Transaction list \<Rightarrow> message list outcome" where
  "relay_txns E self tree b i [] = Ok []"
| "relay_txns E self tree b i (txn # txns) =
     obind (FindPath tree (int i)) (\<lambda>path.
     obind (out_groups E (Vout txn) []) (\<lambda>groups.
     obind (GetGroup E) (\<lambda>own.
     obind (relay_txns E self tree b (Suc i) txns) (\<lambda>rest.
       Ok (map (\<lambda>g. MGossipRelayTxn own g (Height b) path txn self) (range_map E 8 (removeAll own groups)) @ rest)))))"

fun relay_messages :: "('k, 'z) env_scheme \<Rightarrow> bytes \<Rightarrow> Block list \<Rightarrow> message list outcome" where
  "relay_messages E self [] = Ok []"
| "relay_messages E self (b # blocks) =
     obind (NewTxnMerkleTree E (Txns b)) (\<lambda>tree.
     obind (relay_txns E self tree b 0 (Txns b)) (\<lambda>msgs.
     obind (relay_messages E self blocks) (\<lambda>rest. Ok (msgs @ rest))))"

section \<open>A round extends the chain\<close>

lemma next_target_dbs: "node_dbs s' = node_dbs s \<Longrightarrow> next_target E g b s' = next_target E g b s"
  by (simp add: next_target_def GetBlockByHeight_def block_at_def node_Get_def)

context node_env
begin

lemma GossipBlock_serves:
  assumes "serves E g bs s" and "bs \<noteq> []" and "continues E g bs b" and "named_inputs b" and "0 \<le> g" and "g < MaxGroupNum E"
    and "own_groups E g = Ok True"
  shows "\<exists>s'. handle_GossipBlock E P rnd b caller excepted (N, s) = Ok ([MGossipBlock b excepted], N, s') \<and> serves E g (bs @ [b]) s' \<and>
    confined g s s'"
proof -
  have chain: "chain_ok E g bs s" and b: "Group b = g" "Height b = int (length bs)" "length bs < 2 ^ 24" "PrevHash b = tip_hash E [] bs"
    using assms(1,3) by (auto simp: continues_def serves_def)
  obtain s1 s2 where s2: "AddBlock E g (Some b) s = Ok s1" "Update E \<lparr>set_bc = g, set_group = g\<rparr> b s1 = Ok s2"
      "serves E g (bs @ [b]) s2" "confined g s s2"
    using serves_append [OF assms(1-6)] by blast
  have "block_stored E g (last bs) s" using chain assms(2) unfolding chain_ok_def by simp
  then obtain h where h: "Block_Hash E (last bs) = Ok h" by (auto simp: block_stored_def)
  have "HashValue_Equal (PrevHash b) h" using tip_hash_last [OF assms(2) h, of "[]"] b(4) by (simp add: HashValue_Equal_def)
  moreover have "GetBlockchain E g = Ok g" by (rule own_group [OF assms(5,6)])
  moreover have "Height (last bs) = int (length bs) - 1" by (rule last_Height [OF chain assms(2)])
  moreover have "i32 (int (length bs)) = int (length bs)" using b(3) by (simp add: i32_id)
  ultimately show ?thesis
    using assms(2,7) b s2 h GetLastest_chain [OF chain] by (simp add: handle_GossipBlock_def GetUTXOSet_def Let_def)
qed

lemma own_first_group:
  assumes "GetGroup E = Ok g" and "0 < GroupNum E"
  shows "own_groups E g = Ok True"
  using assms GetGroup_range [OF assms(1)] by (auto simp: own_groups_def InGroup_def in_range_def)

lemma serves_pool:
  assumes "serves E g bs s" and "pool_ok E m"
  shows "serves E g bs (s\<lparr>mempools := (mempools s)(g := m)\<rparr>)"
  using assms by (simp add: serves_def chain_ok_def store_ok_def block_stored_def lastest_stored_def heads_ok_def set_ok_def
      buckets_made_def heads_fresh_def)

lemma mining_txns_one:
  assumes "serves E g bs s" and "0 \<le> g" and "g < MaxGroupNum E" and "NewCoinbaseTxn (rnd 0) (Address E) = Ok coinbase"
    and "fst (GetTxns E (mempools s g)) = ts"
  shows "\<exists>s'. mining_txns E rnd g 0 1 s = Ok ([coinbase # ts], s') \<and> serves E g bs s' \<and> node_dbs s' = node_dbs s"
proof -
  obtain m where m: "GetTxns E (mempools s g) = (ts, m)" using assms(5) by (cases "GetTxns E (mempools s g)") simp
  have "pool_ok E m" using assms(1) by (intro GetTxns_valid [OF _ m]) (simp add: serves_def store_ok_def)
  then show ?thesis
    using assms(2-4) m serves_pool [OF assms(1), of m] by (simp add: mempool_GetTxns_def with_mempool_def group_mod_ok)
qed

lemma mining_round_ok:
  assumes g: "GetGroup E = Ok g" "GroupNum E = 1"
    and s: "serves E g bs s" "bs \<noteq> []" "length bs < 2 ^ 24"
    and world: "\<And>i t. serves E g bs t \<Longrightarrow> serves E g bs (mine_world M i t)"
    and txns: "NewCoinbaseTxn (coins 0) (Address E) = Ok coinbase" "fst (GetTxns E (mempools s g)) = ts" "NewTxnMerkleTree E (coinbase # ts) = Ok tree"
    and target: "next_target E g (last bs) s = Ok (Fin q)"
    and b: "b = next_block E M g bs (coinbase # ts) (mData tree) q" "mineable b"
    and n: "mine_rnd M \<le> n" "n < MaxInt64" "Block_Verify E (b\<lparr>Nonce := n\<rparr>) = Ok True" "pause_every (mine_speed M) \<noteq> 0"
    and fresh: "\<And>n b'. b' \<in> set bs \<Longrightarrow> Block_Hash E b' \<noteq> Block_Hash E (b\<lparr>Nonce := n\<rparr>)" and named: "named_inputs b"
  shows "\<exists>n' s'. mining_round E M coins P rnd self (N, s) =
      Ok (Inr [b\<lparr>Nonce := n'\<rparr>], [MGossipBlock (b\<lparr>Nonce := n'\<rparr>) [], MGossipBlockHead (b\<lparr>Nonce := n', Txns := []\<rparr>) self], N, s') \<and>
    Block_Verify E (b\<lparr>Nonce := n'\<rparr>) = Ok True \<and> serves E g (bs @ [b\<lparr>Nonce := n'\<rparr>]) s'"
proof -
  have range: "0 \<le> g" "g < MaxGroupNum E" using GetGroup_range [OF g(1)] by simp_all
  obtain s1 where s1: "mining_txns E coins g 0 1 s = Ok ([coinbase # ts], s1)" "serves E g bs s1" "node_dbs s1 = node_dbs s"
    using mining_txns_one [where rnd = coins, OF s(1) range txns(1,2)] by blast
  have kept: "ready E g bs t" if "serves E g bs t" for t using that by (simp add: serves_def ready_def store_ok_def)
  have "make_blocks E M [coinbase # ts] g 1 0 1 s1 = Ok (Inr [b]) \<and>
    (\<exists>n' s'. MineBlocks E M [coinbase # ts] g 1 s1 = Ok (Inr [b\<lparr>Nonce := n'\<rparr>], s') \<and> Block_Verify E (b\<lparr>Nonce := n'\<rparr>) = Ok True \<and>
      serves E g bs s')"
    by (rule mine_one_kept [where kept = "serves E g bs", OF s1(2) _ _ s(2,3) range world txns(3) _ b n])
      (auto simp: next_target_dbs [OF s1(3)] target intro: kept serves_GetHeight(1))
  then obtain n' s2 where s2: "MineBlocks E M [coinbase # ts] g 1 s1 = Ok (Inr [b\<lparr>Nonce := n'\<rparr>], s2)"
      "Block_Verify E (b\<lparr>Nonce := n'\<rparr>) = Ok True" "serves E g bs s2"
    by blast
  let ?b = "b\<lparr>Nonce := n'\<rparr>"
  have "continues E g bs ?b" using b fresh s(3) by (auto simp: continues_def next_block_def mineable_def)
  moreover have "named_inputs ?b" using named by (simp add: named_inputs_def)
  ultimately obtain s3 where s3: "handle_GossipBlock E P rnd ?b self [] (N, s2) = Ok ([MGossipBlock ?b []], N, s3)" "serves E g (bs @ [?b]) s3"
    using GossipBlock_serves [OF s2(3) s(2) _ _ range, of ?b] own_first_group [OF g(1)] g(2) by force
  have "mining_round E M coins P rnd self (N, s) =
      Ok (Inr [?b], [MGossipBlock ?b [], MGossipBlockHead (b\<lparr>Nonce := n', Txns := []\<rparr>) self], N, s3)"
    using g s1(1) s2(1) s3(1) by (simp add: mining_round_def CallSelfBlock_def del: mining_txns.simps)
  then show ?thesis using s2(2) s3(2) by blast
qed

end

section \<open>Relaying\<close>

text \<open>Every inner node that covers more than one leaf has two children, so the search for a path never meets a missing node.\<close>

fun full_node :: "MerkleNode \<Rightarrow> bool" where
  "full_node (MerkleNode l r left right d) \<longleftrightarrow>
     l = r \<or> (case left of None \<Rightarrow> False | Some x \<Rightarrow> full_node x) \<and> (case right of None \<Rightarrow> False | Some y \<Rightarrow> full_node y)"

lemma path_nodes_full: "full_node t \<Longrightarrow> \<exists>ns. path_nodes index t = Ok ns \<and> (\<forall>n \<in> set ns. mLeft n \<noteq> None \<and> mRight n \<noteq> None)"
proof (induction index t rule: path_nodes.induct)
  case (1 index l r left right d)
  then show ?case by (auto split: option.splits) 
qed

lemma FindPath_full:
  assumes "full_node t"
  shows "\<exists>path. FindPath t index = Ok path"
proof -
  obtain ns where ns: "path_nodes index t = Ok ns" "\<forall>n \<in> set ns. mLeft n \<noteq> None \<and> mRight n \<noteq> None" using path_nodes_full [OF assms] by blast
  have "\<exists>path. ofold (\<lambda>node ret. obind (path_entry index node) (\<lambda>entry. Ok (ret @ entry))) xs ret = Ok path"
    if "\<forall>n \<in> set xs. mLeft n \<noteq> None \<and> mRight n \<noteq> None" for xs ret
    using that by (induction xs arbitrary: ret) (auto simp: path_entry_def)
  then show ?thesis using ns by (simp add: FindPath_def)
qed

lemma pair_up_full: "\<forall>n \<in> set ns. full_node n \<Longrightarrow> \<forall>n \<in> set (pair_up sha ns). full_node n"
  by (induction sha ns rule: pair_up.induct) (auto simp: mnode_def)

lemma merkle_loop_full: "\<forall>n \<in> set ns. full_node n \<Longrightarrow> merkle_loop sha ns = Ok t \<Longrightarrow> full_node t"
proof (induction sha ns rule: merkle_loop.induct)
  case (1 sha ns)
  then show ?case using pair_up_full [of ns sha] by (cases "length ns \<le> 1") (auto simp: merkle_loop.simps [of sha ns] oindex_def split: if_splits)
qed

lemma NewTxnMerkleTree_full: "NewTxnMerkleTree E ts = Ok t \<Longrightarrow> full_node t"
proof -
  assume t: "NewTxnMerkleTree E ts = Ok t"
  have "\<forall>n \<in> set (leaves_from sha i ds). full_node n" for sha i ds
    by (induction sha i ds rule: leaves_from.induct) (auto simp: mleaf_def)
  then show ?thesis
    using t merkle_loop_full [of "leaves_from (sha256 E) 0 (map (marshal_txn E) ts)" "sha256 E" t]
    by (simp add: NewTxnMerkleTree_def NewMerkleTree_def split: if_splits)
qed

context node_env
begin

lemma GetGroupByPubKeyHash_ok:
  "h \<noteq> [] \<Longrightarrow> GetGroupByPubKeyHash (MaxGroupNum E) h = Ok (int (unat (hd h)) mod MaxGroupNum E)"
  using MaxGroupNum_pos by (cases h) (simp_all add: GetGroupByPubKeyHash_def oindex_def)

lemma out_groups_ok:
  assumes "\<forall>out \<in> set outs. PubKeyHash out \<noteq> []"
  shows "\<exists>gs. out_groups E outs groups = Ok gs \<and>
    set gs = set groups \<union> {g. \<exists>out \<in> set outs. GetGroupByPubKeyHash (MaxGroupNum E) (PubKeyHash out) = Ok g}"
  using assms
proof (induction outs arbitrary: groups)
  case (Cons out outs)
  obtain g where g: "GetGroupByPubKeyHash (MaxGroupNum E) (PubKeyHash out) = Ok g" using GetGroupByPubKeyHash_ok Cons.prems by auto
  then show ?case using Cons.IH [of "List.insert g groups"] Cons.prems by auto
qed simp

text \<open>The messages that relay transaction \<open>j\<close> of a block.\<close>

lemma relay_txns_ok:
  assumes own: "GetGroup E = Ok own" and tree: "full_node tree"
  shows "\<forall>txn \<in> set txns. \<forall>out \<in> set (Vout txn). PubKeyHash out \<noteq> [] \<Longrightarrow>
    \<exists>msgs. relay_txns E self tree b i txns = Ok msgs \<and>
      (\<forall>m. m \<in> set msgs \<longleftrightarrow> (\<exists>j < length txns. \<exists>g path. m = MGossipRelayTxn own g (Height b) path (txns ! j) self \<and> g \<noteq> own \<and>
        FindPath tree (int (i + j)) = Ok path \<and> (\<exists>out \<in> set (Vout (txns ! j)). GetGroupByPubKeyHash (MaxGroupNum E) (PubKeyHash out) = Ok g)))"
proof (induction txns arbitrary: i)
  case (Cons txn txns)
  obtain path where path: "FindPath tree (int i) = Ok path" using FindPath_full [OF tree] by blast
  obtain gs where gs: "out_groups E (Vout txn) [] = Ok gs"
      "set gs = {g. \<exists>out \<in> set (Vout txn). GetGroupByPubKeyHash (MaxGroupNum E) (PubKeyHash out) = Ok g}"
    using out_groups_ok [of "Vout txn" "[]"] Cons.prems by auto
  obtain msgs where msgs: "relay_txns E self tree b (Suc i) txns = Ok msgs"
      "\<And>m. m \<in> set msgs \<longleftrightarrow> (\<exists>j < length txns. \<exists>g path. m = MGossipRelayTxn own g (Height b) path (txns ! j) self \<and> g \<noteq> own \<and>
        FindPath tree (int (Suc i + j)) = Ok path \<and> (\<exists>out \<in> set (Vout (txns ! j)). GetGroupByPubKeyHash (MaxGroupNum E) (PubKeyHash out) = Ok g))"
    using Cons.IH [of "Suc i"] Cons.prems by auto
  have range: "set (range_map E 8 (removeAll own gs)) = set gs - {own}"
    using arg_cong [OF mset_range_map [of 8 "removeAll own gs"], of set_mset] by simp
  let ?mine = "map (\<lambda>g. MGossipRelayTxn own g (Height b) path txn self) (range_map E 8 (removeAll own gs))"
  have "m \<in> set (?mine @ msgs) \<longleftrightarrow> (\<exists>j < length (txn # txns). \<exists>g path. m = MGossipRelayTxn own g (Height b) path ((txn # txns) ! j) self \<and>
      g \<noteq> own \<and> FindPath tree (int (i + j)) = Ok path \<and>
      (\<exists>out \<in> set (Vout ((txn # txns) ! j)). GetGroupByPubKeyHash (MaxGroupNum E) (PubKeyHash out) = Ok g))" for m
    unfolding set_append Un_iff msgs(2) set_map range gs(2) list.size(4) add_Suc_right add_0_right Ex_less_Suc2 by (auto simp: path)
  then show ?case using path gs(1) own msgs(1) by auto
qed simp

end

section \<open>Properties\<close>

text \<open>
  C7: a round of the mining command makes progress on a node that mines for one group, the default of the flag \<^verbatim>\<open>--group\<close>. On a
  chain that is not empty, when some nonce gives a block that verifies
  and the rest of the node leaves the chain alone during the search, the round ends with exactly one new block: it holds a coinbase transaction for
  the node's address and then the transactions that \<^verbatim>\<open>GetTxns\<close> offers, it verifies, the node stores the chain extended by it, and the
  block and its header are gossiped. Assumed of the new block are a hash that no stored block has, a difficulty
  of at least 1, and inputs that name a transaction.
\<close>

theorem mining_round_extends:
  assumes "node_env E" and "GetGroup E = Ok g" and "GroupNum E = 1"
    and "serves E g bs s" and "bs \<noteq> []" and "length bs < 2 ^ 24"
    and "\<And>i t. serves E g bs t \<Longrightarrow> serves E g bs (mine_world M i t)"
    and "NewCoinbaseTxn (coins 0) (Address E) = Ok coinbase" and "fst (GetTxns E (mempools s g)) = ts"
    and "NewTxnMerkleTree E (coinbase # ts) = Ok tree" and "next_target E g (last bs) s = Ok (Fin q)"
    and "b = next_block E M g bs (coinbase # ts) (mData tree) q" and "1 \<le> q" and "q \<le> (2 ^ 53 - 1) * 2 ^ 971"
    and "mine_rnd M \<le> n" and "n < MaxInt64" and "Block_Verify E (b\<lparr>Nonce := n\<rparr>) = Ok True" and "pause_every (mine_speed M) \<noteq> 0"
    and "\<And>n b'. b' \<in> set bs \<Longrightarrow> Block_Hash E b' \<noteq> Block_Hash E (b\<lparr>Nonce := n\<rparr>)" and "named_inputs b"
  shows "\<exists>b' s'. mining_round E M coins P rnd self (N, s) =
      Ok (Inr [b'], [MGossipBlock b' [], MGossipBlockHead (b'\<lparr>Txns := []\<rparr>) self], N, s') \<and>
    Txns b' = coinbase # ts \<and> Height b' = int (length bs) \<and> Block_Verify E b' = Ok True \<and> serves E g (bs @ [b']) s'"
proof -
  have "mineable b" using assms(12-14) by (simp add: next_block_def mineable_def)
  from node_env.mining_round_ok [where coins = coins, OF assms(1-12) this assms(15-20), of P rnd self N]
  obtain n' s' where "mining_round E M coins P rnd self (N, s) =
      Ok (Inr [b\<lparr>Nonce := n'\<rparr>], [MGossipBlock (b\<lparr>Nonce := n'\<rparr>) [], MGossipBlockHead (b\<lparr>Nonce := n', Txns := []\<rparr>) self], N, s')"
      "Block_Verify E (b\<lparr>Nonce := n'\<rparr>) = Ok True" "serves E g (bs @ [b\<lparr>Nonce := n'\<rparr>]) s'"
    by blast
  then show ?thesis using assms(12) by (intro exI [of _ "b\<lparr>Nonce := n'\<rparr>"] exI [of _ s']) (simp add: next_block_def)
qed

text \<open>
  C32: the goroutine that relays the transactions of a mined block ends when every output has a hash, and sends exactly these messages: every
  transaction to every other group that one of its outputs pays to, with the path that \<^verbatim>\<open>FindPath\<close> gives. In a block of
  \<open>2 ^ k\<close> transactions the path of every even-numbered transaction and of the last one passes the check of the receiver.
\<close>

theorem relay_messages_exact:
  assumes "node_env E" and "GetGroup E = Ok own" and "Txns b \<noteq> []" and "\<forall>txn \<in> set (Txns b). \<forall>out \<in> set (Vout txn). PubKeyHash out \<noteq> []"
    and "NewTxnMerkleTree E (Txns b) = Ok tree" and "MerkleRoot b = mData tree"
  shows "\<exists>msgs. relay_messages E self [b] = Ok msgs \<and>
    (\<forall>m. m \<in> set msgs \<longleftrightarrow> (\<exists>i < length (Txns b). \<exists>g path. m = MGossipRelayTxn own g (Height b) path (Txns b ! i) self \<and> g \<noteq> own \<and>
      FindPath tree (int i) = Ok path \<and> (\<exists>out \<in> set (Vout (Txns b ! i)). GetGroupByPubKeyHash (MaxGroupNum E) (PubKeyHash out) = Ok g))) \<and>
    (\<forall>k i. length (Txns b) = 2 ^ k \<and> i < length (Txns b) \<and> (even i \<or> i = length (Txns b) - 1) \<longrightarrow>
      (\<exists>path. FindPath tree (int i) = Ok path \<and> RelayVerify E (Txns b ! i) (MerkleRoot b) path))"
proof -
  from node_env.relay_txns_ok [OF assms(1,2) NewTxnMerkleTree_full [OF assms(5)] assms(4), of self b 0, unfolded add_0]
  obtain msgs where msgs: "relay_txns E self tree b 0 (Txns b) = Ok msgs"
      "\<forall>m. m \<in> set msgs \<longleftrightarrow> (\<exists>i < length (Txns b). \<exists>g path. m = MGossipRelayTxn own g (Height b) path (Txns b ! i) self \<and> g \<noteq> own \<and>
        FindPath tree (int i) = Ok path \<and> (\<exists>out \<in> set (Vout (Txns b ! i)). GetGroupByPubKeyHash (MaxGroupNum E) (PubKeyHash out) = Ok g))"
    by (elim exE conjE) (rule that)
  have path: "\<exists>path. FindPath tree (int i) = Ok path \<and> RelayVerify E (Txns b ! i) (MerkleRoot b) path"
    if "length (Txns b) = 2 ^ k \<and> i < length (Txns b) \<and> (even i \<or> i = length (Txns b) - 1)" for k i
    using relay_path_verifies [of "Txns b" k i E] that assms(5,6) by auto
  show ?thesis
  proof (rule exI [of _ msgs], intro conjI allI impI)
    show "relay_messages E self [b] = Ok msgs" using assms(5) msgs(1) by simp
  qed (rule msgs(2) [rule_format], erule path)
qed

subsection \<open>A miner\<close>

lemma plain_group: "GetGroup plain_env = Ok 0"
  using ref_group by (simp add: GetGroup_def)

lemma sample_miner_state:
  "\<exists>s. serves plain_env 0 [sample_genesis] s \<and> mempools s = (\<lambda>_. []) \<and> next_target plain_env 0 sample_genesis s = Ok (Fin 1)"
proof -
  have "continues plain_env 0 [] sample_genesis" "named_inputs sample_genesis" "Block_Verify plain_env sample_genesis = Ok True"
    using plain_node.easy_block_verifies by (simp_all add: continues_def sample_genesis_def named_inputs_def sample_parent_def)
  then obtain s where s: "serves plain_env 0 [sample_genesis] s"
    using plain_node.serves_first [OF plain_node.fresh_serves, of 0 sample_genesis] by auto
  let ?s = "s\<lparr>mempools := (\<lambda>_. [])\<rparr>"
  have "serves plain_env 0 [sample_genesis] (s\<lparr>mempools := (mempools s)(0 := [])\<rparr>)"
    by (rule plain_node.serves_pool [OF s]) (simp add: pool_ok_def)
  moreover have "serves plain_env 0 [sample_genesis] ?s = serves plain_env 0 [sample_genesis] (s\<lparr>mempools := (mempools s)(0 := [])\<rparr>)"
    by (simp add: serves_def chain_ok_def store_ok_def block_stored_def lastest_stored_def heads_ok_def set_ok_def buckets_made_def)
  ultimately have serves: "serves plain_env 0 [sample_genesis] ?s" by simp
  have "GetBlockByHeight plain_env 0 (-29) ?s = Ok None"
    unfolding key_of_negative using plain_node.chain_no_block_at [of 0 "[sample_genesis]" ?s 227] serves by (simp add: serves_def)
  then have "next_target plain_env 0 sample_genesis ?s = Ok (Fin 1)" by (simp add: next_target_def sample_genesis_def i32_id)
  with serves show ?thesis by (intro exI [of _ ?s]) simp
qed

text \<open>What the next round of the quiet miner meets there.\<close>

lemma sample_round:
  obtains s coinbase tree b where "serves plain_env 0 [sample_genesis] s" "mempools s = (\<lambda>_. [])"
    "NewCoinbaseTxn [1] (Address plain_env) = Ok coinbase" "fst (GetTxns plain_env (mempools s 0)) = []"
    "NewTxnMerkleTree plain_env [coinbase] = Ok tree" "next_target plain_env 0 (last [sample_genesis]) s = Ok (Fin 1)"
    "b = next_block plain_env quiet_miner 0 [sample_genesis] [coinbase] (mData tree) 1" "Block_Verify plain_env (b\<lparr>Nonce := 5\<rparr>) = Ok True"
    "\<forall>n. Block_Hash plain_env sample_genesis \<noteq> Block_Hash plain_env (b\<lparr>Nonce := n\<rparr>)" "named_inputs b"
proof -
  obtain s where s: "serves plain_env 0 [sample_genesis] s" "mempools s = (\<lambda>_. [])"
      "next_target plain_env 0 (last [sample_genesis]) s = Ok (Fin 1)"
    using sample_miner_state by auto
  obtain coinbase where coinbase: "NewCoinbaseTxn [1] (Address plain_env) = Ok coinbase" "IsCoinbase coinbase"
    using zero_address by (simp add: NewCoinbaseTxn_def NewTxnOutput_def IsCoinbase_def)
  have ts: "fst (GetTxns plain_env (mempools s 0)) = []"
    using plain_node.GetTxns_list(1) [of "[]"] plain_node.GetTxns_pool [of "[]"] by (cases "GetTxns plain_env []") (simp add: s(2) pool_ok_def)
  obtain tree where tree: "NewTxnMerkleTree plain_env [coinbase] = Ok tree" using sample_tree by blast
  define b where "b = next_block plain_env quiet_miner 0 [sample_genesis] [coinbase] (mData tree) 1"
  have verify: "Block_Verify plain_env (b\<lparr>Nonce := 5\<rparr>) = Ok True"
    by (rule plain_node.easy_block_verifies) (simp add: b_def next_block_def)
  have "Block_Hash plain_env sample_genesis \<noteq> Block_Hash plain_env (b\<lparr>Nonce := n\<rparr>)" for n
    using plain_block_hash [of sample_genesis 1] plain_block_hash [of "b\<lparr>Nonce := n\<rparr>" 1]
    by (auto simp: b_def next_block_def sample_genesis_def enc_int_def enc_nat_def to_digits.simps enc_digit_def)
  moreover have "named_inputs b" using coinbase(2) by (simp add: b_def next_block_def named_inputs_def)
  ultimately show thesis using that [OF s(1,2) coinbase(1) ts tree s(3) b_def verify] by simp
qed

lemma quiet_miner_facts:
  "mine_world quiet_miner i t = t" "mine_rnd quiet_miner = 5" "mine_now quiet_miner j = 7" "pause_every (mine_speed quiet_miner) \<noteq> 0"
  by (simp_all add: quiet_miner_def pause_every_def i64_id)

theorem mining_round_extends_witness:
  "\<exists>P rnd s N b s'. serves plain_env 0 [sample_genesis] s \<and>
     mining_round plain_env quiet_miner (\<lambda>_. [1]) P rnd [7] (N, s) = Ok (Inr [b], [MGossipBlock b [], MGossipBlockHead (b\<lparr>Txns := []\<rparr>) [7]], N, s') \<and>
     serves plain_env 0 [sample_genesis, b] s'"
proof -
  obtain s coinbase tree b where r: "serves plain_env 0 [sample_genesis] s" "mempools s = (\<lambda>_. [])"
    "NewCoinbaseTxn [1] (Address plain_env) = Ok coinbase" "fst (GetTxns plain_env (mempools s 0)) = []"
    "NewTxnMerkleTree plain_env [coinbase] = Ok tree" "next_target plain_env 0 (last [sample_genesis]) s = Ok (Fin 1)"
    "b = next_block plain_env quiet_miner 0 [sample_genesis] [coinbase] (mData tree) 1" "Block_Verify plain_env (b\<lparr>Nonce := 5\<rparr>) = Ok True"
    "\<forall>n. Block_Hash plain_env sample_genesis \<noteq> Block_Hash plain_env (b\<lparr>Nonce := n\<rparr>)" "named_inputs b"
    by (rule sample_round)
  show ?thesis
    using mining_round_extends [OF plain_node.node_env_axioms plain_group _ r(1) _ _ _ _ r(4-7), of "\<lambda>_. [1]" 5 P rnd "[7]"] r(1,3,8-10)
    by (fastforce simp: quiet_miner_facts MaxInt64_def)
qed

definition relayed_txn :: Transaction where
  "relayed_txn = \<lparr>Vin = [], Vout = [\<lparr>Value = 5, PubKeyHash = [1]\<rparr>]\<rparr>"

theorem relay_messages_exact_witness:
  "\<exists>tree msgs. NewTxnMerkleTree plain_env [relayed_txn] = Ok tree \<and>
     relay_messages plain_env [7] [sample_genesis\<lparr>Txns := [relayed_txn], MerkleRoot := mData tree\<rparr>] = Ok msgs \<and>
     MGossipRelayTxn 0 1 0 [] relayed_txn [7] \<in> set msgs \<and> RelayVerify plain_env relayed_txn (mData tree) []"
proof -
  define tree where "tree = mleaf (sha256 plain_env) 0 (marshal_txn plain_env relayed_txn)"
  have tree: "NewTxnMerkleTree plain_env [relayed_txn] = Ok tree" "FindPath tree i = Ok []" for i
    by (simp_all add: tree_def NewTxnMerkleTree_def NewMerkleTree_eq)
  let ?b = "sample_genesis\<lparr>Txns := [relayed_txn], MerkleRoot := mData tree\<rparr>"
  have b: "Txns ?b \<noteq> []" "\<forall>txn \<in> set (Txns ?b). \<forall>out \<in> set (Vout txn). PubKeyHash out \<noteq> []" "NewTxnMerkleTree plain_env (Txns ?b) = Ok tree"
      "MerkleRoot ?b = mData tree" "Height ?b = 0" "length (Txns ?b) = 2 ^ 0"
    using tree(1) by (simp_all add: relayed_txn_def sample_genesis_def)
  have "GetGroupByPubKeyHash (MaxGroupNum plain_env) [1] = Ok 1" by (simp add: GetGroupByPubKeyHash_def oindex_def)
  then have "\<exists>out \<in> set (Vout (Txns ?b ! 0)). GetGroupByPubKeyHash (MaxGroupNum plain_env) (PubKeyHash out) = Ok 1" by (simp add: relayed_txn_def)
  moreover obtain msgs where msgs: "relay_messages plain_env [7] [?b] = Ok msgs"
      "\<forall>m. m \<in> set msgs \<longleftrightarrow> (\<exists>i < length (Txns ?b). \<exists>g path. m = MGossipRelayTxn 0 g (Height ?b) path (Txns ?b ! i) [7] \<and> g \<noteq> 0 \<and>
        FindPath tree (int i) = Ok path \<and> (\<exists>out \<in> set (Vout (Txns ?b ! i)). GetGroupByPubKeyHash (MaxGroupNum plain_env) (PubKeyHash out) = Ok g))"
      "\<forall>k i. length (Txns ?b) = 2 ^ k \<and> i < length (Txns ?b) \<and> (even i \<or> i = length (Txns ?b) - 1) \<longrightarrow>
        (\<exists>path. FindPath tree (int i) = Ok path \<and> RelayVerify plain_env (Txns ?b ! i) (MerkleRoot ?b) path)"
    using relay_messages_exact [OF plain_node.node_env_axioms plain_group b(1-4), of "[7]"] by (elim exE conjE) (rule that)
  ultimately have "MGossipRelayTxn 0 1 0 [] relayed_txn [7] \<in> set msgs" unfolding msgs(2) [rule_format] using b(5) tree(2) by auto
  moreover have "RelayVerify plain_env relayed_txn (mData tree) []" using msgs(3) [rule_format, of 0 0] tree(2) by auto
  ultimately show ?thesis using tree(1) msgs(1) by blast
qed

end
