(* ===== verification/Txn_Creation.thy ===== *)
theory Txn_Creation
  imports UTXO_Set
begin

text \<open>
  What \<^verbatim>\<open>CreateTransaction\<close> of \<^verbatim>\<open>core/utxo_set.go\<close> makes: the outputs that \<^verbatim>\<open>findUTXOs\<close> collects pay for the
  transaction, and the rest goes back to the sender.
\<close>

section \<open>Balance of a new transaction\<close>

definition found_sum :: "(bytes \<times> (int \<times> int) list) list \<Rightarrow> int" where
  "found_sum m = sum_list (map (\<lambda>(k, xs). sum_list (map snd xs)) m)"

lemma found_sum_append: "found_sum (map_append k (i, v) m) = found_sum m + v"
  by (induction m) (auto simp: found_sum_def map_append_def)

lemma take_expanded_sum:
  "take_expanded amount es (sm, m) = ((sm', m'), go) \<Longrightarrow> sm = i64 (found_sum m) \<Longrightarrow> sm' = i64 (found_sum m')"
proof (induction es arbitrary: sm m)
  case (Cons e es)
  obtain out h i where e: "e = (out, h, i)" by (cases e) auto
  let ?m = "map_append (HashValue_String h) (i, Value out) m"
  have sum: "i64 (sm + Value out) = i64 (found_sum ?m)" using Cons.prems(2) by (simp add: found_sum_append)
  show ?case
  proof (cases "amount \<le> i64 (sm + Value out)")
    case True
    then show ?thesis using Cons.prems(1) sum by (auto simp: e Let_def)
  next
    case False
    then show ?thesis using Cons.IH [OF _ sum] Cons.prems(1) by (simp add: e Let_def)
  qed
qed simp

lemma scan_outs_sum:
  "scan_outs E us pk amount s k outs f = Ok (f', go) \<Longrightarrow> fst f = i64 (found_sum (snd f)) \<Longrightarrow>
   fst f' = i64 (found_sum (snd f'))"
proof (induction outs arbitrary: f)
  case (Cons io outs)
  obtain i out where io: "io = (i, out)" by (cases io)
  show ?case
  proof (cases "IsLockedWithKey E out pk")
    case True
    then obtain es s' where ex: "mempool_ExpandTxnOutput E (set_group us) out k (int i) s = Ok (es, s')"
      using Cons.prems(1) by (auto simp: io)
    obtain f1 go1 where es: "take_expanded amount es f = (f1, go1)" by fastforce
    then have rest: "(if go1 then scan_outs E us pk amount s k outs f1 else Ok (f1, False)) = Ok (f', go)"
      using Cons.prems(1) True ex by (simp add: io)
    have "fst f1 = i64 (found_sum (snd f1))"
      using take_expanded_sum [of amount es "fst f" "snd f" "fst f1" "snd f1" go1] es Cons.prems(2)
      unfolding prod.collapse by blast
    then show ?thesis using rest Cons.IH by (auto split: if_splits)
  next
    case False
    then show ?thesis using Cons by (simp add: io)
  qed
qed simp

lemma cursor_loop_invariant:
  assumes "cursor_loop fn items st = Ok st'" and "P st"
    and "\<And>k v st st' go. P st \<Longrightarrow> fn k v st = Ok (st', go) \<Longrightarrow> P st'"
  shows "P st'"
  using assms(1,2)
proof (induction items arbitrary: st)
  case (Cons kv items)
  then show ?case using assms(3) by (cases kv) (fastforce split: if_splits)
qed simp

lemma findUTXOs_sum: "findUTXOs E us pk amount s = Ok (sm, m) \<Longrightarrow> sm = i64 (found_sum m)"
proof -
  assume f: "findUTXOs E us pk amount s = Ok (sm, m)"
  then obtain b where b: "node_dbs s UTXOs (set_group us) = Some b"
    by (auto simp: findUTXOs_def db_Foreach_def split: option.splits)
  let ?fn = "\<lambda>k v. scan_outs E us pk amount s k (enumerate 0 (BytesToTxnOutputs E v))"
  have "cursor_loop ?fn (bolt_items E b) (0, []) = Ok (sm, m)"
    using f b by (simp add: findUTXOs_def db_Foreach_def)
  then have "fst (sm, m) = i64 (found_sum (snd (sm, m)))"
    by (rule cursor_loop_invariant) (auto simp: found_sum_def i64_id dest: scan_outs_sum)
  then show ?thesis by simp
qed

lemma txn_inputs_sum: "txn_inputs pk m = Some ins \<Longrightarrow> sum_list (map VoutValue ins) = found_sum m"
proof (induction m arbitrary: ins)
  case (Cons kx m)
  obtain k xs where "kx = (k, xs)" by (cases kx)
  with Cons show ?case
    by (auto simp: found_sum_def case_prod_beta comp_def split: option.splits if_splits)
qed (simp add: found_sum_def)

lemma txn_inputs_key: "txn_inputs pk m = Some ins \<Longrightarrow> \<forall>vin \<in> set ins. PubKey vin = pk"
proof (induction m arbitrary: ins)
  case (Cons kx m)
  then show ?case by (cases kx) (auto simp: case_prod_beta split: option.splits if_splits)
qed simp

lemma Sign_frame:
  assumes "SignTransaction E g sk rnd txn s = Ok (txn', err)"
  shows "Vout txn' = Vout txn" and "map PubKey (Vin txn') = map PubKey (Vin txn)"
    and "map VoutValue (Vin txn') = map VoutValue (Vin txn)"
proof -
  have trim: "map VoutValue (Vin t) = map VoutValue (Vin t')" if "TrimmedCopy t = TrimmedCopy t'" for t t'
    using arg_cong [OF that, of "\<lambda>t. map VoutValue (Vin t)"] by (simp add: TrimmedCopy_def comp_def)
  have "txn' = txn \<or> (\<exists>prevs err. sign_loop E sk rnd prevs (TrimmedCopy txn) 0 (Vin (TrimmedCopy txn)) txn = Ok (txn', err))"
  proof -
    obtain r where r: "collect_prevs E g (Vin txn) Map.empty s = Ok r"
      using assms by (auto simp: SignTransaction_def)
    then show ?thesis
      using assms by (cases r) (auto simp: SignTransaction_def Transaction_Sign_def Let_def split: if_splits)
  qed
  moreover have "length (Vin (TrimmedCopy txn)) = length (Vin txn)" by (simp add: TrimmedCopy_def)
  ultimately have "txn' = txn \<or> Vout txn' = Vout txn \<and> map PubKey (Vin txn') = map PubKey (Vin txn) \<and> TrimmedCopy txn' = TrimmedCopy txn"
    using sign_loop_frame [of E sk rnd _ "TrimmedCopy txn" 0 "Vin (TrimmedCopy txn)" txn txn'] by auto
  then show "Vout txn' = Vout txn" "map PubKey (Vin txn') = map PubKey (Vin txn)"
      "map VoutValue (Vin txn') = map VoutValue (Vin txn)"
    using trim [of txn' txn] by auto
qed

context go_ranges
begin

lemma found_sum_range_map: "found_sum (range_map E site m) = found_sum m"
proof -
  have "mset (map (\<lambda>(k, xs). sum_list (map snd xs)) (range_map E site m)) = mset (map (\<lambda>(k, xs). sum_list (map snd xs)) m)"
    by (simp add: mset_map)
  then show ?thesis unfolding found_sum_def by (metis sum_mset_sum_list)
qed

end

text \<open>
  C16: a transaction made by \<^verbatim>\<open>CreateTransaction\<close> spends what it pays, modulo the width of an amount: the values of
  its outputs and the values its inputs name have the same sum. All inputs carry the sender's
  public key, their sum is at least the amount, the first output pays the amount to the receiver, and a
  second one, if there is one, gives the rest back to the sender.
\<close>

theorem CreateTransaction_balanced:
  assumes "go_ranges E" and "CreateTransaction E us (Some ws) rnd from to_addr amount s = Ok (Inr (txn, err))"
  shows "i64 (sum_list (map Value (Vout txn))) = i64 (sum_list (map VoutValue (Vin txn))) \<and>
    amount \<le> i64 (sum_list (map VoutValue (Vin txn))) \<and>
    (\<exists>w. ws from = Some w \<and> (\<forall>vin \<in> set (Vin txn). PubKey vin = wPublicKey w)) \<and>
    (\<exists>out rest. Vout txn = out # rest \<and> NewTxnOutput to_addr amount = Ok out \<and> length rest \<le> 1 \<and>
      (\<forall>change \<in> set rest. NewTxnOutput from (Value change) = Ok change))"
proof -
  obtain w where w: "ws from = Some w" using assms(2) by (auto simp: CreateTransaction_def split: option.splits)
  obtain sm m where f: "findUTXOs E us (wPublicKey w) amount s = Ok (sm, m)" "amount \<le> sm"
    using assms(2) w by (auto simp: CreateTransaction_def split: if_splits)
  obtain ins where ins: "txn_inputs (wPublicKey w) (range_map E 4 m) = Some ins"
    using assms(2) w f by (auto simp: CreateTransaction_def split: if_splits option.splits)
  obtain out outs where outs: "NewTxnOutput to_addr amount = Ok out"
      "(if amount < sm then obind (NewTxnOutput from (i64 (sm - amount))) (\<lambda>change. Ok [out, change]) else Ok [out]) = Ok outs"
      "SignTransaction E (set_bc us) (wPrivateKey w) rnd \<lparr>Vin = ins, Vout = outs\<rparr> s = Ok (txn, err)"
    using assms(2) w f ins by (auto simp: CreateTransaction_def)
  note frame = Sign_frame [OF outs(3), simplified]
  have sum: "sum_list (map VoutValue (Vin txn)) = found_sum m"
    using txn_inputs_sum [OF ins] frame(3) go_ranges.found_sum_range_map [OF assms(1)] by simp
  have sm: "sm = i64 (found_sum m)" by (rule findUTXOs_sum [OF f(1)])
  have val: "Value t = v" if "NewTxnOutput a v = Ok t" for a v t using that by (auto simp: NewTxnOutput_def)
  have bal: "i64 (sum_list (map Value outs)) = i64 sm"
    using outs(1,2) val f(2) i64_add_left [of "sm - amount" amount] by (auto split: if_splits simp: add.commute)
  have "\<forall>vin \<in> set (Vin txn). PubKey vin = wPublicKey w"
  proof -
    have "PubKey ` set (Vin txn) = PubKey ` set ins" using frame(2) by (metis set_map)
    then show ?thesis using txn_inputs_key [OF ins] by force
  qed
  moreover have "i64 sm = sm" using i64_add_left [of "found_sum m" 0] by (simp add: sm)
  moreover have "\<exists>rest. outs = out # rest \<and> length rest \<le> 1 \<and> (\<forall>change \<in> set rest. NewTxnOutput from (Value change) = Ok change)"
    using outs(2) val by (auto split: if_splits)
  ultimately show ?thesis using w outs(1) bal f(2) sum sm frame(1) by simp
qed

subsection \<open>A funded wallet\<close>

definition funding :: "Wallet \<Rightarrow> Transaction" where
  "funding w = \<lparr>Vin = [\<lparr>VoutHash = [], VoutIndex = -1, VoutValue = 50, Signature = [], PubKey = [1]\<rparr>],
     Vout = [\<lparr>Value = 50, PubKeyHash = PublicKey_Hash plain_env (wPublicKey w)\<rparr>]\<rparr>"

abbreviation funding_hash :: "Wallet \<Rightarrow> bytes" where
  "funding_hash w \<equiv> Transaction_Hash plain_env (funding w)"

definition funded :: "Wallet \<Rightarrow> ref_bucket node \<Rightarrow> bool" where
  "funded w s \<longleftrightarrow> node_dbs s UTXOs 0 = Some [(funding_hash w, marshal_outs plain_env (Vout (funding w)))] \<and>
     node_dbs s Txns_db 0 = Some [(funding_hash w, marshal_txn plain_env (funding w))] \<and> mempools s 0 = []"

lemma length_Transaction_Hash_plain [simp]: "length (Transaction_Hash plain_env t) = 32"
  by (simp add: Transaction_Hash_def)

lemma plain_hash_nonempty [simp]: "Transaction_Hash plain_env t \<noteq> []"
  by (metis length_Transaction_Hash_plain list.size(3) zero_neq_numeral)

lemma funded_found:
  assumes "funded w s"
  shows "findUTXOs plain_env sample_set (wPublicKey w) 30 s = Ok (50, [(HashValue_String (funding_hash w), [(0, 50)])])"
proof -
  have same: "s\<lparr>mempools := (mempools s)(0 := [])\<rparr> = s" using assms same_mempools [of s 0] by (simp add: funded_def)
  have "mempool_ExpandTxnOutput plain_env 0 out h i s = Ok ([(out, h, i)], s)" for out h i
    using assms by (simp add: mempool_ExpandTxnOutput_def with_mempool_def funded_def group_mod_def
        ExpandTxnOutput_def expand_loop.simps [of plain_env "[]" 10] expand_round_def same)
  moreover have "map_append k x [] = [(k, [x])]" for k and x :: "int \<times> int" by (simp add: map_append_def)
  ultimately show ?thesis
    using assms plain_codec.unmarshal_marshal_outs [of "Vout (funding w)"]
    by (simp add: findUTXOs_def db_Foreach_def funded_def BytesToTxnOutputs_def sample_set_def funding_def
        IsLockedWithKey_def HashValue_Equal_def i64_id)
qed

lemma funded_parent: "funded w s \<Longrightarrow> FindTxn plain_env 0 (funding_hash w) s = Some (funding w)"
  using plain_codec.unmarshal_marshal_txn [of "funding w"] plain_codec.marshal_txn_nonempty [of "funding w"]
  by (simp add: FindTxn_def node_Get_def db_Get_def funded_def BytesToTransaction_def)

lemma funded_transaction:
  assumes "funded w s" and "address_hash from = Ok h" and "address_hash to_addr = Ok h'"
  shows "\<exists>tx. CreateTransaction plain_env sample_set (Some [from \<mapsto> w]) (\<lambda>_. 0) from to_addr 30 s = Ok (Inr (tx, None)) \<and>
    (\<forall>vin \<in> set (Vin tx). VoutHash vin \<noteq> [])"
proof -
  let ?h = "funding_hash w"
  let ?in = "\<lparr>VoutHash = ?h, VoutIndex = 0, VoutValue = 50, Signature = [], PubKey = wPublicKey w\<rparr>"
  have ins: "txn_inputs (wPublicKey w) [(HashValue_String ?h, [(0, 50)])] = Some [?in]"
    by (simp add: HashValue_String_def)
  have "Vout (funding w) \<noteq> []" by (simp add: funding_def)
  then have sign: "\<exists>tx. SignTransaction plain_env 0 (wPrivateKey w) (\<lambda>_. 0) \<lparr>Vin = [?in], Vout = outs\<rparr> s = Ok (tx, None) \<and>
      (\<forall>vin \<in> set (Vin tx). VoutHash vin \<noteq> [])" for outs
    using funded_parent [OF assms(1)]
    by (auto simp: SignTransaction_def Transaction_Sign_def prev_txn_def ref_json_def oindex_def TrimmedCopy_def IsCoinbase_def Let_def)
  obtain out change where outs: "NewTxnOutput to_addr 30 = Ok out" "NewTxnOutput from 20 = Ok change"
    using assms(2,3) by (simp add: NewTxnOutput_def)
  obtain tx where "SignTransaction plain_env 0 (wPrivateKey w) (\<lambda>_. 0) \<lparr>Vin = [?in], Vout = [out, change]\<rparr> s = Ok (tx, None)"
      "\<forall>vin \<in> set (Vin tx). VoutHash vin \<noteq> []"
    using sign by blast
  then show ?thesis
    using outs ins funded_found [OF assms(1)]
    by (intro exI [of _ tx]) (simp add: CreateTransaction_def range_map_def i64_id sample_set_def del: txn_inputs.simps)
qed

definition payer :: Wallet where
  "payer = \<lparr>wPrivateKey = 3, wPublicKey = [1]\<rparr>"

definition funded_node :: "ref_bucket node" where
  "funded_node = empty_node\<lparr>node_dbs := (\<lambda>name g.
     if name = UTXOs then Some [(funding_hash payer, marshal_outs plain_env (Vout (funding payer)))]
     else if name = Txns_db then Some [(funding_hash payer, marshal_txn plain_env (funding payer))]
     else None)\<rparr>"

theorem CreateTransaction_balanced_witness:
  "\<exists>txn err. CreateTransaction plain_env sample_set (Some [GetAddress plain_env payer \<mapsto> payer]) (\<lambda>_. 0)
      (GetAddress plain_env payer) (GetAddress plain_env payer) 30 funded_node = Ok (Inr (txn, err)) \<and>
    i64 (sum_list (map Value (Vout txn))) = i64 (sum_list (map VoutValue (Vin txn)))"
proof -
  have "funded payer funded_node" by (simp add: funded_def funded_node_def empty_node_def)
  from funded_transaction [OF this plain_node.address_hash_GetAddress plain_node.address_hash_GetAddress]
  obtain txn where "CreateTransaction plain_env sample_set (Some [GetAddress plain_env payer \<mapsto> payer]) (\<lambda>_. 0)
      (GetAddress plain_env payer) (GetAddress plain_env payer) 30 funded_node = Ok (Inr (txn, None))"
    by blast
  then show ?thesis using CreateTransaction_balanced [OF plain_node.go_ranges_axioms, of sample_set] by blast
qed

end
