(* ===== verification/Wallet_File.thy ===== *)
theory Wallet_File
  imports UTXO_Set "HOL-Library.AList"
begin

text \<open>
  The wallet file of \<^verbatim>\<open>wallet/wallets.go\<close> and the commands \<^verbatim>\<open>create_wallet\<close> and \<^verbatim>\<open>list_address\<close> of \<^verbatim>\<open>commands\<close>, which are all that
  use it besides \<^verbatim>\<open>CreateTransaction\<close>.
\<close>

section \<open>The code\<close>

text \<open>
  \<^verbatim>\<open>Wallets\<close> is a Go map from addresses to wallets, kept as an association list. The file is absent, cannot be
  read, or has a content. \<^verbatim>\<open>encoding/gob\<close> is a parameter: \<open>Encode\<close> may report an error, and \<open>Decode\<close>, whose error
  the source ignores, leaves some map.
\<close>

type_synonym wallets = "(bytes \<times> Wallet) list"

datatype wallet_dat = NoFile | Unreadable | Content bytes

record gob =
  gob_Encode :: "wallets \<Rightarrow> bytes option"
  gob_Decode :: "bytes \<Rightarrow> wallets"

text \<open>
  The package's variables \<^verbatim>\<open>onceWallets\<close>, \<^verbatim>\<open>instanceWallets\<close> and \<^verbatim>\<open>errWallets\<close> are one option: the map and whether
  there was an error, once \<^verbatim>\<open>GetWallets\<close> was called. \<open>writable\<close> says whether \<^verbatim>\<open>ioutil.WriteFile\<close> succeeds.
\<close>

record wallet_store =
  wallet_file :: wallet_dat
  writable :: bool
  loaded :: "(wallets \<times> bool) option"

definition getWallets :: "gob \<Rightarrow> wallet_store \<Rightarrow> wallets \<times> bool" where
  "getWallets G st = (case wallet_file st of
       NoFile \<Rightarrow> ([], False)
     | Unreadable \<Rightarrow> ([], True)
     | Content fileContent \<Rightarrow> (gob_Decode G fileContent, False))"

definition GetWallets :: "gob \<Rightarrow> wallet_store \<Rightarrow> (wallets \<times> bool) \<times> wallet_store" where
  "GetWallets G st = (case loaded st of
       Some r \<Rightarrow> (r, st)
     | None \<Rightarrow> let r = getWallets G st in (r, st\<lparr>loaded := Some r\<rparr>))"

definition SaveToFile :: "gob \<Rightarrow> wallets \<Rightarrow> wallet_store \<Rightarrow> wallet_store outcome" where
  "SaveToFile G ws st = (case gob_Encode G ws of
       None \<Rightarrow> Exit
     | Some content \<Rightarrow> if writable st then Ok (st\<lparr>wallet_file := Content content\<rparr>) else Exit)"

text \<open>
  The loop of \<^verbatim>\<open>CreateWalletCmd\<close> draws keys until the address is in the group asked for; \<open>keys n\<close> is the \<open>n\<close>-th
  key that \<^verbatim>\<open>ecdsa.GenerateKey\<close> draws. A loop that never ends is \<open>None\<close>.
\<close>

definition wanted_group :: "('k, 'z) env_scheme \<Rightarrow> int \<Rightarrow> bytes \<Rightarrow> bool outcome" where
  "wanted_group E specified address =
     (if specified = -1 then Ok True
      else obind (GetGroupByAddress (MaxGroupNum E) address) (\<lambda>group. Ok (specified = group)))"

partial_function (option) draw_wallet ::
  "('k, 'z) env_scheme \<Rightarrow> int \<Rightarrow> (nat \<Rightarrow> PrivateKey) \<Rightarrow> nat \<Rightarrow> Wallet outcome option" where
  "draw_wallet E specified keys n =
     (case wanted_group E specified (GetAddress E (NewWallet E (keys n))) of
        Ok found \<Rightarrow> if found then Some (Ok (NewWallet E (keys n))) else draw_wallet E specified keys (n + 1)
      | Exit \<Rightarrow> Some Exit | Panic \<Rightarrow> Some Panic | Hang \<Rightarrow> Some Hang)"

text \<open>
  \<^verbatim>\<open>ws\<close> is the map of the package itself, so the new wallet is in \<^verbatim>\<open>instanceWallets\<close> too. The result is the new
  \<^verbatim>\<open>global.Address\<close>, which is also printed.
\<close>

definition CreateWalletCmd ::
  "('k, 'z) env_scheme \<Rightarrow> gob \<Rightarrow> int \<Rightarrow> (nat \<Rightarrow> PrivateKey) \<Rightarrow> wallet_store \<Rightarrow> (bytes \<times> wallet_store) outcome option" where
  "CreateWalletCmd E G specified keys st =
     (case GetWallets G st of ((ws, err), st) \<Rightarrow>
        if err then Some Exit
        else map_option (\<lambda>r. obind r (\<lambda>w.
               let address = GetAddress E w; ws = AList.update address w ws
               in obind (SaveToFile G ws (st\<lparr>loaded := Some (ws, err)\<rparr>)) (\<lambda>st. Ok (address, st))))
             (draw_wallet E specified keys 0))"

definition ListAddressCmd :: "('k, 'z) env_scheme \<Rightarrow> gob \<Rightarrow> wallet_store \<Rightarrow> (bytes list \<times> wallet_store) outcome" where
  "ListAddressCmd E G st = (case GetWallets G st of ((ws, err), st) \<Rightarrow>
     if err then Exit else Ok (map fst (range_map E 5 ws), st))"

section \<open>The loop over drawn keys\<close>

locale gob_codec =
  fixes G :: gob
  assumes Decode_Encode: "gob_Encode G ws = Some content \<Longrightarrow> map_of (gob_Decode G content) = map_of ws"

abbreviation key_group :: "('k, 'z) env_scheme \<Rightarrow> PrivateKey \<Rightarrow> int outcome" where
  "key_group E key \<equiv> GetGroupByPubKeyHash (MaxGroupNum E) (PublicKey_Hash E (wPublicKey (NewWallet E key)))"

definition accepts :: "('k, 'z) env_scheme \<Rightarrow> int \<Rightarrow> PrivateKey \<Rightarrow> bool" where
  "accepts E specified key \<longleftrightarrow> specified = -1 \<or> key_group E key = Ok specified"

lemma draw_wallet_finds:
  assumes step: "\<And>n. wanted_group E specified (GetAddress E (NewWallet E (keys n))) = Ok (accepts E specified (keys n))"
    and found: "accepts E specified (keys k)" and first: "\<And>i. n \<le> i \<Longrightarrow> i < k \<Longrightarrow> \<not> accepts E specified (keys i)" and le: "n \<le> k"
  shows "draw_wallet E specified keys n = Some (Ok (NewWallet E (keys k)))"
  using le first
proof (induction "k - n" arbitrary: n)
  case 0
  then show ?case using found by (simp add: draw_wallet.simps step)
next
  case (Suc d)
  then have "\<not> accepts E specified (keys n)" "draw_wallet E specified keys (n + 1) = Some (Ok (NewWallet E (keys k)))"
    by simp_all
  then show ?case by (subst draw_wallet.simps) (simp add: step)
qed

text \<open>A run that returns has seen a key that is accepted, or did not get past the computation of a group.\<close>

lemma draw_wallet_returns:
  assumes "draw_wallet E specified keys n = Some r"
  shows "\<exists>k \<ge> n. wanted_group E specified (GetAddress E (NewWallet E (keys k))) \<noteq> Ok False"
proof (rule draw_wallet.raw_induct [OF _ assms], goal_cases)
  case (1 loop E specified keys n r)
  then have "wanted_group E specified (GetAddress E (NewWallet E (keys n))) \<noteq> Ok False \<or>
      (\<exists>k \<ge> n + 1. wanted_group E specified (GetAddress E (NewWallet E (keys k))) \<noteq> Ok False)"
    by (auto split: outcome.splits if_splits)
  then show ?case by (meson add_leD1 order_refl)
qed

lemma wanted_group_wallet:
  fixes E :: "('k, 'z) env_scheme"
  assumes "digests E" and "0 < MaxGroupNum E"
  shows "wanted_group E specified (GetAddress E (NewWallet E key)) = Ok (accepts E specified key)"
  using digests.GetGroupByPubKeyHash_total [OF assms]
  by (auto simp: wanted_group_def accepts_def digests.GetGroupByAddress_GetAddress [OF assms(1)])

lemma draw_wallet_None:
  fixes E :: "('k, 'z) env_scheme"
  assumes "digests E" and "0 < MaxGroupNum E"
  shows "draw_wallet E specified keys 0 = None \<longleftrightarrow> \<not> (\<exists>k. accepts E specified (keys k))"
proof
  assume none: "draw_wallet E specified keys 0 = None"
  show "\<not> (\<exists>k. accepts E specified (keys k))"
  proof
    assume "\<exists>k. accepts E specified (keys k)"
    then obtain k where "accepts E specified (keys k)" "\<And>i. i < k \<Longrightarrow> \<not> accepts E specified (keys i)"
      using exists_least_iff [of "\<lambda>k. accepts E specified (keys k)"] by blast
    then have "draw_wallet E specified keys 0 = Some (Ok (NewWallet E (keys k)))"
      by (intro draw_wallet_finds wanted_group_wallet [OF assms]) simp_all
    with none show False by simp
  qed
next
  assume "\<not> (\<exists>k. accepts E specified (keys k))"
  then have "draw_wallet E specified keys 0 \<noteq> Some r" for r
    using draw_wallet_returns [of E specified keys 0 r] by (auto simp: wanted_group_wallet [OF assms])
  then show "draw_wallet E specified keys 0 = None" by auto
qed

text \<open>A group that no address has is never found.\<close>

lemma accepts_range:
  fixes E :: "('k, 'z) env_scheme"
  assumes "digests E" and "0 < MaxGroupNum E" and "accepts E specified key"
  shows "specified = -1 \<or> 0 \<le> specified \<and> specified < MaxGroupNum E"
  using assms(3) digests.GetGroupByPubKeyHash_total [OF assms(1,2), of "wPublicKey (NewWallet E key)"]
  by (auto simp: accepts_def)

section \<open>Properties\<close>

text \<open>
  C33: \<^verbatim>\<open>create_wallet\<close> returns exactly when some drawn key is in the group asked for (any key when none is asked
  for), so never for a group that does not exist. The address it then prints is valid and in that group, and a process
  started afterwards reads back from the file the wallets there were before and, under the new address, the wallet of
  the first key that fits; \<^verbatim>\<open>list_address\<close> prints the old addresses and the new one.
\<close>

theorem create_wallet_correct:
  fixes E :: "('k, 'z) env_scheme"
  assumes "node_env E" and "gob_codec G"
    and "fst (GetWallets G st) = (ws, False)" and "writable st" and "\<And>ws. gob_Encode G ws \<noteq> None"
  shows "(CreateWalletCmd E G specified keys st \<noteq> None \<longleftrightarrow> (\<exists>k. accepts E specified (keys k))) \<and>
    (specified \<noteq> -1 \<and> \<not> (0 \<le> specified \<and> specified < MaxGroupNum E) \<longrightarrow> CreateWalletCmd E G specified keys st = None) \<and>
    (\<forall>k. accepts E specified (keys k) \<and> (\<forall>i < k. \<not> accepts E specified (keys i)) \<longrightarrow>
      (\<exists>address st'. CreateWalletCmd E G specified keys st = Some (Ok (address, st')) \<and>
        address = GetAddress E (NewWallet E (keys k)) \<and> ValidateAddress E address \<and>
        (specified \<noteq> -1 \<longrightarrow> GetGroupByAddress (MaxGroupNum E) address = Ok specified) \<and>
        (\<exists>ws'. fst (GetWallets G (st'\<lparr>loaded := None\<rparr>)) = (ws', False) \<and>
          map_of ws' = (map_of ws)(address \<mapsto> NewWallet E (keys k))) \<and>
        (\<exists>printed st2. ListAddressCmd E G (st'\<lparr>loaded := None\<rparr>) = Ok (printed, st2) \<and>
          set printed = insert address (fst ` set ws))))"
    (is "?returns \<and> ?never \<and> (\<forall>k. ?first k \<longrightarrow> ?made k)")
proof -
  have env: "digests E" "0 < MaxGroupNum E" "go_ranges E"
    using assms(1) by (simp_all add: node_env_def node_env_axioms_def)
  obtain st0 where get: "GetWallets G st = ((ws, False), st0)" "writable st0"
    using assms(3,4) by (cases "loaded st") (auto simp: GetWallets_def Let_def)
  have none: "CreateWalletCmd E G specified keys st = None \<longleftrightarrow> \<not> (\<exists>k. accepts E specified (keys k))"
    by (simp add: CreateWalletCmd_def get(1) draw_wallet_None [OF env(1,2)])
  have "?made k"
    if k: "accepts E specified (keys k)" "\<forall>i < k. \<not> accepts E specified (keys i)" for k
  proof -
    let ?w = "NewWallet E (keys k)"
    let ?ws = "AList.update (GetAddress E ?w) ?w ws"
    have draw: "draw_wallet E specified keys 0 = Some (Ok ?w)"
      using k by (intro draw_wallet_finds wanted_group_wallet [OF env(1,2)]) simp_all
    obtain content where content: "gob_Encode G ?ws = Some content" using assms(5) by blast
    have valid: "ValidateAddress E (GetAddress E ?w)"
      unfolding digests.ValidateAddress_iff [OF env(1)] digests.decoded_address [OF env(1)] by blast
    have group: "specified \<noteq> -1 \<longrightarrow> GetGroupByAddress (MaxGroupNum E) (GetAddress E ?w) = Ok specified"
      using k(1) by (auto simp: accepts_def digests.GetGroupByAddress_GetAddress [OF env(1)])
    have read: "map_of (gob_Decode G content) = (map_of ws)(GetAddress E ?w \<mapsto> ?w)"
      by (simp add: gob_codec.Decode_Encode [OF assms(2) content] update_conv')
    have "dom (map_of (gob_Decode G content)) = insert (GetAddress E ?w) (dom (map_of ws))" by (simp add: read)
    then have "set (map fst (range_map E 5 (gob_Decode G content))) = insert (GetAddress E ?w) (fst ` set ws)"
      using arg_cong [OF go_ranges.mset_range_map [OF env(3), of 5 "gob_Decode G content"], of set_mset] by (simp add: dom_map_of_conv_image_fst)
    moreover have "CreateWalletCmd E G specified keys st = Some (Ok (GetAddress E ?w,
        st0\<lparr>loaded := Some (?ws, False), wallet_file := Content content\<rparr>))"
      by (simp add: CreateWalletCmd_def get draw SaveToFile_def content Let_def)
    ultimately show ?thesis using valid group read by (auto simp: GetWallets_def getWallets_def ListAddressCmd_def Let_def)
  qed
  moreover have ?returns using none by (simp only: not_not)
  moreover have ?never using none accepts_range [OF env(1,2)] by blast
  ultimately show ?thesis by (intro conjI allI impI) simp_all
qed

section \<open>A gob codec\<close>

definition enc_wallet :: "bytes \<times> Wallet \<Rightarrow> bytes" where
  "enc_wallet e = enc_bytes (fst e) @ enc_nat (wPrivateKey (snd e)) @ enc_bytes (wPublicKey (snd e))"

definition dec_wallet :: "bytes \<Rightarrow> (bytes \<times> Wallet) \<times> bytes" where
  "dec_wallet bs = (case dec_bytes bs of (a, bs) \<Rightarrow> case dec_nat bs of (d, bs) \<Rightarrow> case dec_bytes bs of (p, bs) \<Rightarrow>
     ((a, \<lparr>wPrivateKey = d, wPublicKey = p\<rparr>), bs))"

interpretation wallet_codec: stream_codec enc_wallet dec_wallet
  by unfold_locales (auto simp: enc_wallet_def dec_wallet_def)

definition ref_gob :: gob where
  "ref_gob = \<lparr>gob_Encode = (\<lambda>ws. Some (enc_list enc_wallet ws)), gob_Decode = (\<lambda>bs. fst (dec_list dec_wallet bs))\<rparr>"

interpretation ref_gob: gob_codec ref_gob
  by unfold_locales (use wallet_codec.list_codec [of _ "[]"] in \<open>auto simp: ref_gob_def\<close>)

definition no_wallets :: wallet_store where
  "no_wallets = \<lparr>wallet_file = NoFile, writable = True, loaded = None\<rparr>"

lemma plain_digests: "digests plain_env"
  by unfold_locales (simp_all add: plain_env_fields)

text \<open>In \<open>plain_env\<close> the group of a key is the first byte of its public key, modulo 4.\<close>

theorem create_wallet_correct_witness:
  "accepts plain_env 3 7 \<and> \<not> accepts plain_env 3 4 \<and>
   (\<exists>address st'. CreateWalletCmd plain_env ref_gob 3 (\<lambda>n. [4, 7] ! (n mod 2)) no_wallets = Some (Ok (address, st')) \<and>
     GetGroupByAddress 4 address = Ok 3) \<and>
   CreateWalletCmd plain_env ref_gob 9 (\<lambda>n. n) no_wallets = None"
proof -
  have bytes: "Bytes 7 = [7]" "Bytes 4 = [4]" by (simp_all add: Bytes_def to_digits.simps)
  have "PublicKey_Hash plain_env (wPublicKey (NewWallet plain_env 7)) ! 0 = 7"
     "PublicKey_Hash plain_env (wPublicKey (NewWallet plain_env 4)) ! 0 = 4"
    by (simp_all add: NewWallet_def newKeyPair_def PublicKey_Hash_def ref_json_def bytes)
  then have fits: "accepts plain_env 3 7" "\<not> accepts plain_env 3 4"
    using digests.length_PublicKey_Hash [OF plain_digests]
    by (auto simp: accepts_def GetGroupByPubKeyHash_def oindex_def)
  have get: "fst (GetWallets ref_gob no_wallets) = ([], False)" "writable no_wallets" "gob_Encode ref_gob ws \<noteq> None" for ws
    by (simp_all add: GetWallets_def getWallets_def no_wallets_def Let_def ref_gob_def)
  have "\<forall>i < 1. \<not> accepts plain_env 3 ([4, 7] ! (i mod 2))" using fits by simp
  then show ?thesis
    using fits create_wallet_correct [OF plain_node.node_env_axioms ref_gob.gob_codec_axioms get, of 3 "\<lambda>n. [4, 7] ! (n mod 2)"]
      create_wallet_correct [OF plain_node.node_env_axioms ref_gob.gob_codec_axioms get, of 9 "\<lambda>n. n"]
    by (auto dest!: spec [of _ 1])
qed

end
