(* ===== verification/Commands.thy ===== *)
theory Commands
  imports Server Mining_Round Txn_Creation Wallet_File
begin

text \<open>
  The other commands of the program (\<^verbatim>\<open>commands/*.go\<close>) and the client functions of \<^verbatim>\<open>api\<close> that they call: asking the own node, printing a chain,
  creating a chain and sending coins. A command ends the process with \<open>Exit\<close> where the source calls \<^verbatim>\<open>log.Err\<close> or
  \<^verbatim>\<open>log.Errln\<close>; \<^verbatim>\<open>global.Address\<close>, which a flag sets, is a field of the environment.
\<close>

section \<open>Requests to the own node\<close>

text \<open>
  \<^verbatim>\<open>CallSelf\<close>: the answer of the node that listens on the own port, \<open>None\<close> when none does. The result is what the client gets, or \<open>None\<close>
  for an error.
\<close>

definition CallSelf :: "'a \<Rightarrow> (api_error + 'a) outcome option \<Rightarrow> 'a option outcome" where
  "CallSelf zero server = (case server of None \<Rightarrow> Ok None | Some r \<Rightarrow> call_reply zero r)"

definition GetBalance :: "('k, 'z) env_scheme \<Rightarrow> bytes \<Rightarrow> 'k node option \<Rightarrow> int option outcome" where
  "GetBalance E address server = CallSelf 0 (map_option (handle_GetBalance E address) server)"

definition GetVersion :: "('k, 'z) env_scheme \<Rightarrow> 'k node option \<Rightarrow> Version option outcome" where
  "GetVersion E server =
     (let reply = \<lparr>vGroup = -1, vVersion = 0, vHeight = 0, vRootHash = [], vNowHash = []\<rparr>
      in CallSelf reply (map_option (handle_SendVersion E reply) server))"

text \<open>\<^verbatim>\<open>SendCMD\<close>: whether there was an error, and what the node that answered did. A handler that never returns keeps the client waiting.\<close>

definition SendCMD ::
  "('k, 'z) env_scheme \<Rightarrow> (bytes \<rightharpoonup> Wallet) option \<Rightarrow> (nat \<Rightarrow> nat) \<Rightarrow> (bytes \<Rightarrow> KnownNodesEntry list option outcome) \<Rightarrow> bytes \<Rightarrow> bytes \<Rightarrow>
   bytes \<Rightarrow> int \<Rightarrow> (net \<times> 'k node) option \<Rightarrow> (bool \<times> (message list \<times> net) option) outcome" where
  "SendCMD E wallets rnd call self from to_addr amount server =
     (case server of None \<Rightarrow> Ok (True, None)
      | Some st \<Rightarrow> (case handle_SendCMD E wallets rnd call self from to_addr amount st of
            Ok (err, msgs, N) \<Rightarrow> Ok (err \<noteq> None, Some (msgs, N))
          | Exit \<Rightarrow> Ok (True, None) | Panic \<Rightarrow> Ok (False, None) | Hang \<Rightarrow> Hang))"

section \<open>The commands\<close>

text \<open>The list of nodes is part of every process that registers.\<close>

definition register_net :: "('k, 'z) env_scheme \<Rightarrow> (nat \<Rightarrow> nat) \<Rightarrow> net \<Rightarrow> net outcome" where
  "register_net E rnd N =
     obind (network_Register E rnd (registered N, known N, sorted_nodes N)) (\<lambda>(reg, kn, ps).
       Ok (N\<lparr>registered := reg, known := kn, sorted_nodes := ps\<rparr>))"

definition CreateBlockchainCmd :: "('k, 'z) env_scheme \<Rightarrow> 'k miner \<Rightarrow> bytes \<Rightarrow> 'k node \<Rightarrow> 'k node outcome" where
  "CreateBlockchainCmd E M randData s =
     (if \<not> ValidateAddress E (Address E) then Exit
      else obind (CreateBlockchain E M randData (Address E) s) (\<lambda>(err, s). if err \<noteq> None then Exit else Ok s))"

text \<open>
  A command that asks the own node starts a server itself when there is no answer, and asks again; \<open>own\<close> is its state when it
  answers. A second error ends the process.
\<close>

definition asking ::
  "('k, 'z) env_scheme \<Rightarrow> (nat \<Rightarrow> nat) \<Rightarrow> ('k node option \<Rightarrow> 'a option outcome) \<Rightarrow> 'k node option \<Rightarrow> 'k node \<Rightarrow> net \<Rightarrow> ('a \<times> net) outcome" where
  "asking E rnd request server own N =
     obind (register_net E rnd N) (\<lambda>N.
     obind (request server) (\<lambda>r.
       case r of Some x \<Rightarrow> Ok (x, N)
       | None \<Rightarrow>
           obind (register_net E rnd N) (\<lambda>N.
           obind (request (Some own)) (\<lambda>r. case r of Some x \<Rightarrow> Ok (x, N) | None \<Rightarrow> Exit))))"

definition GetBalanceCmd ::
  "('k, 'z) env_scheme \<Rightarrow> (nat \<Rightarrow> nat) \<Rightarrow> 'k node option \<Rightarrow> 'k node \<Rightarrow> net \<Rightarrow> (int \<times> net) outcome" where
  "GetBalanceCmd E rnd = asking E rnd (GetBalance E (Address E))"

definition GetVersionCmd ::
  "('k, 'z) env_scheme \<Rightarrow> (nat \<Rightarrow> nat) \<Rightarrow> 'k node option \<Rightarrow> 'k node \<Rightarrow> net \<Rightarrow> (Version \<times> net) outcome" where
  "GetVersionCmd E rnd = asking E rnd (GetVersion E)"

text \<open>
  What \<^verbatim>\<open>print\<close> shows: the height, then each block with its number of transactions, or nil. No chain has more than
  \<open>2 ^ 24\<close> blocks, so the counter does not wrap around.
\<close>

fun print_blocks :: "('k, 'z) env_scheme \<Rightarrow> int \<Rightarrow> int \<Rightarrow> nat \<Rightarrow> 'k node \<Rightarrow> (Block \<times> nat) option list outcome" where
  "print_blocks E bc i 0 s = Ok []"
| "print_blocks E bc i (Suc n) s =
     obind (GetBlockByHeight E bc i s) (\<lambda>block.
     obind (print_blocks E bc (i + 1) n s) (\<lambda>rest. Ok (map_option (\<lambda>b. (b, length (Txns b))) block # rest)))"

definition PrintCmd :: "('k, 'z) env_scheme \<Rightarrow> int \<Rightarrow> 'k node \<Rightarrow> ((int \<times> (Block \<times> nat) option list) \<times> 'k node) outcome" where
  "PrintCmd E g s =
     obind (GetBlockchain E g) (\<lambda>bc.
     obind (GetHeight E bc s) (\<lambda>(height, s).
     obind (print_blocks E bc 0 (nat (height + 1)) s) (\<lambda>blocks. Ok ((height, blocks), s))))"

text \<open>
  \<^verbatim>\<open>send\<close>: with \<^verbatim>\<open>--mine\<close> the process mines the transaction into its own database; otherwise it asks the own node to send it, and the
  result is whether that failed.
\<close>

definition send_mine ::
  "('k, 'z) env_scheme \<Rightarrow> 'k miner \<Rightarrow> bytes \<Rightarrow> (bytes \<rightharpoonup> Wallet) option \<Rightarrow> (nat \<Rightarrow> nat) \<Rightarrow> bytes \<Rightarrow> int \<Rightarrow> 'k node \<Rightarrow> 'k node outcome" where
  "send_mine E M randData wallets rnd sendTo sendAmount s =
     obind (GetGroup E) (\<lambda>g.
     obind (GetBlockchain E g) (\<lambda>bc.
     obind (GetUTXOSet E g) (\<lambda>us.
     obind (CreateTransaction E us wallets rnd (Address E) sendTo sendAmount s) (\<lambda>r.
       case r of Inr (tx, None) \<Rightarrow>
           obind (NewCoinbaseTxn randData (Address E)) (\<lambda>cbTx.
           obind (MineBlocks E M [[cbTx, tx]] g 1 s) (\<lambda>(r, s).
             case r of Inl err \<Rightarrow> Exit
             | Inr newBlocks \<Rightarrow>
                 obind (oindex newBlocks 0) (\<lambda>b.
                 obind (AddBlock E bc (Some b) s) (\<lambda>s. Update E us b s))))
       | _ \<Rightarrow> Exit))))"

definition SendCmd ::
  "('k, 'z) env_scheme \<Rightarrow> 'k miner \<Rightarrow> bytes \<Rightarrow> (bytes \<rightharpoonup> Wallet) option \<Rightarrow> (nat \<Rightarrow> nat) \<Rightarrow> (bytes \<Rightarrow> KnownNodesEntry list option outcome) \<Rightarrow> bytes \<Rightarrow>
   bytes \<Rightarrow> int \<Rightarrow> bool \<Rightarrow> (net \<times> 'k node) option \<Rightarrow> net \<times> 'k node \<Rightarrow> (bool \<times> (message list \<times> net) option \<times> net \<times> 'k node) outcome" where
  "SendCmd E M randData wallets rnd call self sendTo sendAmount sendMine server = (\<lambda>(N, s).
     if \<not> ValidateAddress E (Address E) then Exit
     else if \<not> ValidateAddress E sendTo then Exit
     else obind (register_net E rnd N) (\<lambda>N.
          if sendMine then obind (send_mine E M randData wallets rnd sendTo sendAmount s) (\<lambda>s. Ok (False, None, N, s))
          else obind (SendCMD E wallets rnd call self (Address E) sendTo sendAmount server) (\<lambda>(err, did). Ok (err, did, N, s))))"

text \<open>
  One turn of the loops of \<^verbatim>\<open>send_test\<close>: it waits while the pool is full, and otherwise asks to send one coin to the address of a
  new wallet. The result is whether it asked, and whether that failed.
\<close>

definition sendtest_turn ::
  "('k, 'z) env_scheme \<Rightarrow> int \<Rightarrow> PrivateKey \<Rightarrow> (bytes \<rightharpoonup> Wallet) option \<Rightarrow> (nat \<Rightarrow> nat) \<Rightarrow> (bytes \<Rightarrow> KnownNodesEntry list option outcome) \<Rightarrow> bytes \<Rightarrow>
   net \<times> 'k node \<Rightarrow> (bool option \<times> message list \<times> net \<times> 'k node) outcome" where
  "sendtest_turn E tps key wallets rnd call self = (\<lambda>(N, s).
     obind (GetGroup E) (\<lambda>g.
     obind (mempool_GetMempoolSize E g s) (\<lambda>(size, s).
       if i64 (5 * tps) \<le> int size then Ok (None, [], N, s)
       else obind (SendCMD E wallets rnd call self (Address E) (GetAddress E (NewWallet E key)) 1 (Some (N, s))) (\<lambda>(err, did).
            Ok (case did of None \<Rightarrow> (Some err, [], N, s) | Some (msgs, N) \<Rightarrow> (Some err, msgs, N, s))))))"

section \<open>Printing\<close>

context node_env
begin

lemma print_blocks_chain:
  assumes "chain_ok E g bs s"
  shows "i + n = length bs \<Longrightarrow> print_blocks E g (int i) n s = Ok (map (\<lambda>b. Some (b, length (Txns b))) (drop i bs))"
proof (induction n arbitrary: i)
  case (Suc n)
  have "print_blocks E g (int i + 1) n s = Ok (map (\<lambda>b. Some (b, length (Txns b))) (drop (Suc i) bs))"
    using Suc.IH [of "Suc i"] Suc.prems by (simp add: add.commute)
  moreover have "GetBlockByHeight E g (int i) s = Ok (Some (bs ! i))" using chain_block_at [OF assms, of i] Suc.prems by simp
  moreover have "drop i bs = bs ! i # drop (Suc i) bs" using Cons_nth_drop_Suc [of i bs] Suc.prems by simp
  ultimately show ?case by (simp del: of_nat_Suc)
qed simp

text \<open>Mining a transaction of one's own.\<close>

lemma send_mine_ok:
  assumes g: "GetGroup E = Ok g" and s: "serves E g bs s" "bs \<noteq> []" "length bs < 2 ^ 24"
    and tx: "CreateTransaction E \<lparr>set_bc = g, set_group = g\<rparr> wallets rnd (Address E) sendTo sendAmount s = Ok (Inr (tx, None))"
    and world: "\<And>i t. serves E g bs t \<Longrightarrow> serves E g bs (mine_world M i t)"
    and txns: "NewCoinbaseTxn randData (Address E) = Ok cbTx" "NewTxnMerkleTree E [cbTx, tx] = Ok tree"
    and target: "next_target E g (last bs) s = Ok (Fin q)" and b: "b = next_block E M g bs [cbTx, tx] (mData tree) q" "mineable b"
    and n: "mine_rnd M \<le> n" "n < MaxInt64" "Block_Verify E (b\<lparr>Nonce := n\<rparr>) = Ok True" "pause_every (mine_speed M) \<noteq> 0"
    and fresh: "\<And>n b'. b' \<in> set bs \<Longrightarrow> Block_Hash E b' \<noteq> Block_Hash E (b\<lparr>Nonce := n\<rparr>)" and named: "named_inputs b"
  shows "\<exists>n' s'. send_mine E M randData wallets rnd sendTo sendAmount s = Ok s' \<and> Block_Verify E (b\<lparr>Nonce := n'\<rparr>) = Ok True \<and>
    serves E g (bs @ [b\<lparr>Nonce := n'\<rparr>]) s'"
proof -
  have range: "0 \<le> g" "g < MaxGroupNum E" using GetGroup_range [OF g] by simp_all
  have kept: "ready E g bs t" if "serves E g bs t" for t using that by (simp add: serves_def ready_def store_ok_def)
  have "make_blocks E M [[cbTx, tx]] g 1 0 1 s = Ok (Inr [b]) \<and>
    (\<exists>n' s'. MineBlocks E M [[cbTx, tx]] g 1 s = Ok (Inr [b\<lparr>Nonce := n'\<rparr>], s') \<and> Block_Verify E (b\<lparr>Nonce := n'\<rparr>) = Ok True \<and>
      serves E g bs s')"
    by (rule mine_one_kept [where kept = "serves E g bs", OF s(1) _ _ s(2,3) range world txns(2) target b n])
      (auto intro: kept serves_GetHeight(1))
  then obtain n' s2 where s2: "MineBlocks E M [[cbTx, tx]] g 1 s = Ok (Inr [b\<lparr>Nonce := n'\<rparr>], s2)"
      "Block_Verify E (b\<lparr>Nonce := n'\<rparr>) = Ok True" "serves E g bs s2"
    by blast
  let ?b = "b\<lparr>Nonce := n'\<rparr>"
  have "continues E g bs ?b" using b fresh s(3) by (auto simp: continues_def next_block_def mineable_def)
  moreover have "named_inputs ?b" using named by (simp add: named_inputs_def)
  ultimately obtain s3 s4 where "AddBlock E g (Some ?b) s2 = Ok s3" "Update E \<lparr>set_bc = g, set_group = g\<rparr> ?b s3 = Ok s4"
      "serves E g (bs @ [?b]) s4"
    using serves_append [OF s2(3) s(2) _ _ range, of ?b] by blast
  then show ?thesis
    using g own_group [OF range] tx txns(1) s2(1,2) by (intro exI [of _ n'] exI [of _ s4]) (simp add: send_mine_def GetUTXOSet_def oindex_def)
qed

text \<open>What a node answers about its own group.\<close>

lemma GetVersion_chain:
  assumes "GetGroup E = Ok g" and "chain_ok E g bs t"
  shows "bs = [] \<Longrightarrow> GetVersion E (Some t) = Ok None"
    and "bs \<noteq> [] \<Longrightarrow> \<exists>rootHash nowHash. Block_Hash E (hd bs) = Ok rootHash \<and> Block_Hash E (last bs) = Ok nowHash \<and>
      GetVersion E (Some t) =
        Ok (Some \<lparr>vGroup = g, vVersion = protocol_version, vHeight = int (length bs) - 1, vRootHash = rootHash, vNowHash = nowHash\<rparr>)"
proof -
  have g: "0 \<le> g" "g < MaxGroupNum E" using GetGroup_range [OF assms(1)] by simp_all
  note defs = GetVersion_def CallSelf_def call_reply_def handle_SendVersion_def
  show "GetVersion E (Some t) = Ok None" if "bs = []"
  proof -
    have "GetGenesis E g t = Ok None"
      using chain_no_block_at [OF assms(2), of 0] that by (simp add: GetGenesis_def GetBlockByHeight_def block_at_def genesis_key_reads)
    then show ?thesis using assms(1) own_group [OF g] GetLastest_chain [OF assms(2)] that by (simp add: defs)
  qed
  show "\<exists>rootHash nowHash. Block_Hash E (hd bs) = Ok rootHash \<and> Block_Hash E (last bs) = Ok nowHash \<and>
      GetVersion E (Some t) =
        Ok (Some \<lparr>vGroup = g, vVersion = protocol_version, vHeight = int (length bs) - 1, vRootHash = rootHash, vNowHash = nowHash\<rparr>)"
    if bs: "bs \<noteq> []"
  proof -
    obtain rootHash nowHash where "Block_Hash E (hd bs) = Ok rootHash" "Block_Hash E (last bs) = Ok nowHash"
      using chain_hash [OF assms(2), of 0] chain_hash [OF assms(2), of "length bs - 1"] bs by (auto simp: hd_conv_nth last_conv_nth)
    then show ?thesis
      using assms(1) own_group [OF g] chain_genesis [OF assms(2) bs] GetLastest_chain [OF assms(2)] last_Height [OF assms(2) bs] bs
      by (simp add: defs)
  qed
qed

lemma register_net_ok:
  assumes "reachable_nodes (known N)"
  shows "\<exists>N'. register_net E rnd N = Ok N' \<and> reachable_nodes (known N') \<and> registered N'"
proof (cases "registered N")
  case True
  then show ?thesis using assms by (intro exI [of _ N]) (simp add: register_net_def network_Register_def)
next
  case False
  obtain kn where kn: "AddNode (ascii ''127.0.0.1:1111'') 0 0 (GroupNum E) (known N) = Ok kn"
    using AddNode_ok [OF reachable_ok [OF assms], of "ascii ''127.0.0.1:1111''" 0 0 "GroupNum E"] by blast
  then have r: "reachable_nodes kn" using reachable_nodes.add [OF assms] by blast
  obtain ps where "UpdateSortedNodes E rnd kn = Ok ps" using sorted_nodes_complete [OF go_ranges_axioms r] by blast
  then show ?thesis using False kn r by (simp add: register_net_def network_Register_def)
qed

end

section \<open>Properties\<close>

text \<open>
  Two ways of reading a chain agree: the blocks that \<^verbatim>\<open>print\<close> reads by their heights are those that the iterator visits along the
  hashes of the previous blocks, in the opposite order, none is missing, and the height shown is one less than their number.
\<close>

lemma print_matches_iteration:
  assumes "node_env E" and "chain_ok E g bs s" and "bs \<noteq> []" and "0 \<le> g" and "g < MaxGroupNum E"
  shows "\<exists>s' blocks shown. chain_blocks E g s = Ok blocks \<and> PrintCmd E g s = Ok ((int (length blocks) - 1, shown), s') \<and>
    shown = map (\<lambda>b. Some (b, length (Txns b))) (rev blocks) \<and> chain_ok E g (rev blocks) s'"
proof -
  obtain s' where s': "GetHeight E g s = Ok (int (length bs) - 1, s')" "chain_ok E g bs s'"
    using node_env.GetHeight_chain [OF assms(1,2)] by blast
  have "PrintCmd E g s = Ok ((int (length bs) - 1, map (\<lambda>b. Some (b, length (Txns b))) bs), s')"
    using node_env.own_group [OF assms(1,4,5)] s'(1) node_env.print_blocks_chain [OF assms(1) s'(2), of 0 "length bs"]
    by (simp add: PrintCmd_def)
  then show ?thesis using node_env.chain_blocks_chain [OF assms(1-3)] s'(2) by (intro exI [of _ s'] exI [of _ "rev bs"]) simp
qed

text \<open>
  \<^verbatim>\<open>get_version\<close> reports the chain of the node that listens on the own port, when there is one with a chain for the group of the address, and otherwise the
  chain of its own database; it fails only when neither has one.
\<close>

lemma get_version_reports:
  assumes "node_env E" and "GetGroup E = Ok g" and "reachable_nodes (known N)" and "chain_ok E g mine own"
    and "case server of None \<Rightarrow> theirs = [] | Some t \<Rightarrow> chain_ok E g theirs t"
  shows "case (if theirs = [] then mine else theirs) of
      [] \<Rightarrow> GetVersionCmd E rnd server own N = Exit
    | b # bs \<Rightarrow> \<exists>rootHash nowHash N'. Block_Hash E b = Ok rootHash \<and> Block_Hash E (last (b # bs)) = Ok nowHash \<and>
        GetVersionCmd E rnd server own N =
          Ok (\<lparr>vGroup = g, vVersion = protocol_version, vHeight = int (length bs), vRootHash = rootHash, vNowHash = nowHash\<rparr>, N')"
proof -
  obtain N1 where N1: "register_net E rnd N = Ok N1" "reachable_nodes (known N1)"
    using node_env.register_net_ok [OF assms(1,3)] by blast
  obtain N2 where N2: "register_net E rnd N1 = Ok N2" using node_env.register_net_ok [OF assms(1) N1(2)] by blast
  have none: "GetVersion E None = Ok None" by (simp add: GetVersion_def CallSelf_def)
  note chain = node_env.GetVersion_chain [OF assms(1,2)]
  show ?thesis
  proof (cases "theirs = []")
    case True
    then have "GetVersion E server = Ok None" using none chain(1) assms(5) by (cases server) auto
    then show ?thesis using True N1(1) N2 chain [OF assms(4)] by (cases mine) (auto simp: GetVersionCmd_def asking_def)
  next
    case False
    then obtain t where "server = Some t" "chain_ok E g theirs t" using assms(5) by (cases server) auto
    then show ?thesis using False N1(1) chain(2) [of theirs t] by (cases theirs) (auto simp: GetVersionCmd_def asking_def)
  qed
qed

text \<open>
  C25: \<^verbatim>\<open>send --mine\<close> between valid addresses stores one more verified block with the coinbase transaction and the new transaction, when
  the wallet can pay, some nonce is valid and no other process changes the chain.
\<close>

theorem send_mine_extends:
  assumes "node_env E" and "GetGroup E = Ok g" and "ValidateAddress E (Address E)" and "ValidateAddress E sendTo" and "reachable_nodes (known N)"
    and "serves E g bs s" and "bs \<noteq> []" and "length bs < 2 ^ 24"
    and "CreateTransaction E \<lparr>set_bc = g, set_group = g\<rparr> wallets rnd (Address E) sendTo sendAmount s = Ok (Inr (tx, None))"
    and "\<And>i t. serves E g bs t \<Longrightarrow> serves E g bs (mine_world M i t)"
    and "NewCoinbaseTxn randData (Address E) = Ok cbTx" and "NewTxnMerkleTree E [cbTx, tx] = Ok tree"
    and "next_target E g (last bs) s = Ok (Fin q)" and "b = next_block E M g bs [cbTx, tx] (mData tree) q" and "mineable b"
    and "mine_rnd M \<le> n" and "n < MaxInt64" and "Block_Verify E (b\<lparr>Nonce := n\<rparr>) = Ok True" and "pause_every (mine_speed M) \<noteq> 0"
    and "\<And>n b'. b' \<in> set bs \<Longrightarrow> Block_Hash E b' \<noteq> Block_Hash E (b\<lparr>Nonce := n\<rparr>)" and "named_inputs b"
  shows "\<exists>b' N' s'. SendCmd E M randData wallets rnd call self sendTo sendAmount True server (N, s) = Ok (False, None, N', s') \<and>
    Txns b' = [cbTx, tx] \<and> Block_Verify E b' = Ok True \<and> serves E g (bs @ [b']) s'"
proof -
  obtain N' where "register_net E rnd N = Ok N'" using node_env.register_net_ok [OF assms(1,5)] by blast
  moreover from node_env.send_mine_ok [OF assms(1,2,6-21)] obtain n' s' where "send_mine E M randData wallets rnd sendTo sendAmount s = Ok s'"
      "Block_Verify E (b\<lparr>Nonce := n'\<rparr>) = Ok True" "serves E g (bs @ [b\<lparr>Nonce := n'\<rparr>]) s'"
    by blast
  ultimately show ?thesis
    using assms(3,4,14) by (intro exI [of _ "b\<lparr>Nonce := n'\<rparr>"] exI [of _ N'] exI [of _ s']) (simp add: SendCmd_def next_block_def)
qed

subsection \<open>A node with one block\<close>

lemma sample_chain: "\<exists>s. chain_ok plain_env 0 [sample_genesis] s"
  using sample_miner_state by (auto simp: serves_def)

abbreviation no_net :: net where
  "no_net \<equiv> \<lparr>registered = False, known = [], sorted_nodes = []\<rparr>"

lemma zero_wallet:
  "GetAddress plain_env (NewWallet plain_env 0) = Address plain_env" "ValidateAddress plain_env (Address plain_env)"
proof -
  have "wPublicKey (NewWallet plain_env 0) = []" by (simp add: NewWallet_def newKeyPair_def ref_json_def Bytes_def to_digits.simps)
  then show addr: "GetAddress plain_env (NewWallet plain_env 0) = Address plain_env"
    by (simp add: GetAddress_def PublicKey_Hash_def checksum_def Let_def replicate_app_Cons_same numeral_eq_Suc)
  show "ValidateAddress plain_env (Address plain_env)"
    unfolding addr [symmetric] plain_node.ValidateAddress_iff plain_node.decoded_address by blast
qed

lemma funded_miner_state:
  "\<exists>s. serves plain_env 0 [sample_genesis] s \<and> funded w s \<and> next_target plain_env 0 sample_genesis s = Ok (Fin 1)"
proof -
  obtain s where s: "serves plain_env 0 [sample_genesis] s" "mempools s 0 = []" "next_target plain_env 0 sample_genesis s = Ok (Fin 1)"
    using sample_miner_state by auto
  let ?s = "s\<lparr>node_dbs := (\<lambda>name g.
     if g = 0 \<and> name = UTXOs then Some [(funding_hash w, marshal_outs plain_env (Vout (funding w)))]
     else if g = 0 \<and> name = Txns_db then Some [(funding_hash w, marshal_txn plain_env (funding w))]
     else node_dbs s name g)\<rparr>"
  have blocks: "node_Get plain_env name g k ?s = node_Get plain_env name g k s" if "name \<noteq> UTXOs" "name \<noteq> Txns_db" for name g k
    using that by (simp add: node_Get_def db_Get_def)
  then have "same_blocks plain_env 0 s ?s" by (simp add: same_blocks_def)
  from chain_ok_same_blocks [OF this] s(1) have "chain_ok plain_env 0 [sample_genesis] ?s" by (simp add: serves_def)
  moreover have "heads_ok plain_env 0 ?s" using s(1) blocks by (simp add: serves_def store_ok_def heads_ok_def)
  moreover have "set_ok plain_env \<lparr>set_bc = 0, set_group = 0\<rparr> ?s" by (auto simp: set_ok_def node_Get_def db_Get_def split: if_splits)
  moreover have "buckets_made 0 ?s" using s(1) by (auto simp: serves_def buckets_made_def)
  ultimately have "serves plain_env 0 [sample_genesis] ?s"
    using s(1) by (simp add: serves_def store_ok_def)
  moreover have "next_target plain_env 0 sample_genesis ?s = next_target plain_env 0 sample_genesis s"
    using blocks by (simp add: next_target_def GetBlockByHeight_def block_at_def)
  ultimately show ?thesis using s(2,3) by (intro exI [of _ ?s]) (simp add: funded_def)
qed

theorem send_mine_extends_witness:
  "\<exists>s b N' s'. serves plain_env 0 [sample_genesis] s \<and>
     SendCmd plain_env quiet_miner [1] (Some [Address plain_env \<mapsto> NewWallet plain_env 0]) (\<lambda>_. 0) (\<lambda>_. Ok None) [7] (Address plain_env) 30 True None
       (no_net, s) = Ok (False, None, N', s') \<and> length (Txns b) = 2 \<and> serves plain_env 0 [sample_genesis, b] s'"
proof -
  obtain s where s: "serves plain_env 0 [sample_genesis] s" "funded (NewWallet plain_env 0) s"
      "next_target plain_env 0 (last [sample_genesis]) s = Ok (Fin 1)"
    using funded_miner_state by auto
  have addr: "address_hash (Address plain_env) = Ok (replicate 20 0)" using zero_address by simp
  obtain tx where tx: "CreateTransaction plain_env \<lparr>set_bc = 0, set_group = 0\<rparr> (Some [Address plain_env \<mapsto> NewWallet plain_env 0]) (\<lambda>_. 0)
      (Address plain_env) (Address plain_env) 30 s = Ok (Inr (tx, None))" "\<forall>vin \<in> set (Vin tx). VoutHash vin \<noteq> []"
    using funded_transaction [OF s(2) addr addr] unfolding sample_set_def by blast
  obtain coinbase where coinbase: "NewCoinbaseTxn [1] (Address plain_env) = Ok coinbase" "IsCoinbase coinbase"
    using addr by (simp add: NewCoinbaseTxn_def NewTxnOutput_def IsCoinbase_def)
  obtain tree where tree: "NewTxnMerkleTree plain_env [coinbase, tx] = Ok tree"
    using NewMerkleTree_total [of "sha256 plain_env" "map (marshal_txn plain_env) [coinbase, tx]"] by (auto simp: NewTxnMerkleTree_def)
  define b where "b = next_block plain_env quiet_miner 0 [sample_genesis] [coinbase, tx] (mData tree) 1"
  have verify: "Block_Verify plain_env (b\<lparr>Nonce := 5\<rparr>) = Ok True"
    by (rule plain_node.easy_block_verifies) (simp add: b_def next_block_def)
  have "Block_Hash plain_env sample_genesis \<noteq> Block_Hash plain_env (b\<lparr>Nonce := n\<rparr>)" for n
    using plain_block_hash [of sample_genesis 1] plain_block_hash [of "b\<lparr>Nonce := n\<rparr>" 1]
    by (auto simp: b_def next_block_def sample_genesis_def enc_int_def enc_nat_def to_digits.simps enc_digit_def)
  then have fresh: "Block_Hash plain_env b' \<noteq> Block_Hash plain_env (b\<lparr>Nonce := n\<rparr>)" if "b' \<in> set [sample_genesis]" for n b'
    using that by simp
  have b: "named_inputs b" "mineable b" using coinbase(2) tx(2) by (simp_all add: b_def next_block_def named_inputs_def mineable_def)
  have net: "reachable_nodes (known no_net)" by (simp add: reachable_nodes.start)
  have bs: "[sample_genesis] \<noteq> []" "length [sample_genesis] < 2 ^ 24" by simp_all
  have world: "serves plain_env 0 [sample_genesis] t \<Longrightarrow> serves plain_env 0 [sample_genesis] (mine_world quiet_miner i t)" for i t
    by (simp add: quiet_miner_def)
  have miner: "mine_rnd quiet_miner \<le> 5" "(5 :: int) < MaxInt64" "pause_every (mine_speed quiet_miner) \<noteq> 0"
    by (simp_all add: quiet_miner_def MaxInt64_def pause_every_def i64_id)
  from send_mine_extends [OF plain_node.node_env_axioms plain_group zero_wallet(2) zero_wallet(2) net s(1) bs tx(1) world coinbase(1) tree s(3)
      b_def b(2) miner(1,2) verify miner(3) fresh b(1), of "\<lambda>_. Ok None" "[7]" None]
  obtain b' N' s' where "SendCmd plain_env quiet_miner [1] (Some [Address plain_env \<mapsto> NewWallet plain_env 0]) (\<lambda>_. 0) (\<lambda>_. Ok None) [7]
        (Address plain_env) 30 True None (no_net, s) = Ok (False, None, N', s')"
      "Txns b' = [coinbase, tx]" "serves plain_env 0 ([sample_genesis] @ [b']) s'"
    by blast
  then show ?thesis using s(1) by (intro exI [of _ s] exI [of _ b'] exI [of _ N'] exI [of _ s']) simp
qed

end
