(* ===== verification/Set_Equivalence.thy ===== *)
theory Set_Equivalence
  imports Node_Network
begin

text \<open>
  Two ways to the same set of unspent outputs: \<^verbatim>\<open>Update\<close>, block by block as blocks arrive, and \<^verbatim>\<open>Reindex\<close>, from the whole stored chain (both
  \<^verbatim>\<open>core/utxo_set.go\<close>). The first goes by keys, the second by indices; on histories where the two name the same outputs they
  agree.
\<close>

section \<open>What updating leaves of an entry\<close>

text \<open>An entry without outputs is not stored.\<close>

definition entry :: "TxnOutput list \<Rightarrow> TxnOutput list option" where
  "entry outs = (if outs = [] then None else Some outs)"

text \<open>No input that names the transaction with hash \<open>h\<close> has a key that opens the output.\<close>

definition locked_by_none :: "'z crypto_scheme \<Rightarrow> Transaction list \<Rightarrow> HashValue \<Rightarrow> TxnOutput \<Rightarrow> bool" where
  "locked_by_none E ts h out \<longleftrightarrow>
     (\<forall>t \<in> set ts. \<not> IsCoinbase t \<longrightarrow> (\<forall>vin \<in> set (Vin t). VoutHash vin = h \<longrightarrow> \<not> IsLockedWithKey E out (PubKey vin)))"

lemma spend_entry:
  assumes "spend E us vin u = Some u'" and "u h = entry outs"
  shows "u' h = entry (filter (\<lambda>out. VoutHash vin = h \<longrightarrow> \<not> IsLockedWithKey E out (PubKey vin)) outs)"
proof (cases "u (VoutHash vin)")
  case None
  then have "u' = u" using assms(1) by (simp add: spend_def split: if_splits)
  then show ?thesis using assms(2) None by (cases "VoutHash vin = h") (auto simp: entry_def split: if_splits)
next
  case (Some old)
  show ?thesis
  proof (cases "VoutHash vin = h")
    case True
    then have "old = outs" using Some assms(2) by (simp add: entry_def split: if_splits)
    then show ?thesis using assms(1) Some True by (auto simp: spend_def Let_def entry_def)
  next
    case False
    then show ?thesis using assms Some by (auto simp: spend_def Let_def)
  qed
qed

lemma spend_all_entry:
  assumes "spend_all E us vins u = Some u'" and "u h = entry outs"
  shows "u' h = entry (filter (\<lambda>out. \<forall>vin \<in> set vins. VoutHash vin = h \<longrightarrow> \<not> IsLockedWithKey E out (PubKey vin)) outs)"
  using assms
proof (induction vins arbitrary: u outs)
  case (Cons vin vins)
  obtain v where v: "spend E us vin u = Some v" "spend_all E us vins v = Some u'"
    using Cons.prems(1) by (cases "spend E us vin u") auto
  show ?case using Cons.IH [OF v(2) spend_entry [OF v(1) Cons.prems(2)]] by (simp add: conj_commute)
qed simp

lemma apply_txns_entry:
  assumes "apply_txns E us ts u = Some u'" and "u h = entry outs" and "h \<notin> Transaction_Hash E ` set ts"
  shows "u' h = entry (filter (locked_by_none E ts h) outs)"
  using assms
proof (induction ts arbitrary: u outs)
  case Nil
  then show ?case by (simp add: locked_by_none_def)
next
  case (Cons t ts)
  define a where "a = (if IsCoinbase t then Some u else spend_all E us (Vin t) u)"
  obtain v where v: "a = Some v" "apply_txns E us ts (v(Transaction_Hash E t \<mapsto> Vout t)) = Some u'"
    using Cons.prems(1) by (cases a) (auto simp: a_def split: if_splits)
  let ?P = "\<lambda>out. IsCoinbase t \<or> (\<forall>vin \<in> set (Vin t). VoutHash vin = h \<longrightarrow> \<not> IsLockedWithKey E out (PubKey vin))"
  have "v h = entry (filter ?P outs)"
    using v(1) Cons.prems(2) spend_all_entry [of E us "Vin t" u v h outs] by (auto simp: a_def split: if_splits)
  then have "u' h = entry (filter (locked_by_none E ts h) (filter ?P outs))"
    using Cons.prems(3) by (intro Cons.IH [OF v(2)]) auto
  also have "filter (locked_by_none E ts h) (filter ?P outs) = filter (locked_by_none E (t # ts) h) outs"
    by (auto simp: locked_by_none_def intro!: filter_cong)
  finally show ?case .
qed

lemma apply_txns_append:
  "apply_txns E us (ts @ ts') u = Option.bind (apply_txns E us ts u) (apply_txns E us ts')"
proof (induction ts arbitrary: u)
  case (Cons t ts)
  then show ?case by (cases "if IsCoinbase t then Some u else spend_all E us (Vin t) u") (simp_all add: bind_assoc del: fun_upd_apply)
qed simp

lemma apply_txns_at:
  assumes "apply_txns E us (pre @ t # post) u = Some u'" and "Transaction_Hash E t \<notin> Transaction_Hash E ` set post" and "Vout t \<noteq> []"
  shows "u' (Transaction_Hash E t) = entry (filter (locked_by_none E post (Transaction_Hash E t)) (Vout t))"
proof -
  obtain v where "apply_txns E us post (v(Transaction_Hash E t \<mapsto> Vout t)) = Some u'"
    using assms(1) by (auto simp: apply_txns_append bind_eq_Some_conv)
  from apply_txns_entry [OF this _ assms(2), of "Vout t"] show ?thesis using assms(3) by (simp add: entry_def)
qed

section \<open>Histories on which indices and keys agree\<close>

text \<open>
  Every input that names an output of the chain names the one output of its transaction that its key opens, and not one of its own
  block. \<^verbatim>\<open>Update\<close> goes by the key and \<^verbatim>\<open>FindUTXO\<close> by the index, and \<^verbatim>\<open>FindUTXO\<close> reads a block forwards.
\<close>

definition names_own_output :: "'z crypto_scheme \<Rightarrow> TxnInput \<Rightarrow> Transaction \<Rightarrow> bool" where
  "names_own_output E vin t \<longleftrightarrow> (\<forall>i < length (Vout t). IsLockedWithKey E (Vout t ! i) (PubKey vin) \<longleftrightarrow> int i = VoutIndex vin)"

definition clear_history :: "'z json_scheme \<Rightarrow> Block list \<Rightarrow> bool" where
  "clear_history E bs \<longleftrightarrow>
     distinct (map (Transaction_Hash E) (concat (map Txns bs))) \<and>
     (\<forall>t \<in> set (concat (map Txns bs)). Vout t \<noteq> []) \<and>
     (\<forall>b \<in> set bs. \<forall>t \<in> set (Txns b). \<not> IsCoinbase t \<longrightarrow> (\<forall>vin \<in> set (Vin t).
        (\<forall>t' \<in> set (concat (map Txns bs)). Transaction_Hash E t' = VoutHash vin \<longrightarrow> names_own_output E vin t') \<and>
        (\<forall>t' \<in> set (Txns b). Transaction_Hash E t' \<noteq> VoutHash vin)))"

lemma unspent_by_keys:
  assumes "\<forall>t' \<in> set ts. \<not> IsCoinbase t' \<longrightarrow> (\<forall>vin \<in> set (Vin t'). VoutHash vin = Transaction_Hash E t \<longrightarrow> names_own_output E vin t)"
  shows "unspent_of (HashValue_String (Transaction_Hash E t)) (spent_pairs ts) (Vout t) =
    filter (locked_by_none E ts (Transaction_Hash E t)) (Vout t)"
proof -
  let ?h = "Transaction_Hash E t" and ?P = "locked_by_none E ts (Transaction_Hash E t)"
  have "(HashValue_String ?h, int i) \<in> spent_pairs ts \<longleftrightarrow> \<not> ?P (Vout t ! i)" if i: "i < length (Vout t)" for i
  proof -
    have "(HashValue_String ?h, int i) \<in> spent_pairs ts \<longleftrightarrow>
        (\<exists>t' \<in> set ts. \<not> IsCoinbase t' \<and> (\<exists>vin \<in> set (Vin t'). VoutHash vin = ?h \<and> VoutIndex vin = int i))"
      by (simp add: spent_pairs_def image_iff) metis
    also have "\<dots> \<longleftrightarrow> (\<exists>t' \<in> set ts. \<not> IsCoinbase t' \<and> (\<exists>vin \<in> set (Vin t'). VoutHash vin = ?h \<and> IsLockedWithKey E (Vout t ! i) (PubKey vin)))"
      using assms i unfolding names_own_output_def by metis
    finally show ?thesis by (auto simp: locked_by_none_def)
  qed
  then have "filter (\<lambda>(i, out). (HashValue_String ?h, int i) \<notin> spent_pairs ts) (enumerate 0 (Vout t)) =
      filter (\<lambda>(i, out). ?P out) (enumerate 0 (Vout t))"
    by (intro filter_cong) (auto simp: in_set_enumerate_eq)
  moreover have "map snd (filter (\<lambda>(i, out). ?P out) (enumerate n outs)) = filter ?P outs" for n outs
    by (induction outs arbitrary: n) auto
  ultimately show ?thesis by (simp add: unspent_of_def)
qed

section \<open>The two ways agree\<close>

lemma locked_by_none_append [simp]: "locked_by_none E (ts @ ts') h out \<longleftrightarrow> locked_by_none E ts h out \<and> locked_by_none E ts' h out"
  by (auto simp: locked_by_none_def)

lemma locked_by_none_rev [simp]: "locked_by_none E (concat (map Txns (rev bs))) h out \<longleftrightarrow> locked_by_none E (concat (map Txns bs)) h out"
  by (simp add: locked_by_none_def)

context node_env
begin

lemma update_all:
  assumes "set_ok E us s" and "apply_txns E us (concat (map Txns bs)) (uset_of E us s) = Some u"
  shows "\<exists>s'. ofold (Update E us) bs s = Ok s' \<and> uset_of E us s' = u \<and> set_ok E us s' \<and> keeps_node E us s s'"
  using assms
proof (induction bs arbitrary: s)
  case (Cons b bs)
  obtain v where v: "apply_txns E us (Txns b) (uset_of E us s) = Some v" "apply_txns E us (concat (map Txns bs)) v = Some u"
    using Cons.prems(2) by (auto simp: apply_txns_append bind_eq_Some_conv)
  obtain s1 where s1: "Update E us b s = Ok s1" "uset_of E us s1 = v" "set_ok E us s1" "keeps_node E us s s1"
    using Update_refines_ok [OF Cons.prems(1) v(1)] by blast
  then show ?case using Cons.IH [OF s1(3)] v(2) keeps_node_trans by fastforce
qed simp

lemma found_matches_updates:
  assumes "chain_ok E g bs s" and "bs \<noteq> []" and "clear_history E bs"
    and "apply_txns E us (concat (map Txns bs)) Map.empty = Some u"
  shows "\<exists>utxos. FindUTXO E g s = Ok utxos \<and> (\<forall>h. map_of utxos (HashValue_String h) = u h)"
proof -
  let ?ts = "concat (map Txns bs)" and ?scan = "concat (map Txns (rev bs))"
  have find: "FindUTXO E g s = Ok (fst (fold (scan_txn E) ?scan ([], [])))"
    using chain_blocks_chain [OF assms(1,2)] by (simp add: FindUTXO_def)
  have dist: "distinct (map (Transaction_Hash E) ?ts)" using assms(3) by (simp add: clear_history_def)
  have "map_of (fst (fold (scan_txn E) ?scan ([], []))) (HashValue_String h) = u h" for h
  proof (cases "h \<in> Transaction_Hash E ` set ?ts")
    case False
    then have "u h = None" using apply_txns_entry [OF assms(4), where h = h and outs = "[]"] by (simp add: entry_def)
    moreover have "map_of (fst (fold (scan_txn E) ?scan ([], []))) (HashValue_String h) = None"
      using False scan_other [of ?scan E "HashValue_String h" "[]" "[]"] by auto
    ultimately show ?thesis by simp
  next
    case True
    then obtain b t where bt: "b \<in> set bs" "t \<in> set (Txns b)" "h = Transaction_Hash E t" by auto
    obtain bs1 bs2 where bs: "bs = bs1 @ b # bs2" using bt(1) by (meson split_list)
    obtain x y where x: "Txns b = x @ t # y" using bt(2) by (meson split_list)
    let ?post = "y @ concat (map Txns bs2)" and ?before = "concat (map Txns (rev bs2)) @ x"
    have ts: "?ts = (concat (map Txns bs1) @ x) @ t # ?post" and scan: "?scan = ?before @ t # (y @ concat (map Txns (rev bs1)))"
      by (simp_all add: bs x)
    have "Transaction_Hash E t \<notin> Transaction_Hash E ` (set (concat (map Txns bs1) @ x) \<union> set ?post)"
      using dist unfolding ts by auto
    then have ne: "Transaction_Hash E t' \<noteq> Transaction_Hash E t" if "t' \<in> set (concat (map Txns bs1) @ x) \<union> set ?post" for t'
      using that by (metis imageI)
    have other: "h \<notin> Transaction_Hash E ` set ?post"
    proof
      assume "h \<in> Transaction_Hash E ` set ?post"
      then obtain t' where "t' \<in> set ?post" "h = Transaction_Hash E t'" by blast
      then show False using ne [of t'] bt(3) by simp
    qed
    have rest: "\<forall>t' \<in> set ?before \<union> set (y @ concat (map Txns (rev bs1))). Transaction_Hash E t' \<noteq> Transaction_Hash E t"
      by (intro ballI ne) auto
    have names: "\<forall>t' \<in> set (Txns b). \<not> IsCoinbase t' \<longrightarrow> (\<forall>vin \<in> set (Vin t'). Transaction_Hash E t \<noteq> VoutHash vin)"
      using assms(3) bt(1,2) unfolding clear_history_def by blast
    then have all: "locked_by_none E (Txns b) h out" for out unfolding locked_by_none_def bt(3) by metis
    have own: "locked_by_none E x h out" "locked_by_none E y h out" for out using all [of out] by (auto simp: x locked_by_none_def)
    have "u h = entry (filter (locked_by_none E ?post h) (Vout t))"
      using apply_txns_at [OF assms(4) [unfolded ts]] other assms(3) by (simp add: clear_history_def ts bt(3))
    also have "filter (locked_by_none E ?post h) (Vout t) = filter (locked_by_none E ?before h) (Vout t)"
      using own by (intro filter_cong) simp_all
    also have "\<dots> = unspent_of (HashValue_String h) (spent_pairs ?before) (Vout t)"
    proof -
      have "\<forall>t' \<in> set ?before. \<not> IsCoinbase t' \<longrightarrow> (\<forall>vin \<in> set (Vin t'). VoutHash vin = Transaction_Hash E t \<longrightarrow> names_own_output E vin t)"
      proof (intro ballI impI)
        fix t' vin
        assume t': "t' \<in> set ?before" "\<not> IsCoinbase t'" "vin \<in> set (Vin t')" "VoutHash vin = Transaction_Hash E t"
        then have "\<exists>b' \<in> set bs. t' \<in> set (Txns b')" by (auto simp: bs x)
        then obtain b' where "b' \<in> set bs" "t' \<in> set (Txns b')" by blast
        moreover have "t \<in> set ?ts" using bt by auto
        ultimately show "names_own_output E vin t" using assms(3) t'(2-4) unfolding clear_history_def by metis
      qed
      then show ?thesis unfolding bt(3) by (rule unspent_by_keys [symmetric])
    qed
    finally have "u h = entry (unspent_of (HashValue_String h) (spent_pairs ?before) (Vout t))" .
    then show ?thesis using scan_at [OF rest] unfolding scan bt(3) by (simp add: entry_def Let_def)
  qed
  then show ?thesis using find by blast
qed

end

section \<open>Properties\<close>

text \<open>
  C6: on a clear history, updating block by block and rebuilding give the same set. The history of a chain is clear when no two of its transactions
  have the same hash, each has an output, and every input names the one output that its key opens, in a transaction outside its own block. If moreover
  every update finds what it spends, \<^verbatim>\<open>Update\<close> of every block in turn, from an empty set, returns and leaves the set that
  \<^verbatim>\<open>Reindex\<close> computes from the stored chain. Without these conditions the two sets may differ: an update
  takes every output that the key of an input opens, and a rebuild keeps outputs that are spent inside their own block.
\<close>

theorem rebuild_matches_updates:
  assumes "node_env E" and "chain_ok E g bs s" and "bs \<noteq> []" and "clear_history E bs"
    and "set_ok E \<lparr>set_bc = g, set_group = g\<rparr> t" and "uset_of E \<lparr>set_bc = g, set_group = g\<rparr> t = Map.empty"
    and "apply_txns E \<lparr>set_bc = g, set_group = g\<rparr> (concat (map Txns bs)) Map.empty \<noteq> None"
  shows "\<exists>t' s'. ofold (Update E \<lparr>set_bc = g, set_group = g\<rparr>) bs t = Ok t' \<and> Reindex E \<lparr>set_bc = g, set_group = g\<rparr> s = Ok s' \<and>
    uset_of E \<lparr>set_bc = g, set_group = g\<rparr> t' = uset_of E \<lparr>set_bc = g, set_group = g\<rparr> s'"
proof -
  let ?us = "\<lparr>set_bc = g, set_group = g\<rparr>"
  obtain u where u: "apply_txns E ?us (concat (map Txns bs)) Map.empty = Some u" using assms(7) by blast
  obtain t' where t': "ofold (Update E ?us) bs t = Ok t'" "uset_of E ?us t' = u"
    using node_env.update_all [OF assms(1,5), of bs u] u assms(6) by auto
  obtain utxos s' where s': "FindUTXO E g s = Ok utxos" "Reindex E ?us s = Ok s'" "\<forall>h. uset_of E ?us s' h = map_of utxos (HashValue_String h)"
    using node_env.Reindex_ok [OF assms(1), of ?us bs s] assms(2,3) by auto
  moreover have "\<forall>h. map_of utxos (HashValue_String h) = u h"
    using node_env.found_matches_updates [OF assms(1-4) u] s'(1) by auto
  ultimately show ?thesis using t' by (intro exI [of _ t'] exI [of _ s']) (auto simp: fun_eq_iff)
qed

subsection \<open>A coin that is spent once\<close>

definition spend_block :: Block where
  "spend_block = coinbase_block\<lparr>Height := 1, PrevHash := tip_hash plain_env [] [coinbase_block], Txns := [sample_spend]\<rparr>"

lemma spend_chain: "\<exists>s. chain_ok plain_env 0 [coinbase_block, spend_block] s"
proof -
  have "Block_Hash plain_env coinbase_block \<noteq> Block_Hash plain_env spend_block"
    using plain_block_hash [of coinbase_block 1] plain_block_hash [of spend_block 1]
    by (auto simp: spend_block_def coinbase_block_def sample_genesis_def enc_int_def enc_nat_def to_digits.simps enc_digit_def)
  then have "continue_all plain_env 0 [] [coinbase_block, spend_block]"
    by (simp add: continues_def) (simp add: spend_block_def coinbase_block_def sample_genesis_def)
  moreover have "chain_ok plain_env 0 [] fresh_node" "store_ok plain_env 0 fresh_node"
    using plain_node.fresh_serves [of 0] by (simp_all add: serves_def)
  ultimately show ?thesis using plain_node.append_all [of 0 "[]" fresh_node "[coinbase_block, spend_block]"] by auto
qed

theorem rebuild_matches_updates_witness:
  "\<exists>s t' s'. chain_ok plain_env 0 [coinbase_block, spend_block] s \<and> ofold (Update plain_env sample_set) [coinbase_block, spend_block] empty_node = Ok t' \<and>
     Reindex plain_env sample_set s = Ok s' \<and> uset_of plain_env sample_set t' = uset_of plain_env sample_set s'"
proof -
  obtain s where s: "chain_ok plain_env 0 [coinbase_block, spend_block] s" using spend_chain by blast
  have txns: "concat (map Txns [coinbase_block, spend_block]) = [sample_coinbase, sample_spend]"
    by (simp add: spend_block_def coinbase_block_def)
  have vin: "Vin sample_spend = [\<lparr>VoutHash = Transaction_Hash plain_env sample_coinbase, VoutIndex = 0, VoutValue = 50, Signature = [], PubKey = [1]\<rparr>]"
    "Vout sample_coinbase = [\<lparr>Value = 50, PubKeyHash = PublicKey_Hash plain_env [1]\<rparr>]" "Vout sample_spend \<noteq> []"
    by (simp_all add: sample_spend_def sample_coinbase_def)
  have "clear_history plain_env [coinbase_block, spend_block]"
    using sample_hashes sample_hashes [symmetric] sample_coinbase_is vin unfolding clear_history_def txns
    by (simp add: spend_block_def coinbase_block_def names_own_output_def IsLockedWithKey_def HashValue_Equal_def)
  moreover have "apply_txns plain_env us (concat (map Txns [coinbase_block, spend_block])) Map.empty \<noteq> None" for us
    unfolding txns using sample_coinbase_is vin by (simp add: spend_def)
  ultimately show ?thesis
    using rebuild_matches_updates [OF plain_node.node_env_axioms s] empty_set s unfolding sample_set_def by blast
qed

end
