(* ===== verification/Reachable_Network.thy ===== *)
theory Reachable_Network
  imports Mining_Round
begin

text \<open>
  A network of nodes with settings of their own: they create and mine blocks, hand them on, answer each other's requests and synchronise, one step at a
  time. The steps are a relation on the states of the nodes and the set of all blocks ever mined; its reachable states are shown to be well formed.
\<close>

section \<open>The settings of a node\<close>

text \<open>
  The nodes of a network run the same program with the same database, digests and number of groups; each has its own address and number of groups that it
  serves, and visits its maps in its own order. What a node serves, and what a peer of it answers, does not depend on these.
\<close>

definition same_protocol :: "('k, 'z) env_scheme \<Rightarrow> ('k, 'z) env_scheme \<Rightarrow> bool" where
  "same_protocol E E' \<longleftrightarrow> E' = E\<lparr>GroupNum := GroupNum E', Address := Address E', range_perm := range_perm E'\<rparr>"

lemma Block_Hash_settings: "Block_Hash (E\<lparr>GroupNum := n, Address := a, range_perm := p\<rparr>) b = Block_Hash E b"
  by (simp add: Block_Hash_def BlockHeader_Hash_def)

lemma linked_settings: "linked (E\<lparr>GroupNum := n, Address := a, range_perm := p\<rparr>) h bs = linked E h bs"
  by (induction bs arbitrary: h) (simp_all add: Block_Hash_settings)

lemma tip_hash_settings: "tip_hash (E\<lparr>GroupNum := n, Address := a, range_perm := p\<rparr>) h bs = tip_hash E h bs"
  by (induction bs arbitrary: h) (simp_all add: Block_Hash_settings)

lemma node_Get_settings: "node_Get (E\<lparr>GroupNum := n, Address := a, range_perm := p\<rparr>) name g k s = node_Get E name g k s"
  by (simp add: node_Get_def db_Get_def split: option.split)

lemma serves_settings: "serves (E\<lparr>GroupNum := n, Address := a, range_perm := p\<rparr>) g bs s = serves E g bs s"
  by (simp add: serves_def chain_ok_def block_stored_def lastest_stored_def store_ok_def heads_ok_def set_ok_def pool_ok_def txn_key_def
      Transaction_Hash_def Block_Verify_def node_Get_settings Block_Hash_settings linked_settings)

lemma same_protocol_serves: "same_protocol E E' \<Longrightarrow> serves E' g bs s = serves E g bs s"
  unfolding same_protocol_def by (metis serves_settings)

lemma same_protocol_chain: "same_protocol E E' \<Longrightarrow> chain_ok E' g bs s = chain_ok E g bs s"
proof -
  have "chain_ok (E\<lparr>GroupNum := n, Address := a, range_perm := p\<rparr>) g bs s = chain_ok E g bs s" for n a p
    by (simp add: chain_ok_def block_stored_def lastest_stored_def node_Get_settings Block_Hash_settings linked_settings)
  then show "same_protocol E E' \<Longrightarrow> ?thesis" unfolding same_protocol_def by metis
qed

lemma same_protocol_peer: "same_protocol E E' \<Longrightarrow> peer_serves E' P g bs = peer_serves E P g bs \<and> peer_chain E' P g bs = peer_chain E P g bs"
proof -
  have "peer_serves (E\<lparr>GroupNum := n, Address := a, range_perm := p\<rparr>) P g bs = peer_serves E P g bs \<and>
      peer_chain (E\<lparr>GroupNum := n, Address := a, range_perm := p\<rparr>) P g bs = peer_chain E P g bs" for n a p
    by (simp add: peer_serves_def peer_chain_def Block_Hash_settings tip_hash_settings)
  then show "same_protocol E E' \<Longrightarrow> ?thesis" unfolding same_protocol_def by metis
qed

lemma same_protocol_hash: "same_protocol E E' \<Longrightarrow> Block_Hash E' = Block_Hash E"
proof -
  have "Block_Hash (E\<lparr>GroupNum := n, Address := a, range_perm := p\<rparr>) = Block_Hash E" for n a p by (simp add: fun_eq_iff Block_Hash_settings)
  then show "same_protocol E E' \<Longrightarrow> ?thesis" unfolding same_protocol_def by metis
qed

lemma same_protocol_max: "same_protocol E E' \<Longrightarrow> MaxGroupNum E' = MaxGroupNum E"
proof -
  have "MaxGroupNum (E\<lparr>GroupNum := n, Address := a, range_perm := p\<rparr>) = MaxGroupNum E" for n a p by simp
  then show "same_protocol E E' \<Longrightarrow> ?thesis" unfolding same_protocol_def by metis
qed

section \<open>Blocks and chains\<close>

text \<open>
  \<open>H\<close> is the set of the blocks ever mined. They name the inputs of their transactions, do not collide within a group, and each group has one first block.
  The heights stay in the range in which the database distinguishes them. A node is well formed when it serves a chain of such blocks for every group.
\<close>

definition sound_history :: "'z json_scheme \<Rightarrow> Block set \<Rightarrow> bool" where
  "sound_history E H \<longleftrightarrow> inj_on (\<lambda>b. (Group b, Block_Hash E b)) H \<and> (\<forall>b \<in> H. named_inputs b \<and> Height b < 2 ^ 24) \<and>
     (\<forall>b \<in> H. \<forall>b' \<in> H. Group b = Group b' \<and> Height b = 0 \<and> Height b' = 0 \<longrightarrow> b = b')"

definition node_ok :: "('k, 'z) env_scheme \<Rightarrow> Block set \<Rightarrow> 'k node \<Rightarrow> bool" where
  "node_ok E H s \<longleftrightarrow> (\<forall>g. 0 \<le> g \<longrightarrow> g < MaxGroupNum E \<longrightarrow> (\<exists>bs. serves E g bs s \<and> set bs \<subseteq> H))"

lemma sound_history_subset: "sound_history E H' \<Longrightarrow> H \<subseteq> H' \<Longrightarrow> sound_history E H"
  unfolding sound_history_def by (meson inj_on_subset subsetD)

lemma sound_history_hash:
  "sound_history E H \<Longrightarrow> b \<in> H \<Longrightarrow> b' \<in> H \<Longrightarrow> Group b = Group b' \<Longrightarrow> Block_Hash E b = Block_Hash E b' \<Longrightarrow> b = b'"
  unfolding sound_history_def by (auto dest: inj_onD)

lemma sound_history_first:
  "sound_history E H \<Longrightarrow> b \<in> H \<Longrightarrow> b' \<in> H \<Longrightarrow> Group b = Group b' \<Longrightarrow> Height b = 0 \<Longrightarrow> Height b' = 0 \<Longrightarrow> b = b'"
  unfolding sound_history_def by simp

lemma same_protocol_history:
  assumes "same_protocol E E'"
  shows "sound_history E' H = sound_history E H"
  unfolding sound_history_def same_protocol_hash [OF assms] ..

lemma node_ok_mono: "node_ok E H s \<Longrightarrow> H \<subseteq> H' \<Longrightarrow> node_ok E H' s"
  unfolding node_ok_def by (meson order_trans)

lemma node_ok_keeps: "node_ok E H s \<Longrightarrow> keeps_chains E s s' \<Longrightarrow> node_ok E H s'"
  unfolding node_ok_def keeps_chains_def by meson

lemma node_ok_change:
  assumes "node_ok E H s" and "confined g s s'" and "serves E g bs s'" and "set bs \<subseteq> H"
  shows "node_ok E H s'"
  unfolding node_ok_def
proof (intro allI impI)
  fix g' :: int
  assume "0 \<le> g'" "g' < MaxGroupNum E"
  then show "\<exists>bs. serves E g' bs s' \<and> set bs \<subseteq> H"
    using assms(1,3,4) serves_frame [OF assms(2), of g' E] by (cases "g' = g") (auto simp: node_ok_def)
qed

context node_env
begin

lemma node_ok_chain:
  assumes "node_ok E H s" and "chain_ok E g bs s" and "0 \<le> g" and "g < MaxGroupNum E"
  shows "serves E g bs s" and "set bs \<subseteq> H"
  using assms serves_chain unfolding node_ok_def by metis+

text \<open>Two chains of mined blocks do not collide and begin with the same block.\<close>

lemma chains_meet:
  assumes "sound_history E H" and "serves E g xs s" and "serves E g ys t" and "set xs \<subseteq> H" and "set ys \<subseteq> H"
  shows "no_collision E xs ys" and "xs = [] \<or> ys = [] \<or> hd xs = hd ys"
proof -
  have group: "Group b = g" if "b \<in> set xs \<union> set ys" for b using that assms(2,3) by (auto simp: serves_def sound_blocks_def)
  have "b = b'" if "b \<in> set xs" "b' \<in> set ys" "Block_Hash E b = Block_Hash E b'" for b b'
    by (rule sound_history_hash [OF assms(1)]) (use that assms(4,5) group in auto)
  then show "no_collision E xs ys" by (simp add: no_collision_def)
  have first: "Height (hd bs) = 0" if "serves E g bs u" "bs \<noteq> []" for bs u
  proof -
    have "Height (bs ! 0) = int 0" using that unfolding serves_def chain_ok_def by blast
    then show ?thesis using that(2) by (simp add: hd_conv_nth)
  qed
  show "xs = [] \<or> ys = [] \<or> hd xs = hd ys"
  proof (cases "xs = [] \<or> ys = []")
    case False
    then have ne: "xs \<noteq> []" "ys \<noteq> []" by simp_all
    have "hd xs = hd ys"
      by (rule sound_history_first [OF assms(1)]) (use ne assms(4,5) group first [OF assms(2)] first [OF assms(3)] in auto)
    then show ?thesis by simp
  qed auto
qed

lemma sync_keeps:
  assumes H: "sound_history E H" and mine: "serves E g mine s" "set mine \<subseteq> H"
    and other: "serves E g other t" "set other \<subseteq> H" "other \<noteq> []" "peer_serves E P g other"
    and net: "registered N" "reachable_peer E (sorted_nodes N)" and g: "0 \<le> g" "g < MaxGroupNum E"
  shows "\<exists>s'. Sync E P rnd g (N, s) = Ok (N, s') \<and> serves E g (longer mine other) s' \<and> confined g s s'"
  using serves_Sync [OF mine(1) other(1,3) _ other(4) _ net g] chains_meet [OF H mine(1) other(1) mine(2) other(2)] other(3) by blast

text \<open>The first blocks of a chain are a chain of their own.\<close>

lemma prefix_chain:
  assumes "chain_ok E g bs t" and "sound_blocks g bs" and "0 \<le> g" and "g < MaxGroupNum E"
  shows "\<exists>t'. chain_ok E g (take n bs) t'"
proof -
  have prefix: "continue_all E g ps (xs @ ys) \<Longrightarrow> continue_all E g ps xs" for ps xs ys by (induction xs arbitrary: ps) auto
  have "continue_all E g [] (take n bs @ drop n bs)" using chain_continues [of g "[]" bs t] assms(1,2) by simp
  then have "continue_all E g [] (take n bs)" by (rule prefix)
  moreover have "chain_ok E g [] fresh_node" "store_ok E g fresh_node" using fresh_serves [of g] by (simp_all add: serves_def)
  ultimately show ?thesis using append_all [OF _ _ _ assms(3,4)] by fastforce
qed

text \<open>
  A block that was mined somewhere arrives, and meanwhile another node answers whose chain is long enough; it may have gone on.
\<close>

lemma block_keeps:
  assumes H: "sound_history E H" "b \<in> H" "sound_blocks (Group b) [b]" and mine: "node_ok E H s"
    and other: "serves E (Group b) other t" "set other \<subseteq> H" "Height b < int (length other)"
    and peer: "peer_serves E P (Group b) other" "\<And>n. n \<le> length other \<Longrightarrow> peer_chain E P (Group b) (take n other)"
    and net: "registered N" "reachable_peer E (sorted_nodes N)"
    and r: "handle_GossipBlock E P rnd b sender excepted (N, s) = Ok (msgs, N', s')" and num: "GroupNum E \<le> MaxGroupNum E"
  shows "node_ok E H s'"
proof (cases "own_groups E (Group b) = Ok True")
  case own: True
  let ?g = "Group b"
  note g = own_groups_range [OF own num]
  obtain bs where bs: "serves E ?g bs s" "set bs \<subseteq> H" using mine g unfolding node_ok_def by blast
  then have chain: "chain_ok E ?g bs s" by (simp add: serves_def)
  show ?thesis
  proof (cases "int (length bs) \<le> Height b")
    case False
    then show ?thesis using GossipBlock_below [OF r chain _ num] mine by simp
  next
    case high: True
    note cases = GossipBlock_cases [OF r chain refl own g high]
    have "other \<noteq> []" using other(3) high by auto
    note meet = chains_meet [OF H(1) bs(1) other(1) bs(2) other(2)]
    consider "bs = []" | "bs \<noteq> []" "Height b = int (length bs) \<and> PrevHash b = tip_hash E [] bs"
      | "bs \<noteq> []" "\<not> (Height b = int (length bs) \<and> PrevHash b = tip_hash E [] bs)" by blast
    then show ?thesis
    proof cases
      case 1
      obtain u where u: "Sync E P rnd ?g (N, s) = Ok (N, u)" "serves E ?g (longer bs other) u" "confined ?g s u"
        using sync_keeps [OF H(1) bs other(1,2) \<open>other \<noteq> []\<close> peer(1) net g] by blast
      moreover have "set (longer bs other) \<subseteq> H" using bs(2) other(2) by (simp add: longer_def)
      ultimately show ?thesis using cases 1 node_ok_change [OF mine u(3,2)] by simp
    next
      case 2
      have "Block_Hash E b' \<noteq> Block_Hash E b" if b': "b' \<in> set bs" for b'
      proof
        assume "Block_Hash E b' = Block_Hash E b"
        moreover have "Group b' = ?g" using bs(1) b' by (simp add: serves_def sound_blocks_def)
        moreover have "b' \<in> H" using bs(2) b' by blast
        ultimately have "b' = b" by (intro sound_history_hash [OF H(1) _ H(2)])
        moreover obtain i where "i < length bs" "bs ! i = b'" using b' by (auto simp: in_set_conv_nth)
        then have "Height b' < int (length bs)" using chain by (auto simp: chain_ok_def)
        ultimately show False using 2(2) by simp
      qed
      moreover have "length bs < 2 ^ 24" "named_inputs b" using H(1,2) 2(2) by (auto simp: sound_history_def)
      ultimately have b: "continues E ?g bs b" "named_inputs b" using 2(2) H(3) by (simp_all add: continues_def sound_blocks_def)
      have "set (bs @ [b]) \<subseteq> H" using bs(2) H(2) by simp
      then show ?thesis using serves_append [OF bs(1) 2(1) b g] cases 2 node_ok_change [OF mine] by fastforce
    next
      case 3
      let ?n = "nat (Height b) + 1" and ?other = "take (nat (Height b) + 1) other"
      have n: "?n \<le> length other" "int (length ?other) - 1 = Height b" using other(3) high by auto
      obtain t' where t': "chain_ok E ?g ?other t'" using prefix_chain [OF _ _ g] other(1) unfolding serves_def by blast
      have part: "set ?other \<subseteq> set other" by (rule set_take_subset)
      have ok: "sound_blocks ?g ?other" "\<forall>b \<in> set ?other. named_inputs b" "hd bs = hd ?other"
        using other(1) part meet(2) 3(1) \<open>other \<noteq> []\<close> by (auto simp: serves_def sound_blocks_def)
      have "no_collision E bs ?other" using meet(1) part by (auto simp: no_collision_def)
      from serves_sync [OF bs(1) 3(1) t' ok peer(2) [OF n(1)] this g, of sender] cases 3
      have s': "serves E ?g (longer bs ?other) s'" "confined ?g s s'" unfolding n(2) by (auto split: if_splits)
      moreover have "set (longer bs ?other) \<subseteq> H" using bs(2) other(2) part by (auto simp: longer_def)
      ultimately show ?thesis using node_ok_change [OF mine] by blast
    qed
  qed
next
  case False
  then have "s' = s" using r by (auto simp: handle_GossipBlock_def split: if_splits)
  then show ?thesis using mine by simp
qed

end

section \<open>Mining\<close>

text \<open>A block that verifies has a usable difficulty.\<close>

lemma verified_target: "Block_Verify E b = Ok True \<Longrightarrow> \<exists>q. Target b = Fin q \<and> 1 \<le> q"
proof -
  assume v: "Block_Verify E b = Ok True"
  then obtain target h where t: "GetTarget (Target b) = Ok target" "int (SetBytes h) < target" by (auto simp: Block_Verify_def)
  then obtain q where q: "Target b = Fin q" by (cases "Target b") (simp_all add: GetTarget_def)
  have "1 \<le> q"
  proof (rule ccontr)
    assume small: "\<not> 1 \<le> q"
    have "truncate_rat q \<le> 0"
    proof (cases "0 \<le> q")
      case True
      then have "\<lfloor>q\<rfloor> < 1" using small by (simp add: floor_less_iff)
      then show ?thesis using True by (simp add: truncate_rat_def)
    next
      case False
      then have "0 \<le> \<lfloor>- q\<rfloor>" by simp
      then show ?thesis using False by (simp add: truncate_rat_def)
    qed
    then have "target \<le> 0" using t(1) q by (auto simp: GetTarget_def big_Div_def pos_imp_zdiv_nonneg_iff split: if_splits)
    then show False using t(2) by simp
  qed
  then show ?thesis using q by blast
qed

lemma mining_round_result:
  assumes "mining_round E M coins P rnd self (N, s) = Ok (r, msgs, N', s')"
  obtains own txns s1 s2 where "GetGroup E = Ok own" "mining_txns E coins own 0 (nat (GroupNum E)) s = Ok (txns, s1)"
    "MineBlocks E M txns own (GroupNum E) s1 = Ok (r, s2)"
    "case r of Inl err \<Rightarrow> s' = s2 | Inr bs \<Rightarrow> ofold (CallSelfBlock E P rnd self) bs ([], N, s2) = Ok (msgs, N', s')"
proof -
  obtain own txns s1 r2 s2 where m: "GetGroup E = Ok own" "mining_txns E coins own 0 (nat (GroupNum E)) s = Ok (txns, s1)"
      "MineBlocks E M txns own (GroupNum E) s1 = Ok (r2, s2)"
      "(case r2 of Inl err \<Rightarrow> Ok (Inl err, [], N, s2)
        | Inr bs \<Rightarrow> obind (ofold (CallSelfBlock E P rnd self) bs ([], N, s2)) (\<lambda>(msgs, N, s). Ok (Inr bs, msgs, N, s))) = Ok (r, msgs, N', s')"
    using assms by (auto simp: mining_round_def)
  have "r2 = r" "case r of Inl err \<Rightarrow> s' = s2 | Inr bs \<Rightarrow> ofold (CallSelfBlock E P rnd self) bs ([], N, s2) = Ok (msgs, N', s')"
    using m(4) by (cases r2; auto)+
  then show thesis using that m(1-3) by blast
qed

lemma mined_verifies:
  assumes "mining_round E M coins P rnd self (N, s) = Ok (r, msgs, N', s')" and "r = Inr bs" and "b \<in> set bs"
  shows "Block_Verify E b = Ok True"
proof -
  obtain txns own s1 s2 where "MineBlocks E M txns own (GroupNum E) s1 = Ok (Inr bs, s2)"
    using mining_round_result [OF assms(1)] assms(2) by metis
  then obtain tree nonce blocks where "found_blocks E tree nonce blocks = Ok bs" by (auto simp: MineBlocks_def error_or_result)
  then have "set bs \<subseteq> {b. Block_Verify E b = Ok True}" by (auto dest: found_blocks_set)
  then show ?thesis using assms(3) by blast
qed

lemma found_groups:
  "found_blocks E tree nonce blocks = Ok found \<Longrightarrow> distinct (map Group blocks) \<Longrightarrow>
    distinct (map Group found) \<and> Group ` set found \<subseteq> Group ` set blocks"
proof (induction blocks arbitrary: found)
  case (Cons b blocks)
  obtain index path ok rest where "found_blocks E tree nonce blocks = Ok rest"
      "found = (if ok then b\<lparr>Nonce := nonce, BatchMerklePath := path\<rparr> # rest else rest)"
    using Cons.prems(1) by (auto simp: Let_def)
  then show ?case using Cons.IH Cons.prems(2) by auto
qed simp

lemma Run_loop_keeps:
  "Run_loop E world speed pow nonce s = Ok (r, s') \<Longrightarrow> (\<And>n t. world n t = t) \<Longrightarrow>
    (\<And>bs t same u. heights_same E bs t = Ok (same, u) \<Longrightarrow> keeps_chains E t u) \<Longrightarrow> keeps_chains E s s'"
proof (induction E world speed pow nonce s rule: Run_loop.induct)
  case (1 E world speed pow nonce s)
  show ?case
  proof (cases "MaxInt64 \<le> nonce")
    case True
    then show ?thesis using "1.prems"(1) by (simp add: Run_loop.simps)
  next
    case False
    obtain same t where t: "heights_same E (pow_blocks pow) (world nonce s) = Ok (same, t)"
      using "1.prems"(1) False by (subst (asm) Run_loop.simps) auto
    have "s' = t \<or> Run_loop E world speed pow (nonce + 1) t = Ok (r, s') \<and> same \<and> \<not> Validate E pow nonce \<and> pause_every speed \<noteq> 0"
      using "1.prems"(1) False t by (subst (asm) Run_loop.simps) (auto split: if_splits)
    moreover have "keeps_chains E t s'"
      if c: "Run_loop E world speed pow (nonce + 1) t = Ok (r, s')" "same" "\<not> Validate E pow nonce" "pause_every speed \<noteq> 0"
      by (rule "1.IH" [OF False t refl _ _ _ c(1)]) (use c in simp, rule c, rule c, rule "1.prems"(2), rule "1.prems"(3))
    ultimately have "s' = t \<or> keeps_chains E t s'" by blast
    then show ?thesis using "1.prems"(3) [OF t] "1.prems"(2) keeps_chains_trans by metis
  qed
qed

context node_env
begin

lemma mempool_GetTxns_keeps: "mempool_GetTxns E g s = Ok (ts, s') \<Longrightarrow> keeps_chains E s s'"
proof -
  assume r: "mempool_GetTxns E g s = Ok (ts, s')"
  let ?mg = "gomod g (MaxGroupNum E)"
  have "s' = s\<lparr>mempools := (mempools s)(?mg := snd (GetTxns E (mempools s ?mg)))\<rparr>"
    using r group_mod_ok [of g] by (auto simp: mempool_GetTxns_def with_mempool_def case_prod_beta)
  moreover have "pool_ok E (snd (GetTxns E m))" if "pool_ok E m" for m by (rule GetTxns_valid [OF that prod.collapse [symmetric]])
  ultimately show ?thesis using pool_change [of s ?mg "snd (GetTxns E (mempools s ?mg))"] by simp
qed

lemma mining_txns_keeps: "mining_txns E rnd g i n s = Ok (txns, s') \<Longrightarrow> keeps_chains E s s'"
proof (induction n arbitrary: i s txns)
  case (Suc n)
  then show ?case using mempool_GetTxns_keeps keeps_chains_trans by (auto split: prod.splits) blast
qed simp

lemma GetHeight_keeps: "GetHeight E g s = Ok (h, s') \<Longrightarrow> keeps_chains E s s'"
  by (rule keeps_chains_confined [OF GetHeight_confined]) (auto intro: serves_GetHeight)

lemma heights_same_keeps: "heights_same E bs s = Ok (same, s') \<Longrightarrow> keeps_chains E s s'"
proof (induction bs arbitrary: s)
  case (Cons b bs)
  then obtain g h t where t: "GetHeight E g s = Ok (h, t)" "t = s' \<or> heights_same E bs t = Ok (same, s')"
    by (auto split: if_splits)
  then show ?case using GetHeight_keeps [OF t(1)] Cons.IH [of t] keeps_chains_trans by blast
qed simp

text \<open>The blocks of a round, each above the chain of its own group, are handed to the node's own handler one after the other.\<close>

lemma own_blocks_keep:
  assumes "ofold (CallSelfBlock E P rnd self) bs (msgs, N, s) = Ok (msgs', N', s')" and "distinct (map Group bs)"
    and "\<forall>b \<in> set bs. 0 \<le> Group b \<and> Group b < MaxGroupNum E \<and> named_inputs b \<and>
      (\<exists>cs. serves E (Group b) cs s \<and> cs \<noteq> [] \<and> continues E (Group b) cs b)"
    and "node_ok E H s" and "set bs \<subseteq> H" and num: "GroupNum E \<le> MaxGroupNum E"
  shows "node_ok E H s'"
  using assms(1-5)
proof (induction bs arbitrary: msgs N s)
  case (Cons b bs)
  obtain sent N1 t where r: "handle_GossipBlock E P rnd b self [] (N, s) = Ok (sent, N1, t)"
      and rest: "ofold (CallSelfBlock E P rnd self) bs (msgs @ sent @ [MGossipBlockHead (b\<lparr>Txns := []\<rparr>) self], N1, t) = Ok (msgs', N', s')"
  proof -
    have "CallSelfBlock E P rnd self b (msgs, N, s) = obind (handle_GossipBlock E P rnd b self [] (N, s)) (\<lambda>(sent, st).
        Ok (msgs @ sent @ [MGossipBlockHead (b\<lparr>Txns := []\<rparr>) self], st))"
      by (simp add: CallSelfBlock_def)
    then show thesis using that Cons.prems(1) by auto
  qed
  let ?g = "Group b"
  obtain cs where g: "0 \<le> ?g" "?g < MaxGroupNum E" and b: "named_inputs b" "continues E ?g cs b" and cs: "serves E ?g cs s" "cs \<noteq> []"
    using Cons.prems(3) by auto
  have other: "0 \<le> Group b' \<and> Group b' < MaxGroupNum E \<and> named_inputs b' \<and>
      (\<exists>cs. serves E (Group b') cs t \<and> cs \<noteq> [] \<and> continues E (Group b') cs b')" if "confined ?g s t" "b' \<in> set bs" for b'
  proof -
    have "Group b' \<noteq> ?g" using Cons.prems(2) that(2) by (auto simp: image_iff)
    then show ?thesis using Cons.prems(3) that serves_frame [OF that(1)] by (metis list.set_intros(2))
  qed
  have step: "node_ok E H t \<and> confined ?g s t"
  proof (cases "own_groups E ?g = Ok True")
    case True
    have h: "int (length cs) \<le> Height b" "Height b = int (length cs)" "PrevHash b = tip_hash E [] cs" using b(2) by (simp_all add: continues_def)
    have "chain_ok E ?g cs s" using cs(1) by (simp add: serves_def)
    from GossipBlock_cases [OF r this refl True g h(1)]
    obtain s1 where "AddBlock E ?g (Some b) s = Ok s1" "Update E \<lparr>set_bc = ?g, set_group = ?g\<rparr> b s1 = Ok t"
      using cs(2) h(2,3) by auto
    then have t: "serves E ?g (cs @ [b]) t" "confined ?g s t" using serves_append [OF cs b(2,1) g] by auto
    have "set cs \<subseteq> H" using Cons.prems(4) cs(1) node_ok_chain(2) [OF Cons.prems(4) _ g] by (simp add: serves_def)
    then have "set (cs @ [b]) \<subseteq> H" using Cons.prems(5) by simp
    then show ?thesis using node_ok_change [OF Cons.prems(4) t(2,1)] t(2) by blast
  next
    case False
    then have "t = s" using r by (auto simp: handle_GossipBlock_def split: if_splits)
    then show ?thesis using Cons.prems(4) by (simp add: confined_def)
  qed
  show ?case by (rule Cons.IH [OF rest]) (use Cons.prems(2,5) other step in auto)
qed simp

lemma found_continues:
  assumes s: "node_ok E H s" "make_blocks E M txns own (GroupNum E) 0 n s = Ok (Inr blocks)" "0 \<le> own"
    and found: "found_blocks E tree nonce blocks = Ok found" "b \<in> set found" and H: "sound_history E (H \<union> set found)"
  shows "0 \<le> Group b \<and> Group b < MaxGroupNum E \<and> named_inputs b \<and> (\<exists>cs. serves E (Group b) cs s \<and> cs \<noteq> [] \<and> continues E (Group b) cs b)"
proof -
  obtain b0 path where b0: "b0 \<in> set blocks" "b = b0\<lparr>Nonce := nonce, BatchMerklePath := path\<rparr>" "Block_Verify E b = Ok True"
    using found_blocks_set [OF found(1)] found(2) by auto
  note made = make_blocks_candidates [OF s(2)]
  obtain j where j: "j < n" "b0 = blocks ! j" using b0(1) made by (metis in_set_conv_nth)
  obtain bc where bc: "GetBlockchain E (own + int j) = Ok bc" "candidate_of E s bc own (GroupNum E) b0" using made j by auto
  then have g: "Group b = bc" "0 \<le> bc" "bc < MaxGroupNum E"
    using MaxGroupNum_pos s(3) b0(2) by (auto simp: candidate_of_def GetBlockchain_def group_mod_ok)
  obtain cs where cs: "serves E bc cs s" "set cs \<subseteq> H" using s(1) g(2,3) unfolding node_ok_def by blast
  then have chain: "chain_ok E bc cs s" by (simp add: serves_def)
  obtain lastest where lastest: "GetLastest E bc s = Ok (Some lastest)" "Height b = i32 (Height lastest + 1)" "Block_Hash E lastest = Ok (PrevHash b)"
    using bc(2) b0(2) by (auto simp: candidate_of_def)
  then have ne: "cs \<noteq> []" "lastest = last cs" using GetLastest_chain [OF chain] by (auto split: if_splits)
  have "length cs \<le> 2 ^ 24" using chain by (simp add: chain_ok_def)
  then have height: "Height b = int (length cs)" using lastest(2) last_Height [OF chain ne(1)] ne(2) by (simp add: i32_id)
  have b: "b \<in> H \<union> set found" using found(2) by simp
  then have "named_inputs b" "Height b < 2 ^ 24" using H unfolding sound_history_def by blast+
  then have "named_inputs b" "length cs < 2 ^ 24" using height by simp_all
  moreover have "PrevHash b = tip_hash E [] cs" using tip_hash_last [OF ne(1)] lastest(3) ne(2) by simp
  moreover have "Block_Hash E b' \<noteq> Block_Hash E b" if b': "b' \<in> set cs" for b'
  proof
    assume "Block_Hash E b' = Block_Hash E b"
    moreover have "Group b' = Group b" "b' \<in> H \<union> set found" using cs b' g(1) by (auto simp: serves_def sound_blocks_def)
    ultimately have "b' = b" by (intro sound_history_hash [OF H _ b])
    moreover obtain i where "i < length cs" "cs ! i = b'" using b' by (auto simp: in_set_conv_nth)
    then have "Height b' < int (length cs)" using chain by (auto simp: chain_ok_def)
    ultimately show False using height by simp
  qed
  ultimately have "continues E bc cs b" using height g(1) verified_target [OF b0(3)] by (simp add: continues_def)
  then show ?thesis using g cs(1) ne(1) \<open>named_inputs b\<close> by blast
qed

lemma batch_groups:
  assumes "make_blocks E M txns own batch 0 n s = Ok (Inr blocks)" and "0 \<le> own" and "int n \<le> MaxGroupNum E"
  shows "distinct (map Group blocks)"
proof -
  note made = make_blocks_candidates [OF assms(1)]
  have group: "Group (blocks ! j) = (own + int j) mod MaxGroupNum E" if "j < n" for j
    using made that assms(2) MaxGroupNum_pos by (auto simp: candidate_of_def GetBlockchain_def group_mod_ok)
  have "i = j" if "i < n" "j < n" "(own + int i) mod MaxGroupNum E = (own + int j) mod MaxGroupNum E" for i j
  proof -
    have "(own + int i - own) mod MaxGroupNum E = (own + int j - own) mod MaxGroupNum E" using that(3) by (metis mod_diff_left_eq)
    then show ?thesis using that(1,2) assms(3) by simp
  qed
  then show ?thesis using made group by (auto simp: distinct_conv_nth)
qed

lemma mining_round_keeps:
  assumes "mining_round E M coins P rnd self (N, s) = Ok (r, msgs, N', s')" and "\<And>n t. mine_world M n t = t"
    and "node_ok E H s" and "H' = H \<union> (case r of Inl err \<Rightarrow> {} | Inr bs \<Rightarrow> set bs)" and "sound_history E H'" and num: "GroupNum E \<le> MaxGroupNum E"
  shows "node_ok E H' s'"
proof -
  obtain own txns s1 s2 where own: "GetGroup E = Ok own" and s1: "mining_txns E coins own 0 (nat (GroupNum E)) s = Ok (txns, s1)"
      and r2: "MineBlocks E M txns own (GroupNum E) s1 = Ok (r, s2)"
      and out: "case r of Inl err \<Rightarrow> s' = s2 | Inr bs \<Rightarrow> ofold (CallSelfBlock E P rnd self) bs ([], N, s2) = Ok (msgs, N', s')"
    by (rule mining_round_result [OF assms(1)])
  have own_range: "0 \<le> own" "own < MaxGroupNum E" using GetGroup_range [OF own] by simp_all
  have s1_ok: "node_ok E H s1" by (rule node_ok_keeps [OF assms(3) mining_txns_keeps [OF s1]])
  obtain rb where rb: "make_blocks E M txns own (GroupNum E) 0 (nat (GroupNum E)) s1 = Ok rb" using r2 by (auto simp: MineBlocks_def)
  show ?thesis
  proof (cases rb)
    case (Inl err)
    then have "r = Inl err" "s2 = s1" using r2 rb by (simp_all add: MineBlocks_def)
    then show ?thesis using out s1_ok assms(4) by simp
  next
    case (Inr blocks)
    then obtain pow rn u where run: "NewPOW E (mine_rnd M) blocks = Ok pow" "Run E (mine_world M) (mine_speed M) pow s1 = Ok (rn, u)"
        "(case rn of Inl err \<Rightarrow> Ok (Inl err, u)
          | Inr nonce \<Rightarrow> obind (found_blocks E (batchMerkleTree pow) nonce blocks) (\<lambda>found. Ok (Inr found, u))) = Ok (r, s2)"
      using r2 rb by (auto simp: MineBlocks_def)
    then have pow: "Run E (mine_world M) (mine_speed M) pow s1 = Ok (rn, s2)"
        "case rn of Inl err \<Rightarrow> r = Inl err | Inr nonce \<Rightarrow> \<exists>found. found_blocks E (batchMerkleTree pow) nonce blocks = Ok found \<and> r = Inr found"
      by (cases rn; auto)+
    have kept: "keeps_chains E s1 s2" by (rule Run_loop_keeps [OF pow(1) [unfolded Run_def] assms(2) heights_same_keeps])
    show ?thesis
    proof (cases rn)
      case (Inl err)
      then show ?thesis using pow(2) out node_ok_keeps [OF s1_ok kept] assms(4) by simp
    next
      case nonce: (Inr nonce)
      then obtain found where found: "found_blocks E (batchMerkleTree pow) nonce blocks = Ok found" "r = Inr found" using pow(2) by auto
      then have r: "H' = H \<union> set found" "ofold (CallSelfBlock E P rnd self) found ([], N, s2) = Ok (msgs, N', s')" using out assms(4) by simp_all
      have "distinct (map Group found)"
        using found_groups [OF found(1) batch_groups [OF rb [unfolded Inr] own_range(1)]] num MaxGroupNum_pos by auto
      moreover have "\<forall>b \<in> set found. 0 \<le> Group b \<and> Group b < MaxGroupNum E \<and> named_inputs b \<and>
          (\<exists>cs. serves E (Group b) cs s2 \<and> cs \<noteq> [] \<and> continues E (Group b) cs b)"
        using found_continues [OF s1_ok rb [unfolded Inr] own_range(1) found(1)] assms(5) kept unfolding r(1) keeps_chains_def by blast
      moreover have "node_ok E H' s2" using node_ok_mono [OF node_ok_keeps [OF s1_ok kept]] r(1) by blast
      ultimately show ?thesis using own_blocks_keep [OF r(2) _ _ _ _ num] r(1) by blast
    qed
  qed
qed

lemma create_keeps:
  assumes "CreateBlockchain E M randData minerAddress s = Ok (r, s')" and "\<And>n t. mine_world M n t = t" and "mine_rnd M < MaxInt64"
    and "GetGroup E = Ok g" and "GetLastest E g s' = Ok (Some b)" and "node_ok E H s"
  shows "node_ok E (insert b H) s'"
proof -
  have g: "0 \<le> g" "g < MaxGroupNum E" using GetGroup_range [OF assms(4)] by simp_all
  obtain bs where bs: "serves E g bs s" "set bs \<subseteq> H" using assms(6) g unfolding node_ok_def by blast
  have H: "node_ok E (insert b H) s" by (rule node_ok_mono [OF assms(6)]) blast
  show ?thesis
  proof (cases "bs = []")
    case True
    then obtain b' where b': "serves E g [b'] s'" "confined g s s'" using serves_create [OF assms(1) _ assms(4,2)] bs(1) by blast
    then have "b' = b" using GetLastest_chain [of g "[b']" s'] assms(5) by (simp add: serves_def)
    then show ?thesis using node_ok_change [OF H b'(2,1)] by simp
  next
    case False
    then have chain: "chain_ok E g bs s" "0 \<le> int (length bs) - 1" using bs(1) by (auto simp: serves_def Suc_le_eq)
    obtain s0 where s0: "GetHeight E g s = Ok (int (length bs) - 1, s0)" using GetHeight_chain [OF chain(1)] by blast
    obtain txn rb s1 where m: "MineBlocksForCreate E M txn g s = Ok (rb, s1)"
        "(case rb of Inl err \<Rightarrow> Ok (Some err, s1) | Inr block \<Rightarrow> obind (AddBlock E g (Some block) (node_Clear E Blocks g s1)) (\<lambda>s.
           obind (GetUTXOSet E g) (\<lambda>us. obind (Reindex E us s) (\<lambda>s. obind (TxnReindex E g s) (\<lambda>s. Ok (None, s)))))) = Ok (r, s')"
      using assms(1,4) own_group [OF g] by (auto simp: CreateBlockchain_def)
    obtain c pow r0 where c: "Group c = g" "Height c = 0" "NewPOW E (mine_rnd M) [c] = Ok pow"
        "Run E (mine_world M) (mine_speed M) pow s = Ok (r0, s1)" "\<And>err. r0 = Inl err \<Longrightarrow> rb = Inl err"
      using m(1) by (auto simp: MineBlocksForCreate_def Let_def) (metis BlockHeader.select_convs(1,2) old.sum.simps(5))
    have "pow_blocks pow = [c]" "ps_Nonce (poweredStruct pow) = mine_rnd M" using c(3) by (auto simp: NewPOW_def Let_def split: if_splits)
    moreover have "i32 (- 1) = - 1" by (simp add: i32_id)
    ultimately have "r0 = Inl ErrBlockchainChange \<and> s1 = s0"
      using c(1,2,4) s0 chain(2) assms(2,3) own_group [OF g] by (auto simp: Run_def Run_loop.simps)
    then have "s' = s0" using m(2) c(5) by simp
    then show ?thesis using node_ok_keeps [OF H] GetHeight_keeps [OF s0] by blast
  qed
qed

text \<open>A restart forgets what is only in memory.\<close>

lemma restart_keeps:
  "keeps_chains E s (s\<lparr>onceGetHeight := \<lambda>_. False, onceBlockheadGetHeight := \<lambda>_. False, mempools := \<lambda>_. []\<rparr>)"
  by (auto simp: keeps_chains_def serves_def chain_ok_def store_ok_def block_stored_def lastest_stored_def heads_ok_def set_ok_def
      buckets_made_def heads_fresh_def pool_ok_def)

end

section \<open>The steps of a network\<close>

text \<open>
  The nodes of a network take steps one at a time. A step runs a whole handler, command or round of one node, and it must return; requests that
  it makes are answered by the handlers of one other node, in its current state. The senders and settings are arbitrary, and so is the content of transactions,
  of heads, and of blocks that are not above the newest one. A block above it is one that was mined: blocks come into being when a node creates a chain or
  mines, while its search is not disturbed, and every mined block may arrive at any node at any later time, any number of times. The other node has by
  then a chain that reaches the height of the block. A node may also restart.
\<close>

definition restart :: "'k node \<Rightarrow> 'k node" where
  "restart s = s\<lparr>onceGetHeight := \<lambda>_. False, onceBlockheadGetHeight := \<lambda>_. False, mempools := \<lambda>_. []\<rparr>"

inductive net_step ::
  "('n \<Rightarrow> ('k, 'z) env_scheme) \<Rightarrow> ('n \<Rightarrow> 'k node) \<times> Block set \<Rightarrow> ('n \<Rightarrow> 'k node) \<times> Block set \<Rightarrow> bool" for C where
  txn: "handle_GossipTxn (C i) g txn excepted (\<sigma> i) = Ok (msgs, s') \<Longrightarrow> net_step C (\<sigma>, H) (\<sigma>(i := s'), H)"
| relay: "handle_GossipRelayTxn (C i) fromGroup toGroup height path txn excepted (\<sigma> i) = Ok (msgs, s') \<Longrightarrow>
    net_step C (\<sigma>, H) (\<sigma>(i := s'), H)"
| head: "handle_GossipBlockHead (C i) b excepted (\<sigma> i) = Ok (msgs, s') \<Longrightarrow> net_step C (\<sigma>, H) (\<sigma>(i := s'), H)"
| restart: "net_step C (\<sigma>, H) (\<sigma>(i := restart (\<sigma> i)), H)"
| create: "CreateBlockchain (C i) M randData minerAddress (\<sigma> i) = Ok (r, s') \<Longrightarrow> (\<And>n t. mine_world M n t = t) \<Longrightarrow> mine_rnd M < MaxInt64 \<Longrightarrow>
    GetGroup (C i) = Ok g \<Longrightarrow> GetLastest (C i) g s' = Ok (Some b) \<Longrightarrow> net_step C (\<sigma>, H) (\<sigma>(i := s'), insert b H)"
| mine: "mining_round (C i) M coins P rnd self (N, \<sigma> i) = Ok (r, msgs, N', s') \<Longrightarrow> (\<And>n t. mine_world M n t = t) \<Longrightarrow>
    net_step C (\<sigma>, H) (\<sigma>(i := s'), H \<union> (case r of Inl err \<Rightarrow> {} | Inr bs \<Rightarrow> set bs))"
| old_block: "handle_GossipBlock (C i) P rnd b sender excepted (N, \<sigma> i) = Ok (msgs, N', s') \<Longrightarrow>
    chain_ok (C i) (Group b) mine (\<sigma> i) \<Longrightarrow> Height b < int (length mine) \<Longrightarrow> net_step C (\<sigma>, H) (\<sigma>(i := s'), H)"
| block: "handle_GossipBlock (C i) (peer_of (C j) nodes (\<sigma> j)) rnd b sender excepted (N, \<sigma> i) = Ok (msgs, N', s') \<Longrightarrow>
    b \<in> H \<Longrightarrow> chain_ok (C j) (Group b) other (\<sigma> j) \<Longrightarrow> Height b < int (length other) \<Longrightarrow>
    registered N \<Longrightarrow> reachable_peer (C i) (sorted_nodes N) \<Longrightarrow> net_step C (\<sigma>, H) (\<sigma>(i := s'), H)"
| periodic: "Sync (C i) (peer_of (C j) nodes (\<sigma> j)) rnd g (N, \<sigma> i) = Ok (N', s') \<Longrightarrow> 0 \<le> g \<Longrightarrow> g < MaxGroupNum (C i) \<Longrightarrow>
    chain_ok (C j) g other (\<sigma> j) \<Longrightarrow> other \<noteq> [] \<Longrightarrow> registered N \<Longrightarrow> reachable_peer (C i) (sorted_nodes N) \<Longrightarrow>
    net_step C (\<sigma>, H) (\<sigma>(i := s'), H)"

inductive reachable_net :: "('n \<Rightarrow> ('k, 'z) env_scheme) \<Rightarrow> ('n \<Rightarrow> 'k node) \<times> Block set \<Rightarrow> bool" for C where
  start: "reachable_net C (\<lambda>i. fresh_node, {})"
| step: "reachable_net C st \<Longrightarrow> net_step C st st' \<Longrightarrow> reachable_net C st'"

lemma net_step_history: "net_step C st st' \<Longrightarrow> snd st \<subseteq> snd st'"
  by (induction rule: net_step.induct) auto

text \<open>The nodes of a network, and what its reachable states satisfy.\<close>

definition network :: "('n \<Rightarrow> ('k, 'z) env_scheme) \<Rightarrow> bool" where
  "network C \<longleftrightarrow> (\<forall>i j. same_protocol (C i) (C j)) \<and> (\<forall>i. node_env (C i) \<and> GroupNum (C i) \<le> MaxGroupNum (C i))"

definition net_ok :: "('n \<Rightarrow> ('k, 'z) env_scheme) \<Rightarrow> ('n \<Rightarrow> 'k node) \<times> Block set \<Rightarrow> bool" where
  "net_ok C st \<longleftrightarrow> (\<forall>i. node_ok (C i) (snd st) (fst st i)) \<and> (\<forall>b \<in> snd st. sound_blocks (Group b) [b])"

lemma net_ok_update:
  assumes "net_ok C (\<sigma>, H)" and "H \<subseteq> H'" and "node_ok (C i) H' s'" and "\<forall>b \<in> H' - H. sound_blocks (Group b) [b]"
  shows "net_ok C (\<sigma>(i := s'), H')"
  using assms node_ok_mono unfolding net_ok_def by (metis Diff_iff fst_conv fun_upd_apply snd_conv)

text \<open>What node \<open>j\<close> serves, and answers, is what node \<open>i\<close> would serve in its place.\<close>

lemma peer_in_network:
  assumes "network C" and "net_ok C (\<sigma>, H)" and "chain_ok (C j) g other (\<sigma> j)" and "0 \<le> g" and "g < MaxGroupNum (C i)"
  shows "serves (C i) g other (\<sigma> j)" and "set other \<subseteq> H" and "peer_serves (C i) (peer_of (C j) nodes (\<sigma> j)) g other"
    and "n \<le> length other \<Longrightarrow> peer_chain (C i) (peer_of (C j) nodes (\<sigma> j)) g (take n other)"
proof -
  have same: "same_protocol (C j) (C i)" and env: "node_env (C j)" using assms(1) by (simp_all add: network_def)
  have g: "g < MaxGroupNum (C j)" using assms(5) same_protocol_max [OF same] by simp
  note ok = node_env.node_ok_chain [OF env _ assms(3,4) g, of H]
  have j: "node_ok (C j) H (\<sigma> j)" using assms(2) by (simp add: net_ok_def)
  show "serves (C i) g other (\<sigma> j)" using ok(1) [OF j] same_protocol_serves [OF same] by simp
  show "set other \<subseteq> H" by (rule ok(2) [OF j])
  show "peer_serves (C i) (peer_of (C j) nodes (\<sigma> j)) g other"
    using node_env.peer_of_serves [OF env assms(3,4) g] same_protocol_peer [OF same] by blast
  show "n \<le> length other \<Longrightarrow> peer_chain (C i) (peer_of (C j) nodes (\<sigma> j)) g (take n other)"
    using node_env.peer_of_chain [OF env assms(3,4) g] same_protocol_peer [OF same] by blast
qed

lemma periodic_ok:
  assumes C: "network C" and ok: "net_ok C (\<sigma>, H)" and H: "sound_history (C i) H" and g: "0 \<le> g" "g < MaxGroupNum (C i)"
    and other: "chain_ok (C j) g other (\<sigma> j)" "other \<noteq> []" and net: "registered N" "reachable_peer (C i) (sorted_nodes N)"
  shows "\<exists>mine s'. serves (C i) g mine (\<sigma> i) \<and> Sync (C i) (peer_of (C j) nodes (\<sigma> j)) rnd g (N, \<sigma> i) = Ok (N, s') \<and>
    serves (C i) g (longer mine other) s' \<and> node_ok (C i) H s'"
proof -
  have env: "node_env (C i)" and i: "node_ok (C i) H (\<sigma> i)" using C ok by (simp_all add: network_def net_ok_def)
  obtain mine where mine: "serves (C i) g mine (\<sigma> i)" "set mine \<subseteq> H" using i g unfolding node_ok_def by blast
  note peer = peer_in_network [OF C ok other(1) g]
  obtain s' where s': "Sync (C i) (peer_of (C j) nodes (\<sigma> j)) rnd g (N, \<sigma> i) = Ok (N, s')" "serves (C i) g (longer mine other) s'"
      "confined g (\<sigma> i) s'"
    using node_env.sync_keeps [OF env H mine peer(1,2) other(2) peer(3) net g] by blast
  have "set (longer mine other) \<subseteq> H" using mine(2) peer(2) by (simp add: longer_def)
  then show ?thesis using mine(1) s' node_ok_change [OF i s'(3,2)] by blast
qed

lemma net_step_keeps:
  assumes "net_step C st st'" and C: "network C" and "net_ok C st" and "\<And>i. sound_history (C i) (snd st')"
  shows "net_ok C st'"
proof -
  have env: "node_env (C i)" and num: "GroupNum (C i) \<le> MaxGroupNum (C i)" for i using C by (simp_all add: network_def)
  have keep: "net_ok C (\<sigma>(i := s'), H)" if "net_ok C (\<sigma>, H)" "keeps_chains (C i) (\<sigma> i) s'" for \<sigma> H i s'
  proof (rule net_ok_update [OF that(1) order_refl])
    show "node_ok (C i) H s'" using that(1) by (intro node_ok_keeps [OF _ that(2)]) (simp add: net_ok_def)
  qed simp
  show ?thesis
    using assms(1,3,4)
  proof cases
    case (txn i g txn excepted \<sigma> msgs s' H)
    then show ?thesis using keep node_env.GossipTxn_keeps [OF env] assms(3) by metis
  next
    case (relay i fromGroup toGroup height path txn excepted \<sigma> msgs s' H)
    then show ?thesis using keep node_env.GossipRelayTxn_keeps [OF env] assms(3) by metis
  next
    case (head i b excepted \<sigma> msgs s' H)
    then show ?thesis using keep node_env.GossipBlockHead_keeps [OF env] assms(3) by metis
  next
    case (restart \<sigma> H i)
    then show ?thesis using keep node_env.restart_keeps [OF env] assms(3) unfolding restart_def by metis
  next
    case (create i M randData minerAddress \<sigma> r s' g b H)
    have i: "node_ok (C i) H (\<sigma> i)" using assms(3) create(1) by (simp add: net_ok_def)
    have ok: "node_ok (C i) (insert b H) s'" by (rule node_env.create_keeps [OF env create(3-7) i])
    have g: "0 \<le> g" "g < MaxGroupNum (C i)" using node_env.GetGroup_range [OF env create(6)] by simp_all
    obtain bs where bs: "serves (C i) g bs s'" using ok g unfolding node_ok_def by blast
    then have "bs \<noteq> []" "b = last bs" using node_env.GetLastest_chain [OF env [of i], of g bs s'] create(7) by (auto simp: serves_def split: if_splits)
    then have "sound_blocks (Group b) [b]" using bs last_in_set [of bs] by (auto simp: serves_def sound_blocks_def)
    then have "\<forall>b' \<in> insert b H - H. sound_blocks (Group b') [b']" by auto
    then show ?thesis unfolding create(2) by (rule net_ok_update [OF assms(3) [unfolded create(1)] subset_insertI ok])
  next
    case (mine i M coins P rnd self N \<sigma> r msgs N' s' H)
    let ?H = "H \<union> (case r of Inl err \<Rightarrow> {} | Inr bs \<Rightarrow> set bs)"
    have i: "node_ok (C i) H (\<sigma> i)" using assms(3) mine(1) by (simp add: net_ok_def)
    have ok: "node_ok (C i) ?H s'"
      by (rule node_env.mining_round_keeps [OF env mine(3,4) i refl _ num]) (use assms(4) mine(2) in simp)
    have "\<forall>b \<in> ?H - H. sound_blocks (Group b) [b]"
    proof
      fix b assume "b \<in> ?H - H"
      then obtain bs where "r = Inr bs" "b \<in> set bs" by (auto split: sum.splits)
      then have "Block_Verify (C i) b = Ok True" by (rule mined_verifies [OF mine(3)])
      then show "sound_blocks (Group b) [b]" using verified_target by (simp add: sound_blocks_def)
    qed
    then show ?thesis unfolding mine(2) by (rule net_ok_update [OF assms(3) [unfolded mine(1)] Un_upper1 ok])
  next
    case (old_block i P rnd b sender excepted N \<sigma> msgs N' s' mine H)
    then have "s' = \<sigma> i" by (intro node_env.GossipBlock_below [OF env old_block(3-5) num])
    then show ?thesis using assms(3) old_block(1,2) by simp
  next
    case (block i j nodes \<sigma> rnd b sender excepted N msgs N' s' H other)
    have i: "node_ok (C i) H (\<sigma> i)" and b: "sound_blocks (Group b) [b]" using assms(3) block(1,4) by (simp_all add: net_ok_def)
    have H: "sound_history (C i) H" using assms(4) block(2) by simp
    have "node_ok (C i) H s'"
    proof (cases "own_groups (C i) (Group b) = Ok True")
      case True
      note peer = peer_in_network [OF C assms(3) [unfolded block(1)] block(5) node_env.own_groups_range [OF env True num]]
      show ?thesis by (rule node_env.block_keeps [OF env H block(4) b i peer(1,2) block(6) peer(3,4) block(7,8,3) num])
    next
      case False
      then have "s' = \<sigma> i" using block(3) by (auto simp: handle_GossipBlock_def split: if_splits)
      then show ?thesis using i by simp
    qed
    then show ?thesis unfolding block(2) by (intro net_ok_update [OF assms(3) [unfolded block(1)] order_refl]) simp_all
  next
    case (periodic i j nodes \<sigma> rnd g N N' s' other H)
    have "sound_history (C i) H" using assms(4) periodic(2) by simp
    from periodic_ok [OF C assms(3) [unfolded periodic(1)] this periodic(4-9), of nodes rnd]
    have "node_ok (C i) H s'" using periodic(3) by auto
    then show ?thesis unfolding periodic(2) by (intro net_ok_update [OF assms(3) [unfolded periodic(1)] order_refl]) simp_all
  qed
qed

lemma network_reachable:
  assumes "reachable_net C st" and "network C" and "\<And>i. sound_history (C i) (snd st)"
  shows "net_ok C st"
  using assms(1,3)
proof induction
  case start
  have "serves (C i) g [] fresh_node" for i g using node_env.fresh_serves assms(2) unfolding network_def by blast
  then show ?case by (force simp: net_ok_def node_ok_def)
next
  case (step st st')
  then show ?case using net_step_keeps [OF step(2) assms(2) _ step(4)] sound_history_subset net_step_history by metis
qed

section \<open>Properties\<close>

text \<open>
  C1: what holds in every state that a network reaches by steps that return. The nodes differ in address, groups served and map orders; they create chains,
  mine, restart, handle requests and synchronise in any interleaving. Blocks above a node's newest one are mined blocks, and mined blocks of a group
  do not collide, have one first block and name their inputs. Then each node stores for each group a linked chain of mined blocks from height 0 up, with pool,
  heads and set of outputs well formed; two chains of a group that are not empty begin with the same block; and a \<^verbatim>\<open>Sync\<close> that another node
  answers returns and leaves the longer of the two chains.
\<close>

theorem reachable_network_ok:
  assumes "network C" and "reachable_net C (\<sigma>, H)" and "sound_history (C i) H" and "0 \<le> g" and "g < MaxGroupNum (C i)"
  shows "\<exists>mine other. serves (C i) g mine (\<sigma> i) \<and> set mine \<subseteq> H \<and> serves (C j) g other (\<sigma> j) \<and> set other \<subseteq> H \<and>
    (mine = [] \<or> other = [] \<or> hd mine = hd other) \<and>
    (\<forall>N nodes rnd. other \<noteq> [] \<and> registered N \<and> reachable_peer (C i) (sorted_nodes N) \<longrightarrow>
      (\<exists>s'. Sync (C i) (peer_of (C j) nodes (\<sigma> j)) rnd g (N, \<sigma> i) = Ok (N, s') \<and> serves (C i) g (longer mine other) s'))"
proof -
  have same: "same_protocol (C i) (C k)" for k using assms(1) by (simp add: network_def)
  have H: "sound_history (C k) H" for k by (rule same_protocol_history [OF same, THEN iffD2, OF assms(3)])
  have ok: "net_ok C (\<sigma>, H)" using network_reachable [OF assms(2,1)] H by simp
  have chain: "\<exists>bs. serves (C k) g bs (\<sigma> k) \<and> set bs \<subseteq> H" for k
    using ok assms(4,5) same_protocol_max [OF same [of k]] by (simp add: net_ok_def node_ok_def)
  obtain mine other where mine: "serves (C i) g mine (\<sigma> i)" "set mine \<subseteq> H" and other: "serves (C j) g other (\<sigma> j)" "set other \<subseteq> H"
    using chain by blast
  have env: "node_env (C i)" using assms(1) by (simp add: network_def)
  have chain_j: "chain_ok (C j) g other (\<sigma> j)" using other(1) by (simp add: serves_def)
  have "serves (C i) g other (\<sigma> j)" using other(1) same_protocol_serves [OF same [of j]] by simp
  then have meet: "mine = [] \<or> other = [] \<or> hd mine = hd other" by (rule node_env.chains_meet(2) [OF env H mine(1) _ mine(2) other(2)])
  have sync: "\<exists>s'. Sync (C i) (peer_of (C j) nodes (\<sigma> j)) rnd g (N, \<sigma> i) = Ok (N, s') \<and> serves (C i) g (longer mine other) s'"
    if net: "other \<noteq> []" "registered N" "reachable_peer (C i) (sorted_nodes N)" for N nodes rnd
  proof -
    obtain mine' s' where s': "serves (C i) g mine' (\<sigma> i)" "Sync (C i) (peer_of (C j) nodes (\<sigma> j)) rnd g (N, \<sigma> i) = Ok (N, s')"
        "serves (C i) g (longer mine' other) s'"
      using periodic_ok [OF assms(1) ok H assms(4,5) chain_j net, of nodes rnd] by blast
    moreover have "mine' = mine" using node_env.serves_chain [OF env mine(1)] s'(1) by (simp add: serves_def)
    ultimately show ?thesis by blast
  qed
  show ?thesis by (rule exI [where x = mine], rule exI [where x = other]) (simp add: mine other meet sync)
qed

subsection \<open>Two nodes with different settings\<close>

definition two_envs :: "bool \<Rightarrow> ref_bucket env" where
  "two_envs i = (if i then mirror_env else mirror_env\<lparr>GroupNum := 2\<rparr>)"

lemma two_envs_network: "network two_envs"
proof -
  have "node_env (mirror_env\<lparr>GroupNum := 2\<rparr>)"
    using mirror_node.node_env_axioms unfolding node_env_def node_env_axioms_def bolt_store_def json_codec_def digests_def go_ranges_def by simp
  then have "node_env (two_envs i)" for i using mirror_node.node_env_axioms by (simp add: two_envs_def)
  moreover have "same_protocol (two_envs i) (two_envs j)" for i j by (simp add: same_protocol_def two_envs_def)
  ultimately show ?thesis by (simp add: network_def two_envs_def)
qed

lemma two_nodes_reachable:
  "\<exists>\<sigma> b. reachable_net two_envs (\<sigma>, {b}) \<and> sound_history mirror_env {b} \<and> serves mirror_env 0 [b] (\<sigma> True) \<and>
     chain_ok (two_envs False) 0 [b] (\<sigma> False)"
proof -
  have quiet: "mine_world quiet_miner n t = t" "mine_rnd quiet_miner < MaxInt64" for n t by (simp_all add: quiet_miner_def MaxInt64_def)
  obtain s1 b where s1: "CreateBlockchain mirror_env quiet_miner [] (Base58Encode (replicate 25 0)) fresh_node = Ok (None, s1)"
      and b: "serves mirror_env 0 [b] s1" using created_node by blast
  have E: "two_envs True = mirror_env" "two_envs False = mirror_env\<lparr>GroupNum := 2\<rparr>" by (simp_all add: two_envs_def)
  define \<sigma> where "\<sigma> = (\<lambda>i :: bool. fresh_node)(True := s1)"
  have "GetLastest mirror_env 0 s1 = Ok (Some b)" using b mirror_node.GetLastest_chain [of 0 "[b]" s1] by (simp add: serves_def)
  then have "net_step two_envs (\<lambda>i. fresh_node, {}) (\<sigma>, {b})"
    unfolding \<sigma>_def using net_step.create [of two_envs True quiet_miner _ _ "\<lambda>i. fresh_node", OF _ quiet, of _ _ _ s1 0 b "{}"] s1 mirror_group E(1)
    by auto
  then have reach: "reachable_net two_envs (\<sigma>, {b})" by (rule reachable_net.step [OF reachable_net.start])
  have H: "sound_history mirror_env {b}" using b by (simp add: sound_history_def serves_def chain_ok_def)
  have H2: "sound_history (two_envs False) {b}" using H same_protocol_history [of mirror_env "two_envs False"] by (simp add: same_protocol_def E)
  have ok: "net_ok two_envs (\<sigma>, {b})"
    using network_reachable [OF reach two_envs_network] H H2 E(1) by (metis (full_types) snd_conv)
  have chain: "chain_ok (two_envs True) 0 [b] (\<sigma> True)" using b by (simp add: \<sigma>_def E(1) serves_def)
  have net: "registered fork_net" "reachable_peer (two_envs False) (sorted_nodes fork_net)"
    using fork_net_ok by (simp_all add: reachable_peer_def covers_def E(2) GetGroup_def)
  obtain mine s2 where s2: "Sync (two_envs False) (peer_of (two_envs True) (\<lambda>_ _. Ok None) (\<sigma> True)) (\<lambda>_. id) 0 (fork_net, \<sigma> False) = Ok (fork_net, s2)"
      "serves (two_envs False) 0 mine (\<sigma> False)" "serves (two_envs False) 0 (longer mine [b]) s2"
    using periodic_ok [OF two_envs_network ok H2 _ _ chain _ net] E(2) by fastforce
  have "mine = []"
  proof -
    have "chain_ok (two_envs False) 0 [] (\<sigma> False)"
      using mirror_node.fresh_serves [of 0] same_protocol_chain [of mirror_env "two_envs False"] by (simp add: \<sigma>_def E(2) same_protocol_def serves_def)
    moreover have "node_env (two_envs False)" using two_envs_network by (simp add: network_def)
    ultimately show ?thesis using node_env.serves_chain s2(2) by blast
  qed
  then have "chain_ok (two_envs False) 0 [b] s2" using s2(3) by (simp add: longer_def serves_def)
  moreover have "net_step two_envs (\<sigma>, {b}) (\<sigma>(False := s2), {b})"
    by (rule net_step.periodic [where j = True, OF s2(1) _ _ chain _ net]) (simp_all add: E(2))
  then have "reachable_net two_envs (\<sigma>(False := s2), {b})" by (rule reachable_net.step [OF reach])
  moreover have "(\<sigma>(False := s2)) True = s1" by (simp add: \<sigma>_def)
  ultimately show ?thesis using H b by (intro exI [of _ "\<sigma>(False := s2)"] exI [of _ b]) simp
qed

theorem reachable_network_ok_witness:
  "\<exists>\<sigma> b bs. reachable_net two_envs (\<sigma>, {b}) \<and> serves mirror_env 0 [b] (\<sigma> True) \<and> serves (two_envs False) 0 bs (\<sigma> False) \<and> bs = [b]"
proof -
  obtain \<sigma> b where \<sigma>: "reachable_net two_envs (\<sigma>, {b})" "sound_history mirror_env {b}" "serves mirror_env 0 [b] (\<sigma> True)"
      "chain_ok (two_envs False) 0 [b] (\<sigma> False)"
    using two_nodes_reachable by blast
  have "two_envs True = mirror_env" "node_env (two_envs False)" using two_envs_network by (simp add: two_envs_def, simp only: network_def)
  moreover obtain bs where "serves (two_envs False) 0 bs (\<sigma> False)"
    using reachable_network_ok [OF two_envs_network \<sigma>(1), of True 0 False] \<sigma>(2) calculation(1) by auto
  moreover from this have "[b] = bs" using node_env.serves_chain [OF calculation(2) _ \<sigma>(4)] by blast
  ultimately show ?thesis using \<sigma>(1,3) by blast
qed

end
