(* ===== verification/Lock_Order.thy ===== *)
theory Lock_Order
  imports Prelude
begin

text \<open>
  Goroutines that lock mutexes: a small language for what a function locks and unlocks, its runs, an order of the mutexes that a program may respect,
  and what follows for goroutines that run in parallel. The mutexes themselves are a type variable.
\<close>

section \<open>Programs\<close>

text \<open>
  What a function does to mutexes: \<open>Choice\<close> is a branch on data, \<open>Loop\<close> any number of rounds, \<open>Deferred m p\<close> is \<^verbatim>\<open>Lock\<close> with \<^verbatim>\<open>defer Unlock\<close>
  around the rest of a function, and \<open>MayPanic\<close> a call that may panic.
\<close>

datatype 'm prog = Nothing | Lock 'm | Unlock 'm | Seq "'m prog" "'m prog" | Choice "'m prog" "'m prog" | Loop "'m prog"
  | Deferred 'm "'m prog" | MayPanic

definition steps :: "'m prog list \<Rightarrow> 'm prog" where
  "steps ps = foldr Seq ps Nothing"

datatype 'm action = Acquire 'm | Release 'm

text \<open>The runs of a program: what they do in order, and whether they end without a panic. A panic runs the deferred unlocks and nothing else.\<close>

inductive runs :: "'m prog \<Rightarrow> 'm action list \<Rightarrow> bool \<Rightarrow> bool" where
  nothing: "runs Nothing [] True"
| lock: "runs (Lock m) [Acquire m] True"
| unlock: "runs (Unlock m) [Release m] True"
| seq: "runs p a True \<Longrightarrow> runs q b c \<Longrightarrow> runs (Seq p q) (a @ b) c"
| seq_panic: "runs p a False \<Longrightarrow> runs (Seq p q) a False"
| left: "runs p a c \<Longrightarrow> runs (Choice p q) a c"
| right: "runs q a c \<Longrightarrow> runs (Choice p q) a c"
| loop_end: "runs (Loop p) [] True"
| loop_again: "runs p a True \<Longrightarrow> runs (Loop p) b c \<Longrightarrow> runs (Loop p) (a @ b) c"
| loop_panic: "runs p a False \<Longrightarrow> runs (Loop p) a False"
| deferred: "runs p a c \<Longrightarrow> runs (Deferred m p) (Acquire m # a @ [Release m]) c"
| no_panic: "runs MayPanic [] True"
| panic: "runs MayPanic [] False"

inductive_simps runs_atoms [simp]:
  "runs Nothing a c" "runs (Lock m) a c" "runs (Unlock m) a c" "runs MayPanic a c" "runs (Choice p q) a c" "runs (Seq p q) a c"
  "runs (Deferred m p) a c"

lemma steps_simps [simp]: "steps [] = Nothing" "steps (p # ps) = Seq p (steps ps)"
  by (simp_all add: steps_def)

lemma loop_never: "runs (Loop p) [] True" and loop_once: "runs p a True \<Longrightarrow> runs (Loop p) a True"
  using runs.loop_again [OF _ runs.loop_end] by (auto intro: runs.loop_end)

text \<open>One program is part of another when it has no other runs.\<close>

definition part_of :: "'m prog \<Rightarrow> 'm prog \<Rightarrow> bool" where
  "part_of p q \<longleftrightarrow> (\<forall>a ok. runs p a ok \<longrightarrow> runs q a ok)"

lemma part_of_intros:
  "part_of p p" "part_of p q \<Longrightarrow> part_of p (Choice q r)" "part_of p r \<Longrightarrow> part_of p (Choice q r)"
  "part_of p q \<Longrightarrow> part_of p' q' \<Longrightarrow> part_of (Seq p p') (Seq q q')" "part_of p q \<Longrightarrow> part_of (Deferred m p) (Deferred m q)"
  by (auto simp: part_of_def) blast+

lemma part_of_last: "part_of p q \<Longrightarrow> part_of p (Seq q Nothing)"
proof -
  have "runs (Seq q Nothing) a ok" if "runs q a ok" for a ok
    using runs.seq [OF _ runs.nothing, of q a] runs.seq_panic [of q a] that by (cases ok) auto
  then show "part_of p q \<Longrightarrow> ?thesis" by (simp add: part_of_def)
qed

section \<open>An order of the mutexes\<close>

text \<open>
  \<open>order_ok rank H p\<close> checks that a program that starts with the mutexes \<open>H\<close> held, the newest first, locks only mutexes of a higher rank than all
  it holds and unlocks the newest; the result is what it holds at the end.
\<close>

fun order_ok :: "('m \<Rightarrow> nat) \<Rightarrow> 'm list \<Rightarrow> 'm prog \<Rightarrow> 'm list option" where
  "order_ok rank H Nothing = Some H"
| "order_ok rank H (Lock m) = (if \<forall>h \<in> set H. rank h < rank m then Some (m # H) else None)"
| "order_ok rank H (Unlock m) = (case H of [] \<Rightarrow> None | h # H' \<Rightarrow> if h = m then Some H' else None)"
| "order_ok rank H (Seq p q) = Option.bind (order_ok rank H p) (\<lambda>H. order_ok rank H q)"
| "order_ok rank H (Choice p q) = (if order_ok rank H p = order_ok rank H q then order_ok rank H p else None)"
| "order_ok rank H (Loop p) = (if order_ok rank H p = Some H then Some H else None)"
| "order_ok rank H (Deferred m p) =
     (if (\<forall>h \<in> set H. rank h < rank m) \<and> order_ok rank (m # H) p = Some (m # H) then Some H else None)"
| "order_ok rank H MayPanic = Some H"

fun ordered :: "('m \<Rightarrow> nat) \<Rightarrow> 'm list \<Rightarrow> 'm action list \<Rightarrow> bool" where
  "ordered rank H [] \<longleftrightarrow> H = []"
| "ordered rank H (Acquire m # a) \<longleftrightarrow> (\<forall>h \<in> set H. rank h < rank m) \<and> ordered rank (m # H) a"
| "ordered rank H (Release m # a) \<longleftrightarrow> (case H of [] \<Rightarrow> False | h # H' \<Rightarrow> h = m \<and> ordered rank H' a)"

lemma order_ok_sound:
  "runs p a c \<Longrightarrow> c \<Longrightarrow> order_ok rank H p = Some H' \<Longrightarrow> ordered rank H' b \<Longrightarrow> ordered rank H (a @ b)"
proof (induction arbitrary: H H' b rule: runs.induct)
  case (seq p a q b c)
  then show ?case by (auto simp: bind_eq_Some_conv)
next
  case (loop_again p a b c)
  then show ?case by (auto split: if_splits)
next
  case (deferred p a c m)
  then show ?case by (auto split: if_splits)
next
  case (left p a c q)
  then show ?case by (metis option.distinct(1) order_ok.simps(5))
next
  case (right q a c p)
  then show ?case by (metis option.distinct(1) order_ok.simps(5))
qed (auto split: if_splits list.splits)

corollary order_ok_runs: "runs p a True \<Longrightarrow> order_ok rank [] p = Some [] \<Longrightarrow> ordered rank [] a"
  using order_ok_sound [of p a True rank "[]" "[]" "[]"] by simp

text \<open>
  \<open>panics_ok rank B H p\<close> checks that a run that starts with \<open>H\<close> held and panics ends with exactly \<open>B\<close> held: where a program may panic, it holds besides \<open>B\<close>
  only mutexes whose release is deferred.
\<close>

fun can_panic :: "'m prog \<Rightarrow> bool" where
  "can_panic MayPanic \<longleftrightarrow> True"
| "can_panic (Seq p q) \<longleftrightarrow> can_panic p \<or> can_panic q"
| "can_panic (Choice p q) \<longleftrightarrow> can_panic p \<or> can_panic q"
| "can_panic (Loop p) \<longleftrightarrow> can_panic p"
| "can_panic (Deferred m p) \<longleftrightarrow> can_panic p"
| "can_panic p \<longleftrightarrow> False"

fun panics_ok :: "('m \<Rightarrow> nat) \<Rightarrow> 'm list \<Rightarrow> 'm list \<Rightarrow> 'm prog \<Rightarrow> bool" where
  "panics_ok rank B H MayPanic \<longleftrightarrow> B = H"
| "panics_ok rank B H (Seq p q) \<longleftrightarrow>
     panics_ok rank B H p \<and> (case order_ok rank H p of None \<Rightarrow> \<not> can_panic q | Some H' \<Rightarrow> panics_ok rank B H' q)"
| "panics_ok rank B H (Choice p q) \<longleftrightarrow> panics_ok rank B H p \<and> panics_ok rank B H q"
| "panics_ok rank B H (Loop p) \<longleftrightarrow> panics_ok rank B H p"
| "panics_ok rank B H (Deferred m p) \<longleftrightarrow> (can_panic p \<longrightarrow> B = H \<and> panics_ok rank (m # H) (m # H) p)"
| "panics_ok rank B H p \<longleftrightarrow> True"

lemma panic_possible: "runs p a c \<Longrightarrow> \<not> c \<Longrightarrow> can_panic p"
  by (induction rule: runs.induct) auto

lemma runs_seq_panic: "\<not> can_panic p \<Longrightarrow> runs (Seq p q) a False \<longleftrightarrow> (\<exists>x y. a = x @ y \<and> runs p x True \<and> runs q y False)"
  using panic_possible [of p a False] by auto

lemma no_panic_ok: "\<not> can_panic p \<Longrightarrow> panics_ok rank B H p"
  by (induction rank B H p rule: panics_ok.induct) (auto split: option.splits)

lemma panics_ok_sound:
  "runs p a c \<Longrightarrow> \<not> c \<Longrightarrow> order_ok rank H p = Some H' \<Longrightarrow> panics_ok rank B H p \<Longrightarrow> ordered rank B b \<Longrightarrow> ordered rank H (a @ b)"
proof (induction arbitrary: H H' B b rule: runs.induct)
  case (seq p a q a' c)
  then obtain H1 where H1: "order_ok rank H p = Some H1" "order_ok rank H1 q = Some H'" by (auto simp: bind_eq_Some_conv)
  then have "ordered rank H1 (a' @ b)" using seq.IH(2) [OF seq.prems(1) H1(2) _ seq.prems(4)] seq.prems(3) by simp
  then show ?case using order_ok_sound [OF seq.hyps(1) TrueI H1(1)] by simp
next
  case (loop_again p a a' c)
  then have H: "order_ok rank H p = Some H" by (auto split: if_splits)
  then have "ordered rank H (a' @ b)" using loop_again by (metis order_ok.simps(6))
  then show ?case using order_ok_sound [OF loop_again.hyps(1) TrueI H] by simp
next
  case (deferred p a c m)
  have "can_panic p" by (rule panic_possible [OF deferred.hyps deferred.prems(1)])
  then have B: "B = H" "panics_ok rank (m # H) (m # H) p" using deferred.prems(3) by simp_all
  then show ?case using deferred by (auto split: if_splits)
next
  case (left p a c q)
  then show ?case by (metis option.distinct(1) order_ok.simps(5) panics_ok.simps(3))
next
  case (right q a c p)
  then show ?case by (metis option.distinct(1) order_ok.simps(5) panics_ok.simps(3))
qed (auto simp: bind_eq_Some_conv split: if_splits)

section \<open>Goroutines in parallel\<close>

text \<open>A state of the process: the mutexes that are held, and what each goroutine has left to do.\<close>

type_synonym 'm threads = "'m set \<times> 'm action list list"

inductive lock_step :: "'m threads \<Rightarrow> 'm threads \<Rightarrow> bool" where
  take_mutex: "i < length ts \<Longrightarrow> ts ! i = Acquire m # a \<Longrightarrow> m \<notin> held \<Longrightarrow> lock_step (held, ts) (insert m held, ts[i := a])"
| free_mutex: "i < length ts \<Longrightarrow> ts ! i = Release m # a \<Longrightarrow> m \<in> held \<Longrightarrow> lock_step (held, ts) (held - {m}, ts[i := a])"

text \<open>Goroutine \<open>i\<close> holds \<open>Hs i\<close>, and no other one does.\<close>

definition shared :: "('m \<Rightarrow> nat) \<Rightarrow> (nat \<Rightarrow> 'm list) \<Rightarrow> 'm threads \<Rightarrow> bool" where
  "shared rank Hs = (\<lambda>(held, ts).
     (\<forall>i < length ts. ordered rank (Hs i) (ts ! i) \<and> distinct (Hs i)) \<and> held = (\<Union>i < length ts. set (Hs i)) \<and>
     (\<forall>i < length ts. \<forall>j < length ts. i \<noteq> j \<longrightarrow> set (Hs i) \<inter> set (Hs j) = {}))"

lemma shared_update:
  assumes "shared rank Hs (held, ts)" and i: "i < length ts" and "ordered rank H a" and "distinct H"
    and apart: "\<forall>j < length ts. j \<noteq> i \<longrightarrow> set H \<inter> set (Hs j) = {}"
  shows "shared rank (Hs(i := H)) (held - set (Hs i) \<union> set H, ts[i := a])"
proof -
  have s: "\<forall>j < length ts. ordered rank (Hs j) (ts ! j) \<and> distinct (Hs j)" "held = (\<Union>j < length ts. set (Hs j))"
    "\<forall>j < length ts. \<forall>k < length ts. j \<noteq> k \<longrightarrow> set (Hs j) \<inter> set (Hs k) = {}"
    using assms(1) by (simp_all add: shared_def)
  have "held - set (Hs i) \<union> set H = (\<Union>j < length ts. set ((Hs(i := H)) j))"
  proof -
    have "(\<Union>j < length ts. set ((Hs(i := H)) j)) = (\<Union>j \<in> {..<length ts} - {i}. set (Hs j)) \<union> set H"
      using i by (auto split: if_splits)
    moreover have "held - set (Hs i) = (\<Union>j \<in> {..<length ts} - {i}. set (Hs j))"
      unfolding s(2) using s(3) i by blast
    ultimately show ?thesis by simp
  qed
  moreover have "\<forall>j < length ts. ordered rank ((Hs(i := H)) j) (ts[i := a] ! j) \<and> distinct ((Hs(i := H)) j)"
    using s(1) assms(3,4) by (simp add: nth_list_update)
  moreover have "\<forall>j < length ts. \<forall>k < length ts. j \<noteq> k \<longrightarrow> set ((Hs(i := H)) j) \<inter> set ((Hs(i := H)) k) = {}"
    using s(3) apart by (simp add: Int_commute)
  ultimately show ?thesis by (simp add: shared_def)
qed

lemma shared_at:
  "shared rank Hs (held, ts) \<Longrightarrow> i < length ts \<Longrightarrow> ordered rank (Hs i) (ts ! i) \<and> distinct (Hs i) \<and> set (Hs i) \<subseteq> held"
  by (auto simp: shared_def)

lemma shared_apart:
  "shared rank Hs (held, ts) \<Longrightarrow> i < length ts \<Longrightarrow> j < length ts \<Longrightarrow> j \<noteq> i \<Longrightarrow> set (Hs i) \<inter> set (Hs j) = {}"
  by (auto simp: shared_def)

lemma shared_step:
  assumes "lock_step S S'" and "shared rank Hs S"
  shows "\<exists>Hs'. shared rank Hs' S'"
  using assms
proof (cases rule: lock_step.cases)
  case (take_mutex i ts m a held)
  then have s: "shared rank Hs (held, ts)" using assms(2) by simp
  have o: "ordered rank (m # Hs i) a" "distinct (m # Hs i)" "set (Hs i) \<subseteq> held"
    using shared_at [OF s take_mutex(3)] take_mutex(4,5) by auto
  have "\<forall>j < length ts. j \<noteq> i \<longrightarrow> set (m # Hs i) \<inter> set (Hs j) = {}"
    using shared_apart [OF s take_mutex(3)] shared_at [OF s] take_mutex(5) by auto
  from shared_update [OF s take_mutex(3) o(1,2) this] have "shared rank (Hs(i := m # Hs i)) (insert m held, ts[i := a])"
    using o(3) by (simp add: Un_insert_right Un_absorb2 Diff_partition insert_absorb sup.commute)
  then show ?thesis using take_mutex by blast
next
  case (free_mutex i ts m a held)
  then have s: "shared rank Hs (held, ts)" using assms(2) by simp
  obtain H where H: "Hs i = m # H" "ordered rank H a" "distinct H" "m \<notin> set H" "set H \<subseteq> held"
    using shared_at [OF s free_mutex(3)] free_mutex(4) by (auto split: list.splits)
  have "\<forall>j < length ts. j \<noteq> i \<longrightarrow> set H \<inter> set (Hs j) = {}" using shared_apart [OF s free_mutex(3)] H(1) by auto
  from shared_update [OF s free_mutex(3) H(2,3) this] have "shared rank (Hs(i := H)) (held - {m}, ts[i := a])"
  proof -
    have "held - set (Hs i) \<union> set H = held - {m}" using H by auto
    then show ?thesis using \<open>shared rank (Hs(i := H)) (held - set (Hs i) \<union> set H, ts[i := a])\<close> by simp
  qed
  then show ?thesis using free_mutex by blast
qed

text \<open>Some goroutine that waits for a mutex of the highest rank can go on.\<close>

lemma shared_progress:
  assumes "shared rank Hs (held, ts)" and "i < length ts" and "ts ! i \<noteq> []"
  shows "\<exists>S. lock_step (held, ts) S"
proof (rule ccontr)
  assume stuck: "\<not> ?thesis"
  define W where "W = {i. i < length ts \<and> ts ! i \<noteq> []}"
  have "\<exists>m a. ts ! i = Acquire m # a \<and> m \<in> held" if "i \<in> W" for i
  proof (cases "ts ! i")
    case (Cons x a)
    show ?thesis
    proof (cases x)
      case (Acquire m)
      then show ?thesis using stuck lock_step.take_mutex [of i ts m a held] that Cons by (auto simp: W_def)
    next
      case (Release m)
      have "ordered rank (Hs i) (ts ! i)" "set (Hs i) \<subseteq> held" using assms(1) that by (auto simp: shared_def W_def)
      then have "m \<in> held" using Cons Release by (auto split: list.splits)
      then show ?thesis using stuck lock_step.free_mutex [of i ts m a held] that Cons Release by (auto simp: W_def)
    qed
  qed (use that in \<open>simp add: W_def\<close>)
  then obtain w where w: "\<And>i. i \<in> W \<Longrightarrow> (\<exists>a. ts ! i = Acquire (w i) # a) \<and> w i \<in> held" by metis
  have "finite W" "W \<noteq> {}" using assms(2,3) by (auto simp: W_def)
  then have "Max ((\<lambda>i. rank (w i)) ` W) \<in> (\<lambda>i. rank (w i)) ` W" by (intro Max_in) auto
  then obtain k where k: "k \<in> W" "Max ((\<lambda>i. rank (w i)) ` W) = rank (w k)" by blast
  have highest: "rank (w j) \<le> rank (w k)" if "j \<in> W" for j
    unfolding k(2) [symmetric] using \<open>finite W\<close> that by (intro Max_ge) auto
  obtain j where j: "j < length ts" "w k \<in> set (Hs j)" using w [OF k(1)] assms(1) by (auto simp: shared_def)
  have o: "ordered rank (Hs j) (ts ! j)" using assms(1) j(1) by (simp add: shared_def)
  then have "ts ! j \<noteq> []" using j(2) by auto
  then have "j \<in> W" using j(1) by (simp add: W_def)
  then have "rank (w k) < rank (w j)" using o w [of j] j(2) by auto
  then show False using highest [OF \<open>j \<in> W\<close>] by simp
qed

definition work :: "'m action list list \<Rightarrow> nat" where
  "work ts = sum_list (map length ts)"

lemma work_update: "i < length ts \<Longrightarrow> ts ! i = x # a \<Longrightarrow> work (ts[i := a]) < work ts"
  by (induction ts arbitrary: i) (auto simp: work_def less_Suc_eq_0_disj split: nat.splits)

lemma lock_step_work: "lock_step (held, ts) (held', us) \<Longrightarrow> work us < work ts \<and> length us = length ts"
  by (erule lock_step.cases) (auto simp: work_update)

lemma shared_finish:
  "shared rank Hs (held, ts) \<Longrightarrow> lock_step\<^sup>*\<^sup>* (held, ts) ({}, replicate (length ts) [])"
proof (induction "work ts" arbitrary: Hs held ts rule: less_induct)
  case less
  show ?case
  proof (cases "\<exists>i < length ts. ts ! i \<noteq> []")
    case True
    then obtain held' us where st: "lock_step (held, ts) (held', us)" using shared_progress [OF less.prems] by fastforce
    obtain Hs' where "shared rank Hs' (held', us)" using shared_step [OF st less.prems] by blast
    then show ?thesis using less.hyps [of us] lock_step_work [OF st] st by (metis converse_rtranclp_into_rtranclp)
  next
    case False
    then have "ts = replicate (length ts) []" by (auto intro: nth_equalityI)
    moreover have "held = {}" using less.prems False by (auto simp: shared_def)
    ultimately show ?thesis by (metis rtranclp.rtrancl_refl)
  qed
qed

text \<open>Goroutines that respect one order never wait for one another in a circle: from every state they reach they can all finish.\<close>

lemma ordered_finish:
  assumes "\<forall>t \<in> set ts. ordered rank [] t" and "lock_step\<^sup>*\<^sup>* ({}, ts) (held, us)"
  shows "lock_step\<^sup>*\<^sup>* (held, us) ({}, replicate (length ts) [])"
proof -
  have "shared rank (\<lambda>_. []) ({}, ts)" using assms(1) by (simp add: shared_def)
  with assms(2) have "(\<exists>Hs. shared rank Hs (held, us)) \<and> length us = length ts"
  proof (induction "({} :: 'a set, ts)" "(held, us)" arbitrary: held us rule: rtranclp.induct)
    case (rtrancl_into_rtrancl S)
    obtain held' ts' where S: "S = (held', ts')" by fastforce
    obtain Hs where "shared rank Hs (held', ts')" "length ts' = length ts"
      using rtrancl_into_rtrancl(2) [OF S rtrancl_into_rtrancl(4)] by blast
    then show ?case using shared_step [OF rtrancl_into_rtrancl(3) [unfolded S]] lock_step_work [OF rtrancl_into_rtrancl(3) [unfolded S]] by simp
  qed auto
  then show ?thesis using shared_finish by metis
qed

section \<open>Goroutines that wait forever\<close>

text \<open>
  The mutexes \<open>K\<close> are held by goroutines \<open>ts\<close> that wait for mutexes in \<open>K\<close> (or by none at all); the others, \<open>us\<close>, do not hold them.
  Each of these may have an order of its own.
\<close>

definition nested :: "'m list \<Rightarrow> 'm action list \<Rightarrow> bool" where
  "nested H a \<longleftrightarrow> (\<exists>rank. ordered rank H a)"

lemma nested_Acquire: "nested H (Acquire m # a) \<Longrightarrow> nested (m # H) a"
  by (auto simp: nested_def)

lemma nested_Release: "nested H (Release m # a) \<Longrightarrow> \<exists>H'. H = m # H' \<and> nested H' a"
  by (cases H) (auto simp: nested_def)

definition frozen :: "'m set \<Rightarrow> 'm action list list \<Rightarrow> (nat \<Rightarrow> 'm list) \<Rightarrow> 'm threads \<Rightarrow> bool" where
  "frozen K ts Hs = (\<lambda>(held, all). K \<subseteq> held \<and> (\<forall>t \<in> set ts. \<exists>m \<in> K. \<exists>a. t = Acquire m # a) \<and>
     length ts \<le> length all \<and> take (length ts) all = ts \<and>
     (\<forall>i. length ts \<le> i \<longrightarrow> i < length all \<longrightarrow> nested (Hs i) (all ! i) \<and> set (Hs i) \<inter> K = {}))"

lemma frozen_waits:
  assumes "frozen K ts Hs (held, all)" and "i < length all" and "all ! i = Acquire m # a \<and> m \<notin> held \<or> all ! i = Release m # a"
  shows "length ts \<le> i"
proof (rule ccontr)
  assume "\<not> ?thesis"
  then have less: "i < length ts" by simp
  have "take (length ts) all = ts" using assms(1) by (simp add: frozen_def)
  then have "ts ! i = all ! i" using less by (metis nth_take)
  then have "all ! i \<in> set ts" using less by (metis nth_mem)
  moreover have "\<forall>t \<in> set ts. \<exists>m \<in> K. \<exists>a. t = Acquire m # a" "K \<subseteq> held" using assms(1) by (simp_all add: frozen_def)
  ultimately obtain n b where "all ! i = Acquire n # b" "n \<in> held" by blast
  then show False using assms(3) by simp
qed

lemma frozen_update:
  assumes "frozen K ts Hs (held, all)" and "length ts \<le> i" and "i < length all" and "nested H a" and "set H \<inter> K = {}"
    and "K \<subseteq> held'"
  shows "frozen K ts (Hs(i := H)) (held', all[i := a])"
  using assms by (simp add: frozen_def nth_list_update)

lemma frozen_step:
  assumes "lock_step S S'" and "frozen K ts Hs S"
  shows "\<exists>Hs'. frozen K ts Hs' S'"
  using assms
proof (cases rule: lock_step.cases)
  case (take_mutex i all m a held)
  then have f: "frozen K ts Hs (held, all)" using assms(2) by simp
  have i: "length ts \<le> i" by (rule frozen_waits [OF f take_mutex(3)]) (use take_mutex(4,5) in simp)
  have "nested (Hs i) (all ! i)" "set (Hs i) \<inter> K = {}" "K \<subseteq> held" using f i take_mutex(3) by (simp_all add: frozen_def)
  then have "frozen K ts (Hs(i := m # Hs i)) (insert m held, all[i := a])"
    using take_mutex(5) by (intro frozen_update [OF f i take_mutex(3)] nested_Acquire) (auto simp: take_mutex(4))
  then show ?thesis using take_mutex by blast
next
  case (free_mutex i all m a held)
  then have f: "frozen K ts Hs (held, all)" using assms(2) by simp
  have i: "length ts \<le> i" by (rule frozen_waits [OF f free_mutex(3)]) (use free_mutex(4) in simp)
  have n: "nested (Hs i) (all ! i)" "set (Hs i) \<inter> K = {}" "K \<subseteq> held" using f i free_mutex(3) by (simp_all add: frozen_def)
  obtain H where H: "Hs i = m # H" "nested H a" using nested_Release [OF n(1) [unfolded free_mutex(4)]] by blast
  then have "nested H a" "set H \<inter> K = {}" "K \<subseteq> held - {m}" using n(2,3) by auto
  then have "frozen K ts (Hs(i := H)) (held - {m}, all[i := a])" by (rule frozen_update [OF f i free_mutex(3)])
  then show ?thesis using free_mutex by blast
qed

lemma frozen_forever:
  assumes "lock_step\<^sup>*\<^sup>* S S'" and "frozen K ts Hs S"
  shows "\<exists>Hs'. frozen K ts Hs' S'"
  using assms by (induction rule: rtranclp_induct) (use frozen_step in blast)+

text \<open>Who still has to lock a mutex of \<open>K\<close> never ends.\<close>

lemma frozen_pending_step:
  assumes "lock_step S S'" and "frozen K ts Hs S" and "m \<in> K" and "i < length (snd S)" and "Acquire m \<in> set (snd S ! i)"
  shows "i < length (snd S') \<and> Acquire m \<in> set (snd S' ! i)"
  using assms by (cases rule: lock_step.cases) (auto simp: frozen_def nth_list_update)

lemma frozen_pending:
  assumes "lock_step\<^sup>*\<^sup>* S S'" and "frozen K ts Hs S" and "m \<in> K" and "i < length (snd S)" and "Acquire m \<in> set (snd S ! i)"
  shows "snd S' ! i \<noteq> []"
proof -
  have "i < length (snd S') \<and> Acquire m \<in> set (snd S' ! i)"
    using assms(1)
  proof (induction rule: rtranclp_induct)
    case (step T U)
    then show ?case using frozen_forever [OF _ assms(2)] frozen_pending_step [OF _ _ assms(3)] by blast
  qed (use assms in simp)
  then show ?thesis by auto
qed

section \<open>One goroutine at a time\<close>

fun solo :: "'m set \<Rightarrow> 'm action list \<Rightarrow> 'm set option" where
  "solo held [] = Some held"
| "solo held (Acquire m # a) = (if m \<in> held then None else solo (insert m held) a)"
| "solo held (Release m # a) = (if m \<in> held then solo (held - {m}) a else None)"

lemma solo_steps: "solo held a = Some held' \<Longrightarrow> i < length ts \<Longrightarrow> lock_step\<^sup>*\<^sup>* (held, ts[i := a @ b]) (held', ts[i := b])"
proof (induction held a rule: solo.induct)
  case (2 held m a)
  then have "lock_step (held, ts[i := (Acquire m # a) @ b]) (insert m held, ts[i := a @ b])"
    using lock_step.take_mutex [of i "ts[i := (Acquire m # a) @ b]" m "a @ b" held] by (simp split: if_splits)
  with 2 show ?case by (auto split: if_splits intro: converse_rtranclp_into_rtranclp)
next
  case (3 held m a)
  then have "lock_step (held, ts[i := (Release m # a) @ b]) (held - {m}, ts[i := a @ b])"
    using lock_step.free_mutex [of i "ts[i := (Release m # a) @ b]" m "a @ b" held] by (simp split: if_splits)
  with 3 show ?case by (auto split: if_splits intro: converse_rtranclp_into_rtranclp)
qed simp

lemma runs_steps: "list_all2 (\<lambda>p a. runs p a True) ps as \<Longrightarrow> runs (steps ps) (concat as) True"
  by (induction rule: list_all2_induct) (auto intro: runs.intros)

lemma runs_steps_panic: "list_all2 (\<lambda>p a. runs p a True) ps as \<Longrightarrow> runs p b False \<Longrightarrow> runs (steps (ps @ p # qs)) (concat as @ b) False"
proof (induction rule: list_all2_induct)
  case (Cons q ps a as)
  then show ?case using runs.seq [OF Cons.hyps(1), of "steps (ps @ p # qs)" "concat as @ b" False] by simp
qed (simp add: runs.seq_panic)

section \<open>A mutex that is never unlocked\<close>

text \<open>
  \<open>solo\<close> says what a goroutine that unlocks only what it locked holds in the end. Goroutine \<open>i\<close> holds \<open>Ss i\<close> and will hold \<open>F i\<close> at its end, however the
  goroutines interleave.
\<close>

definition separate :: "(nat \<Rightarrow> 'm set) \<Rightarrow> (nat \<Rightarrow> 'm set) \<Rightarrow> 'm threads \<Rightarrow> bool" where
  "separate F Ss = (\<lambda>(held, ts). (\<forall>i < length ts. solo (Ss i) (ts ! i) = Some (F i) \<and> Ss i \<subseteq> held) \<and>
     (\<forall>i < length ts. \<forall>j < length ts. i \<noteq> j \<longrightarrow> Ss i \<inter> Ss j = {}))"

lemma separate_step:
  assumes "lock_step S S'" and "separate F Ss S"
  shows "\<exists>Ss'. separate F Ss' S'"
  using assms
proof (cases rule: lock_step.cases)
  case (take_mutex i ts m a held)
  then have s: "\<forall>j < length ts. solo (Ss j) (ts ! j) = Some (F j) \<and> Ss j \<subseteq> held" "\<forall>j < length ts. \<forall>k < length ts. j \<noteq> k \<longrightarrow> Ss j \<inter> Ss k = {}"
    using assms(2) by (simp_all add: separate_def)
  have "solo (insert m (Ss i)) a = Some (F i)" using s(1) take_mutex(3,4) by (force split: if_splits)
  then have "separate F (Ss(i := insert m (Ss i))) (insert m held, ts[i := a])"
    using s take_mutex(3,5) by (auto simp: separate_def nth_list_update)
  then show ?thesis using take_mutex by blast
next
  case (free_mutex i ts m a held)
  then have s: "\<forall>j < length ts. solo (Ss j) (ts ! j) = Some (F j) \<and> Ss j \<subseteq> held" "\<forall>j < length ts. \<forall>k < length ts. j \<noteq> k \<longrightarrow> Ss j \<inter> Ss k = {}"
    using assms(2) by (simp_all add: separate_def)
  have m: "solo (Ss i - {m}) a = Some (F i)" "m \<in> Ss i" using s(1) free_mutex(3,4) by (force split: if_splits)+
  have "separate F (Ss(i := Ss i - {m})) (held - {m}, ts[i := a])"
    using s free_mutex(3) m by (fastforce simp: separate_def nth_list_update)
  then show ?thesis using free_mutex by blast
qed

lemma separate_steps:
  assumes "lock_step\<^sup>*\<^sup>* S S'" and "separate F Ss S"
  shows "\<exists>Ss'. separate F Ss' S'"
  using assms by (induction rule: rtranclp_induct) (use separate_step in blast)+

lemma steps_length: "lock_step\<^sup>*\<^sup>* S S' \<Longrightarrow> length (snd S') = length (snd S)"
proof (induction rule: rtranclp_induct)
  case (step T U)
  then show ?case using lock_step_work [of "fst T" "snd T" "fst U" "snd U"] by simp
qed simp

lemma ended_stays: "lock_step\<^sup>*\<^sup>* S S' \<Longrightarrow> i < length (snd S) \<Longrightarrow> snd S ! i = [] \<Longrightarrow> snd S' ! i = []"
proof (induction rule: rtranclp_induct)
  case (step T U)
  then show ?case by (auto simp: nth_list_update elim!: lock_step.cases)
qed simp

text \<open>A goroutine that ends with \<open>m\<close> held leaves it locked for good, and who still has to lock it never ends.\<close>

lemma left_locked:
  assumes "solo {} t = Some F0" and "m \<in> F0" and "\<forall>u \<in> set others. solo {} u \<noteq> None"
    and r: "lock_step\<^sup>*\<^sup>* ({}, t # others) (held, us)" and "us ! 0 = []"
  shows "m \<in> held"
    and "lock_step\<^sup>*\<^sup>* (held, us) (held', us') \<Longrightarrow> m \<in> held' \<and> (i < length others \<longrightarrow> Acquire m \<in> set (us ! (i + 1)) \<longrightarrow> us' ! (i + 1) \<noteq> [])"
proof -
  define F where "F i = (if i = 0 then F0 else the (solo {} (others ! (i - 1))))" for i
  have start: "separate F (\<lambda>_. {}) ({}, t # others)"
    using assms(1,3) by (auto simp: separate_def F_def nth_Cons split: nat.splits)
  have len: "length us = Suc (length others)" using steps_length [OF r] by simp
  have locked: "m \<in> h" if s: "separate F Ss (h, vs)" "0 < length vs" "vs ! 0 = []" for Ss h vs
  proof -
    have "solo (Ss 0) (vs ! 0) = Some (F 0)" "Ss 0 \<subseteq> h" using s(1,2) by (auto simp: separate_def)
    then show ?thesis using s(3) assms(2) by (auto simp: F_def)
  qed
  obtain Ss where Ss: "separate F Ss (held, us)" using separate_steps [OF r start] by blast
  show "m \<in> held" using locked [OF Ss] len assms(5) by simp
  assume r': "lock_step\<^sup>*\<^sup>* (held, us) (held', us')"
  have "m \<in> fst S \<and> (i < length others \<longrightarrow> Acquire m \<in> set (us ! (i + 1)) \<longrightarrow> Acquire m \<in> set (snd S ! (i + 1)))"
    if "lock_step\<^sup>*\<^sup>* (held, us) S" for S
    using that
  proof (induction rule: rtranclp_induct)
    case base
    then show ?case using locked [OF Ss] len assms(5) by simp
  next
    case (step T U)
    have reach: "lock_step\<^sup>*\<^sup>* ({}, t # others) U" using r step.hyps by (meson rtranclp.rtrancl_into_rtrancl rtranclp_trans)
    obtain Ss' where Ss': "separate F Ss' U" using separate_steps [OF reach start] by blast
    have "lock_step\<^sup>*\<^sup>* (held, us) U" using step.hyps by (meson rtranclp.rtrancl_into_rtrancl)
    then have "snd U ! 0 = []" "length (snd U) = length us" using ended_stays [of "(held, us)" U 0] steps_length [of "(held, us)" U] assms(5) len by auto
    then have "m \<in> fst U" using locked [of Ss' "fst U" "snd U"] Ss' len by simp
    moreover have "Acquire m \<in> set (snd U ! (i + 1))" if "Acquire m \<in> set (snd T ! (i + 1))"
      using step.hyps(2) that step.IH by (cases rule: lock_step.cases) (auto simp: nth_list_update)
    ultimately show ?case using step.IH by blast
  qed
  from this [OF r'] show "m \<in> held' \<and> (i < length others \<longrightarrow> Acquire m \<in> set (us ! (i + 1)) \<longrightarrow> us' ! (i + 1) \<noteq> [])" by auto
qed

text \<open>An ordered run unlocks only what it locked.\<close>

lemma ordered_solo:
  "ordered rank H a \<Longrightarrow> distinct H \<Longrightarrow> solo (set H) a = Some {}"
proof (induction rank H a rule: ordered.induct)
  case (2 rank H m a)
  then have "m \<notin> set H" by auto
  then show ?case using 2 by simp
next
  case (3 rank H m a)
  then show ?case by (auto split: list.splits)
qed simp

lemma solo_append: "solo held (a @ b) = Option.bind (solo held a) (\<lambda>held. solo held b)"
  by (induction held a rule: solo.induct) auto

end
