(* ===== verification/Node_Locks.thy ===== *)
theory Node_Locks
  imports Lock_Order Handlers Mining
begin

text \<open>
  The mutexes of the program. Every function that locks one, or calls one that does, is written as the program of its locks: the calls in the order of
  the source, with data left out, so that a branch is a \<open>Choice\<close> and a loop a \<open>Loop\<close>. The mutexes of the log are left out: they are
  taken and released inside a call of the log. Groups are taken modulo their number.
\<close>

section \<open>The mutexes\<close>

text \<open>
  Every mutex of the program outside the log; a pool has one for each group. \<^verbatim>\<open>sync.Once\<close> also locks while its function runs
  for the first time (\<open>RegisterOnce\<close>).
\<close>

datatype mutex = TxnHandler | RelayHandler | BlockHandler | HeadHandler | SyncMutex | UpdateMutex | RegisterOnce | OnceHeight | OnceHeadHeight
  | PoolMutex int | BoltMutex | OpenMutex | HeightMutex | HeadHeightMutex | DecodeMutex | NodesMutex

definition SyncLock :: "mutex prog" where "SyncLock = Lock SyncMutex"
definition SyncUnlock :: "mutex prog" where "SyncUnlock = Unlock SyncMutex"
definition UpdateLock :: "mutex prog" where "UpdateLock = Lock UpdateMutex"
definition UpdateUnlock :: "mutex prog" where "UpdateUnlock = Unlock UpdateMutex"

text \<open>An optional part, and a lock that protects a few assignments.\<close>

abbreviation optional :: "mutex prog \<Rightarrow> mutex prog" where
  "optional p \<equiv> Choice p Nothing"

abbreviation brief :: "mutex \<Rightarrow> mutex prog" where
  "brief m \<equiv> steps [Lock m, Unlock m]"

section \<open>Database, pool, node list\<close>

definition getDatabase_mutexes :: "mutex prog" where
  "getDatabase_mutexes = Deferred OpenMutex Nothing"

definition db_mutexes :: "mutex prog" where
  "db_mutexes = Deferred BoltMutex getDatabase_mutexes"

definition Foreach_mutexes :: "mutex prog \<Rightarrow> mutex prog" where
  "Foreach_mutexes fn = Deferred BoltMutex (steps [getDatabase_mutexes, Loop fn])"

definition Decode_mutexes :: "mutex prog" where
  "Decode_mutexes = brief DecodeMutex"

text \<open>\<^verbatim>\<open>AddTxn\<close>, \<^verbatim>\<open>GetTxn\<close>, \<^verbatim>\<open>GetTxns\<close>, \<^verbatim>\<open>GetMempoolSize\<close> and \<^verbatim>\<open>ExpandTxnOutput\<close> all take the pool and release it.\<close>

definition pool_mutexes :: "int \<Rightarrow> mutex prog" where
  "pool_mutexes g = brief (PoolMutex g)"

definition AddNode_mutexes :: "mutex prog" where
  "AddNode_mutexes = Deferred NodesMutex Nothing"

definition UpdateSortedNodes_mutexes :: "mutex prog" where
  "UpdateSortedNodes_mutexes = Deferred NodesMutex Nothing"

definition Register_mutexes :: "mutex prog" where
  "Register_mutexes = optional (Deferred RegisterOnce (steps [AddNode_mutexes, UpdateSortedNodes_mutexes]))"

definition GetKnownNodes_mutexes :: "mutex prog" where
  "GetKnownNodes_mutexes = optional (Loop AddNode_mutexes)"

section \<open>The stored chain\<close>

definition BytesToBlock_mutexes :: "mutex prog" where
  "BytesToBlock_mutexes = optional Decode_mutexes"

definition GetLastest_mutexes :: "mutex prog" where
  "GetLastest_mutexes = steps [db_mutexes, BytesToBlock_mutexes]"

definition GetBlockByHash_mutexes :: "mutex prog" where
  "GetBlockByHash_mutexes = steps [db_mutexes, BytesToBlock_mutexes]"

text \<open>\<^verbatim>\<open>GetBlockByHeight\<close> and \<^verbatim>\<open>GetGenesis\<close> read the hash and the block, each a second time when the first gives nil.\<close>

definition GetBlockByHeight_mutexes :: "mutex prog" where
  "GetBlockByHeight_mutexes = steps [db_mutexes, optional db_mutexes, db_mutexes, optional db_mutexes, BytesToBlock_mutexes]"

definition SetLastest_mutexes :: "mutex prog" where
  "SetLastest_mutexes = steps [db_mutexes, brief HeightMutex]"

definition GetHeight_mutexes :: "mutex prog" where
  "GetHeight_mutexes =
     steps [Lock OnceHeight, optional (steps [GetLastest_mutexes, Deferred HeightMutex Nothing]), Unlock OnceHeight, Deferred HeightMutex Nothing]"

definition Blockhead_GetHeight_mutexes :: "mutex prog" where
  "Blockhead_GetHeight_mutexes =
     steps [Lock OnceHeadHeight, optional (steps [GetLastest_mutexes, brief HeadHeightMutex]), Unlock OnceHeadHeight,
       Deferred HeadHeightMutex Nothing]"

text \<open>\<^verbatim>\<open>Verify\<close> panics on a block whose target is below 1.\<close>

definition AddBlockhead_mutexes :: "mutex prog" where
  "AddBlockhead_mutexes =
     steps [db_mutexes, optional (steps [MayPanic, optional (steps [Blockhead_GetHeight_mutexes,
       optional (steps [brief HeadHeightMutex, db_mutexes, db_mutexes])])])]"

definition FindTxn_mutexes :: "mutex prog" where
  "FindTxn_mutexes = steps [db_mutexes, optional Decode_mutexes]"

text \<open>The end of \<^verbatim>\<open>AddBlock\<close> looks up the inputs of the transactions in the pool, in the database, while it holds the pool.\<close>

definition AddBlock_mutexes :: "int \<Rightarrow> mutex prog" where
  "AddBlock_mutexes g =
     optional (steps [GetHeight_mutexes,
       optional (steps [SetLastest_mutexes, db_mutexes, db_mutexes, AddBlockhead_mutexes, Loop db_mutexes,
         Lock (PoolMutex g), Loop (Loop FindTxn_mutexes), Unlock (PoolMutex g)])])"

definition DeleteBlock_mutexes :: "mutex prog" where
  "DeleteBlock_mutexes = steps [db_mutexes, db_mutexes, db_mutexes, Loop db_mutexes]"

definition iterate_mutexes :: "mutex prog \<Rightarrow> mutex prog" where
  "iterate_mutexes visit = steps [db_mutexes, BytesToBlock_mutexes, MayPanic, Loop (steps [db_mutexes, BytesToBlock_mutexes, visit])]"

definition TxnReindex_mutexes :: "mutex prog" where
  "TxnReindex_mutexes = steps [db_mutexes, iterate_mutexes (Loop db_mutexes)]"

text \<open>The loop that \<^verbatim>\<open>SignTransaction\<close> and \<^verbatim>\<open>VerifyTransaction\<close> share.\<close>

definition prev_txns_mutexes :: "int \<Rightarrow> mutex prog" where
  "prev_txns_mutexes g = Loop (steps [FindTxn_mutexes, optional (pool_mutexes g)])"

section \<open>The set of unspent outputs\<close>

text \<open>\<^verbatim>\<open>UpdateLock\<close> with \<^verbatim>\<open>defer UpdateUnlock\<close> is \<open>Deferred UpdateMutex\<close>, likewise for \<^verbatim>\<open>SyncLock\<close>.\<close>

definition Reindex_mutexes :: "mutex prog" where
  "Reindex_mutexes = Deferred UpdateMutex (steps [iterate_mutexes Nothing, db_mutexes, Loop db_mutexes])"

definition update_vin_mutexes :: "mutex prog" where
  "update_vin_mutexes = steps [db_mutexes, optional (steps [Decode_mutexes, db_mutexes])]"

text \<open>\<^verbatim>\<open>Update\<close> ends after all transactions, or at an input that is not in the set, where it releases the mutex and rebuilds the set.\<close>

definition Update_mutexes :: "mutex prog" where
  "Update_mutexes =
     steps [UpdateLock, Loop (steps [Loop update_vin_mutexes, db_mutexes]),
       Choice UpdateUnlock (steps [Loop update_vin_mutexes, db_mutexes, UpdateUnlock, Reindex_mutexes, TxnReindex_mutexes])]"

definition Reverse_mutexes :: "mutex prog" where
  "Reverse_mutexes =
     Deferred UpdateMutex (Loop (optional (steps [db_mutexes, Loop (steps [db_mutexes, optional Decode_mutexes, db_mutexes])])))"

definition FindUTXOByHash_mutexes :: "mutex prog" where
  "FindUTXOByHash_mutexes = Deferred UpdateMutex (Foreach_mutexes Decode_mutexes)"

definition findUTXOs_mutexes :: "int \<Rightarrow> mutex prog" where
  "findUTXOs_mutexes g = Deferred UpdateMutex (Foreach_mutexes (steps [Decode_mutexes, Loop (optional (pool_mutexes g))]))"

definition CreateTransaction_mutexes :: "int \<Rightarrow> mutex prog" where
  "CreateTransaction_mutexes g = optional (steps [findUTXOs_mutexes g, optional (prev_txns_mutexes g)])"

definition UTXOMemVerify_mutexes :: "int \<Rightarrow> mutex prog" where
  "UTXOMemVerify_mutexes g =
     optional (Deferred SyncMutex (Deferred UpdateMutex (steps [pool_mutexes g,
       Loop (optional (Loop (optional (steps [db_mutexes, optional Decode_mutexes]))))])))"

section \<open>Synchronisation and handlers\<close>

text \<open>
  A request to another node takes no mutex here. A block that is fetched names its own group; \<open>gs\<close> are the groups of the blocks that
  \<^verbatim>\<open>syncBlocks\<close> appends, and \<open>g\<close> is the group of the first block that \<^verbatim>\<open>Sync\<close> fetches.
\<close>

definition append_mutexes :: "int list \<Rightarrow> mutex prog" where
  "append_mutexes gs = steps (map (\<lambda>g. steps [AddBlock_mutexes g, Update_mutexes]) gs)"

definition syncBlocks_mutexes :: "int list \<Rightarrow> mutex prog" where
  "syncBlocks_mutexes gs =
     Deferred SyncMutex (steps [GetHeight_mutexes,
       optional (steps [GetLastest_mutexes, Loop GetBlockByHeight_mutexes,
         optional (steps [GetBlockByHeight_mutexes, SetLastest_mutexes,
           Choice (steps [GetBlockByHash_mutexes, SetLastest_mutexes])
             (steps [Loop (steps [GetBlockByHeight_mutexes, optional (steps [Reverse_mutexes, DeleteBlock_mutexes])]), append_mutexes gs])])])])"

definition Sync_mutexes :: "int \<Rightarrow> int list \<Rightarrow> mutex prog" where
  "Sync_mutexes g gs =
     steps [Register_mutexes, GetHeight_mutexes,
       optional (steps [Loop (steps [GetKnownNodes_mutexes, UpdateSortedNodes_mutexes]), AddBlock_mutexes g, Reindex_mutexes, TxnReindex_mutexes]),
       GetBlockByHeight_mutexes, GetLastest_mutexes, syncBlocks_mutexes gs]"

text \<open>Every handler parses its arguments first (\<^verbatim>\<open>ParseParameter\<close>). An early \<^verbatim>\<open>Return\<close> runs the deferred unlocks.\<close>

definition GetGenesis_mutexes :: "mutex prog" where
  "GetGenesis_mutexes = steps [Decode_mutexes, GetBlockByHeight_mutexes]"

definition GetBalance_mutexes :: "mutex prog" where
  "GetBalance_mutexes = steps [Decode_mutexes, optional FindUTXOByHash_mutexes]"

definition GetBlocks_mutexes :: "mutex prog" where
  "GetBlocks_mutexes = steps [Decode_mutexes, optional (steps [GetBlockByHeight_mutexes, Loop GetBlockByHeight_mutexes])]"

definition GossipTxn_mutexes :: "int \<Rightarrow> mutex prog" where
  "GossipTxn_mutexes g =
     steps [Decode_mutexes, optional (Deferred TxnHandler (steps [pool_mutexes g,
       optional (steps [FindTxn_mutexes, optional (steps [prev_txns_mutexes g,
         optional (steps [UTXOMemVerify_mutexes g, optional (pool_mutexes g)])])])]))]"

definition GossipRelayTxn_mutexes :: "int \<Rightarrow> mutex prog" where
  "GossipRelayTxn_mutexes g =
     steps [Decode_mutexes, Deferred RelayHandler (steps [pool_mutexes g,
       optional (steps [GetLastest_mutexes, optional (steps [UTXOMemVerify_mutexes g, optional (pool_mutexes g)])])])]"

text \<open>
  \<open>g\<close> is the group of the block, \<open>g'\<close> and \<open>gs\<close> are for a synchronisation that follows. The newest block is read and decoded when there is one; a block
  that follows it is appended, and a block that is still higher starts \<^verbatim>\<open>SyncBlocks\<close>. Without a newest block a first block panics (its previous hash is compared with
  that of nil), and a higher one starts \<^verbatim>\<open>Sync\<close>.
\<close>

definition append_block_mutexes :: "int \<Rightarrow> mutex prog" where
  "append_block_mutexes g = steps [SyncLock, AddBlock_mutexes g, Update_mutexes, SyncUnlock]"

definition GossipBlock_mutexes :: "int \<Rightarrow> int \<Rightarrow> int list \<Rightarrow> mutex prog" where
  "GossipBlock_mutexes g g' gs =
     steps [Decode_mutexes, optional (Deferred BlockHandler (steps [db_mutexes,
       Choice (steps [Decode_mutexes, optional (append_block_mutexes g), optional (syncBlocks_mutexes gs)])
         (steps [MayPanic, optional (Sync_mutexes g' gs)])]))]"

text \<open>The part of it that runs for a block that follows the newest one.\<close>

definition next_block_mutexes :: "int \<Rightarrow> mutex prog" where
  "next_block_mutexes g = steps [Decode_mutexes, Deferred BlockHandler (steps [db_mutexes, Decode_mutexes, append_block_mutexes g])]"

definition GossipBlockHead_mutexes :: "mutex prog" where
  "GossipBlockHead_mutexes = steps [Decode_mutexes, optional (Deferred HeadHandler (steps [MayPanic, optional AddBlockhead_mutexes]))]"

definition GetHash_mutexes :: "mutex prog" where
  "GetHash_mutexes = steps [Decode_mutexes, GetBlockByHeight_mutexes]"

definition SendVersion_mutexes :: "mutex prog" where
  "SendVersion_mutexes = steps [Decode_mutexes, GetBlockByHeight_mutexes, GetLastest_mutexes]"

definition KnownNodes_mutexes :: "mutex prog" where
  "KnownNodes_mutexes = steps [Decode_mutexes, optional AddNode_mutexes, Deferred NodesMutex Nothing]"

definition SendCMD_mutexes :: "int \<Rightarrow> mutex prog" where
  "SendCMD_mutexes g = steps [Decode_mutexes, CreateTransaction_mutexes g, optional GetKnownNodes_mutexes]"

text \<open>
  A round of the miner takes the transactions of the pools of the groups \<open>gs\<close>, reads the chains and asks for their heights at every nonce. A difficulty below 1
  panics. The blocks found are sent to the own handler of \<^verbatim>\<open>GossipBlock\<close>, a request like any other.
\<close>

definition mining_mutexes :: "int list \<Rightarrow> mutex prog" where
  "mining_mutexes gs =
     steps [steps (map pool_mutexes gs), Loop (steps [GetLastest_mutexes, optional GetBlockByHeight_mutexes]), MayPanic, Loop (Loop GetHeight_mutexes),
       Loop MayPanic]"

text \<open>
  The requests that other nodes send, but for \<^verbatim>\<open>GossipBlock\<close>, and the node's own rounds of synchronising, of keeping the node list and of mining. The web server
  recovers from a panic of a handler; a panic of a round ends the process.
\<close>

definition peer_requests :: "int \<Rightarrow> mutex prog list" where
  "peer_requests g =
     [GetGenesis_mutexes, GetBalance_mutexes, GetBlocks_mutexes, GossipTxn_mutexes g, GossipRelayTxn_mutexes g,
      GossipBlockHead_mutexes, GetHash_mutexes, SendVersion_mutexes, KnownNodes_mutexes]"

definition own_rounds :: "int \<Rightarrow> int list \<Rightarrow> mutex prog list" where
  "own_rounds g gs = [Sync_mutexes g gs, steps [GetKnownNodes_mutexes, UpdateSortedNodes_mutexes], mining_mutexes gs]"

text \<open>A run of one of them, where a handler may panic, or of \<^verbatim>\<open>GossipBlock\<close> without a panic; \<open>node_run\<close> adds \<^verbatim>\<open>SendCMD\<close>.\<close>

definition peer_run :: "mutex action list \<Rightarrow> bool" where
  "peer_run t \<longleftrightarrow> (\<exists>g. \<exists>p \<in> set (peer_requests g). \<exists>ok. runs p t ok) \<or>
     (\<exists>g g' gs. \<exists>p \<in> set (GossipBlock_mutexes g g' gs # own_rounds g gs). runs p t True)"

definition node_run :: "mutex action list \<Rightarrow> bool" where
  "node_run t \<longleftrightarrow> peer_run t \<or> (\<exists>g. runs (SendCMD_mutexes g) t True)"

section \<open>The order\<close>

text \<open>The handlers' mutexes come first and the database last but for those that protect a few lines.\<close>

fun mutex_rank :: "mutex \<Rightarrow> nat" where
  "mutex_rank TxnHandler = 0" | "mutex_rank RelayHandler = 0" | "mutex_rank BlockHandler = 0" | "mutex_rank HeadHandler = 0"
| "mutex_rank SyncMutex = 1" | "mutex_rank UpdateMutex = 2"
| "mutex_rank RegisterOnce = 3" | "mutex_rank OnceHeight = 3" | "mutex_rank OnceHeadHeight = 3"
| "mutex_rank (PoolMutex g) = 4" | "mutex_rank BoltMutex = 5"
| "mutex_rank OpenMutex = 6" | "mutex_rank HeightMutex = 6" | "mutex_rank HeadHeightMutex = 6" | "mutex_rank DecodeMutex = 6"
| "mutex_rank NodesMutex = 6"

text \<open>\<open>below n H\<close>: all mutexes in \<open>H\<close> have a rank below \<open>n\<close>. An operation that fits below a rank may be called with such mutexes held.\<close>

definition below :: "nat \<Rightarrow> mutex list \<Rightarrow> bool" where
  "below n H \<longleftrightarrow> (\<forall>h \<in> set H. mutex_rank h < n)"

lemma below_simps [simp]: "below n []" "below n (h # H) \<longleftrightarrow> mutex_rank h < n \<and> below n H"
  by (simp_all add: below_def)

lemma below_le: "below n H \<Longrightarrow> \<forall>m \<ge> n. below m H"
  by (auto simp: below_def)

lemma order_ok_locks:
  "order_ok mutex_rank H (Lock m) = (if below (mutex_rank m) H then Some (m # H) else None)"
  "order_ok mutex_rank H (Deferred m p) =
     (if below (mutex_rank m) H \<and> order_ok mutex_rank (m # H) p = Some (m # H) then Some H else None)"
  by (simp_all add: below_def)

declare order_ok.simps(2,7) [simp del] order_ok_locks [simp]

abbreviation fits :: "nat \<Rightarrow> mutex prog \<Rightarrow> bool" where
  "fits n p \<equiv> \<forall>H. below n H \<longrightarrow> order_ok mutex_rank H p = Some H"

lemma fitsI: "(\<And>H. \<forall>m \<ge> n. below m H \<Longrightarrow> order_ok mutex_rank H p = Some H) \<Longrightarrow> fits n p"
  using below_le by blast

lemmas can_panic_defs = getDatabase_mutexes_def db_mutexes_def Foreach_mutexes_def Decode_mutexes_def pool_mutexes_def AddNode_mutexes_def
  UpdateSortedNodes_mutexes_def Register_mutexes_def GetKnownNodes_mutexes_def BytesToBlock_mutexes_def GetLastest_mutexes_def GetBlockByHash_mutexes_def
  GetBlockByHeight_mutexes_def SetLastest_mutexes_def GetHeight_mutexes_def Blockhead_GetHeight_mutexes_def FindTxn_mutexes_def prev_txns_mutexes_def
  update_vin_mutexes_def FindUTXOByHash_mutexes_def UTXOMemVerify_mutexes_def

lemma fits_basic [simp]: "fits 6 getDatabase_mutexes" "fits 6 Decode_mutexes" "fits 6 AddNode_mutexes" "fits 6 UpdateSortedNodes_mutexes"
  by (rule fitsI, simp add: getDatabase_mutexes_def Decode_mutexes_def AddNode_mutexes_def UpdateSortedNodes_mutexes_def)+

lemma fits_store [simp]: "fits 5 db_mutexes" "fits 4 (pool_mutexes g)"
  by (rule fitsI, simp add: db_mutexes_def pool_mutexes_def)+

lemma fits_nodes [simp]: "fits 3 Register_mutexes" "fits 6 GetKnownNodes_mutexes"
  by (rule fitsI, simp add: Register_mutexes_def GetKnownNodes_mutexes_def)+

lemma fits_blocks [simp]:
  "fits 5 BytesToBlock_mutexes" "fits 5 GetLastest_mutexes" "fits 5 GetBlockByHash_mutexes" "fits 5 GetBlockByHeight_mutexes" "fits 5 SetLastest_mutexes"
  "fits 5 FindTxn_mutexes" "fits 5 DeleteBlock_mutexes"
  by (rule fitsI, simp add: BytesToBlock_mutexes_def GetLastest_mutexes_def GetBlockByHash_mutexes_def GetBlockByHeight_mutexes_def
      SetLastest_mutexes_def FindTxn_mutexes_def DeleteBlock_mutexes_def)+

lemma fits_heights [simp]: "fits 3 GetHeight_mutexes" "fits 3 Blockhead_GetHeight_mutexes"
  by (rule fitsI, simp add: GetHeight_mutexes_def Blockhead_GetHeight_mutexes_def)+

lemma fits_AddBlockhead [simp]: "fits 3 AddBlockhead_mutexes"
  by (rule fitsI) (simp add: AddBlockhead_mutexes_def)

lemma fits_AddBlock [simp]: "fits 3 (AddBlock_mutexes g)"
  by (rule fitsI) (simp add: AddBlock_mutexes_def)

lemma fits_reindex [simp]: "fits 5 TxnReindex_mutexes" "fits 2 Reindex_mutexes"
  by (rule fitsI, simp add: TxnReindex_mutexes_def Reindex_mutexes_def iterate_mutexes_def)+

lemma fits_set [simp]:
  "fits 5 update_vin_mutexes" "fits 2 Reverse_mutexes" "fits 2 FindUTXOByHash_mutexes" "fits 1 (UTXOMemVerify_mutexes g)" "fits 4 (prev_txns_mutexes g)"
  by (rule fitsI, simp add: update_vin_mutexes_def Reverse_mutexes_def FindUTXOByHash_mutexes_def Foreach_mutexes_def UTXOMemVerify_mutexes_def
      prev_txns_mutexes_def)+

lemma fits_Update [simp]: "fits 2 Update_mutexes"
  by (rule fitsI) (simp add: Update_mutexes_def UpdateLock_def UpdateUnlock_def)

lemma fits_each: "\<forall>x. fits n (f x) \<Longrightarrow> fits n (steps (map f xs))"
  by (induction xs) simp_all

lemma fits_append [simp]: "fits 2 (append_mutexes gs)"
  unfolding append_mutexes_def by (rule fits_each, rule allI, rule fitsI) simp

lemma fits_sync [simp]: "fits 1 (syncBlocks_mutexes gs)" "fits 1 (Sync_mutexes g gs)"
  by (rule fitsI, simp add: syncBlocks_mutexes_def Sync_mutexes_def)+

lemma fits_append_block [simp]: "fits 1 (append_block_mutexes g)"
  by (rule fitsI) (simp add: append_block_mutexes_def SyncLock_def SyncUnlock_def)

lemma fits_pools [simp]: "fits 4 (steps (map pool_mutexes gs))"
  by (rule fits_each) simp

lemmas request_defs = GetGenesis_mutexes_def GetBalance_mutexes_def GetBlocks_mutexes_def GossipTxn_mutexes_def GossipRelayTxn_mutexes_def
  GossipBlockHead_mutexes_def GetHash_mutexes_def SendVersion_mutexes_def KnownNodes_mutexes_def

lemma requests_ordered:
  "p \<in> set (peer_requests g) \<Longrightarrow> order_ok mutex_rank [] p = Some []"
  "p \<in> set (GossipBlock_mutexes g g' gs # own_rounds g gs) \<Longrightarrow> order_ok mutex_rank [] p = Some []"
  by (auto simp: peer_requests_def request_defs own_rounds_def GossipBlock_mutexes_def mining_mutexes_def)

text \<open>A panic of one of these handlers meets only mutexes with a deferred release.\<close>

lemma requests_release: "p \<in> set (peer_requests g) \<Longrightarrow> panics_ok mutex_rank [] [] p"
proof -
  have quiet: "panics_ok mutex_rank B H q" if "\<not> can_panic q" for B H q using that by (rule no_panic_ok)
  have head: "panics_ok mutex_rank [HeadHandler] [HeadHandler] AddBlockhead_mutexes"
    by (simp add: AddBlockhead_mutexes_def quiet can_panic_defs)
  show "p \<in> set (peer_requests g) \<Longrightarrow> ?thesis"
    by (auto simp: peer_requests_def request_defs head quiet can_panic_defs split: option.split)
qed

lemma peer_run_ordered: "peer_run t \<Longrightarrow> ordered mutex_rank [] t"
proof -
  have "ordered mutex_rank [] t" if p: "p \<in> set (peer_requests g)" "runs p t ok" for g p ok
  proof (cases ok)
    case True
    then show ?thesis using order_ok_runs [of p t mutex_rank] requests_ordered(1) [OF p(1)] p(2) by simp
  next
    case False
    then show ?thesis using panics_ok_sound [OF p(2) _ requests_ordered(1) [OF p(1)] requests_release [OF p(1)], of "[]"] by simp
  qed
  then show "peer_run t \<Longrightarrow> ?thesis" unfolding peer_run_def using order_ok_runs [of _ t mutex_rank] requests_ordered(2) by blast
qed

section \<open>No deadlock among the requests of other nodes\<close>


section \<open>SendCMD\<close>

text \<open>
  \<^verbatim>\<open>SendCMD\<close> looks into the pool from inside a walk over the database, so it takes these two mutexes in the other order.
\<close>

definition send_rank :: "mutex \<Rightarrow> nat" where
  "send_rank m = (case m of PoolMutex g \<Rightarrow> 6 | _ \<Rightarrow> mutex_rank m)"

lemma SendCMD_ordered: "order_ok send_rank [] (SendCMD_mutexes g) = Some []"
  by (simp add: SendCMD_mutexes_def CreateTransaction_mutexes_def findUTXOs_mutexes_def Foreach_mutexes_def prev_txns_mutexes_def FindTxn_mutexes_def
      getDatabase_mutexes_def db_mutexes_def Decode_mutexes_def pool_mutexes_def GetKnownNodes_mutexes_def AddNode_mutexes_def send_rank_def
      order_ok.simps(2,7))

lemma requests_nested:
  "node_run t \<Longrightarrow> nested [] t"
  using order_ok_runs SendCMD_ordered peer_run_ordered unfolding nested_def node_run_def by blast

text \<open>
  Two runs, cut where they meet. \<^verbatim>\<open>GossipBlock\<close> has appended a block and looks for a transaction of the pool in the database; \<^verbatim>\<open>SendCMD\<close> has
  found an output of the sender and wants to know whether the pool spends it.
\<close>

definition db_run :: "mutex action list" where
  "db_run = [Acquire BoltMutex, Acquire OpenMutex, Release OpenMutex, Release BoltMutex]"

definition append_start :: "mutex action list" where
  "append_start = [Acquire DecodeMutex, Release DecodeMutex, Acquire BlockHandler] @ db_run @
     [Acquire DecodeMutex, Release DecodeMutex, Acquire SyncMutex, Acquire OnceHeight, Release OnceHeight, Acquire HeightMutex, Release HeightMutex] @ db_run @
     [Acquire HeightMutex, Release HeightMutex] @ db_run @ db_run @ db_run"

definition block_start :: "int \<Rightarrow> mutex action list" where
  "block_start g = append_start @ [Acquire (PoolMutex g)]"

definition block_rest :: "int \<Rightarrow> mutex action list" where
  "block_rest g = db_run @
     [Release (PoolMutex g), Acquire UpdateMutex, Release UpdateMutex, Release SyncMutex, Release BlockHandler]"

definition send_start :: "mutex action list" where
  "send_start = [Acquire DecodeMutex, Release DecodeMutex, Acquire UpdateMutex, Acquire BoltMutex, Acquire OpenMutex, Release OpenMutex,
     Acquire DecodeMutex, Release DecodeMutex]"

definition send_rest :: "int \<Rightarrow> mutex action list" where
  "send_rest g = [Acquire (PoolMutex g), Release (PoolMutex g), Release BoltMutex, Release UpdateMutex]"

named_theorems known_runs \<open>runs of the parts\<close>

lemma run_db [known_runs]: "runs db_mutexes db_run True"
  by (simp add: db_mutexes_def getDatabase_mutexes_def db_run_def)

lemma run_brief [known_runs]: "runs (brief m) [Acquire m, Release m] True"
  by simp

lemma run_parts [known_runs]:
  "runs Decode_mutexes [Acquire DecodeMutex, Release DecodeMutex] True"
  "runs SetLastest_mutexes (concat [db_run, [Acquire HeightMutex, Release HeightMutex]]) True" "runs FindTxn_mutexes (concat [db_run, []]) True"
  unfolding Decode_mutexes_def SetLastest_mutexes_def FindTxn_mutexes_def
  by (auto intro!: runs_steps known_runs simp del: concat.simps steps_simps)

lemma run_GetHeight [known_runs]:
  "runs GetHeight_mutexes (concat [[Acquire OnceHeight], [], [Release OnceHeight], [Acquire HeightMutex, Release HeightMutex]]) True"
  unfolding GetHeight_mutexes_def by (auto intro!: runs_steps simp del: concat.simps steps_simps)

text \<open>\<^verbatim>\<open>AddBlock\<close> up to the pool, when the head of the block is stored already.\<close>

lemma run_AddBlock [known_runs]:
  "runs (AddBlock_mutexes g) (concat [concat [[Acquire OnceHeight], [], [Release OnceHeight], [Acquire HeightMutex, Release HeightMutex]],
     concat [concat [db_run, [Acquire HeightMutex, Release HeightMutex]], db_run, db_run, concat [db_run, []], [], [Acquire (PoolMutex g)],
       concat [db_run, []], [Release (PoolMutex g)]]]) True"
  unfolding AddBlock_mutexes_def AddBlockhead_mutexes_def
  by (intro runs.left runs_steps list.rel_intros known_runs loop_once loop_never runs.nothing runs.right runs.lock runs.unlock)

text \<open>A run of \<^verbatim>\<open>GossipBlock\<close> for a block that follows the newest one.\<close>

lemma run_next_block:
  assumes "runs (append_block_mutexes g) a ok"
  shows "runs (next_block_mutexes g) ([Acquire DecodeMutex, Release DecodeMutex, Acquire BlockHandler] @ db_run @
    [Acquire DecodeMutex, Release DecodeMutex] @ a @ [Release BlockHandler]) ok"
proof -
  have "runs (Seq (append_block_mutexes g) Nothing) a ok" using assms by (cases ok) (auto intro: runs.seq [of _ a _ "[]", simplified])
  then have "runs (Seq db_mutexes (Seq Decode_mutexes (Seq (append_block_mutexes g) Nothing))) (db_run @ [Acquire DecodeMutex, Release DecodeMutex] @ a) ok"
    by (intro runs.seq known_runs)
  from runs.deferred [OF this, of BlockHandler]
  have "runs (Seq (Deferred BlockHandler (Seq db_mutexes (Seq Decode_mutexes (Seq (append_block_mutexes g) Nothing)))) Nothing)
      (Acquire BlockHandler # (db_run @ [Acquire DecodeMutex, Release DecodeMutex] @ a) @ [Release BlockHandler]) ok"
    by (cases ok) (use runs.seq [OF _ runs.nothing] runs.seq_panic in fastforce)+
  from runs.seq [OF run_parts(1) this] show ?thesis unfolding next_block_mutexes_def steps_simps by simp
qed

lemma next_block_in_GossipBlock: "runs (next_block_mutexes g) t ok \<Longrightarrow> runs (GossipBlock_mutexes g g' gs) t ok"
proof -
  have "part_of Nothing (Seq (optional (syncBlocks_mutexes gs)) Nothing)" by (intro part_of_last part_of_intros(1,3))
  then have "part_of (steps [Decode_mutexes, append_block_mutexes g])
      (steps [Decode_mutexes, optional (append_block_mutexes g), optional (syncBlocks_mutexes gs)])"
    unfolding steps_simps by (intro part_of_intros(4) part_of_intros(2) [OF part_of_intros(1)] part_of_intros(1))
  from part_of_intros(4) [OF part_of_intros(1) part_of_last [OF part_of_intros(2) [OF this]], of db_mutexes]
  have "part_of (Seq db_mutexes (steps [Decode_mutexes, append_block_mutexes g])) (Seq db_mutexes (Seq (Choice
      (steps [Decode_mutexes, optional (append_block_mutexes g), optional (syncBlocks_mutexes gs)])
      (steps [MayPanic, optional (Sync_mutexes g' gs)])) Nothing))" .
  from part_of_intros(2) [OF part_of_intros(5) [OF this]]
  have "part_of (next_block_mutexes g) (GossipBlock_mutexes g g' gs)"
    unfolding next_block_mutexes_def GossipBlock_mutexes_def steps_simps by (intro part_of_intros(4) part_of_intros(1))
  then show "runs (next_block_mutexes g) t ok \<Longrightarrow> ?thesis" by (simp add: part_of_def)
qed

text \<open>The two runs are runs of the handlers.\<close>

lemma run_GossipBlock: "runs (GossipBlock_mutexes g g' gs) (block_start g @ block_rest g) True"
proof -
  have "runs Update_mutexes (concat [[Acquire UpdateMutex], [], [Release UpdateMutex]]) True"
    unfolding Update_mutexes_def UpdateLock_def UpdateUnlock_def
    by (intro runs_steps list.rel_intros loop_never runs.left runs.lock runs.unlock)
  then have "runs (append_block_mutexes g)
      (concat [[Acquire SyncMutex], concat [concat [[Acquire OnceHeight], [], [Release OnceHeight], [Acquire HeightMutex, Release HeightMutex]],
         concat [concat [db_run, [Acquire HeightMutex, Release HeightMutex]], db_run, db_run, concat [db_run, []], [], [Acquire (PoolMutex g)],
           concat [db_run, []], [Release (PoolMutex g)]]], concat [[Acquire UpdateMutex], [], [Release UpdateMutex]], [Release SyncMutex]]) True"
    unfolding append_block_mutexes_def SyncLock_def SyncUnlock_def
    by (intro runs_steps list.rel_intros known_runs runs.lock runs.unlock)
  from next_block_in_GossipBlock [OF run_next_block [OF this]] show ?thesis by (simp add: block_start_def append_start_def block_rest_def)
qed

lemma run_SendCMD: "runs (SendCMD_mutexes g) (send_start @ send_rest g) True"
proof -
  have "runs (pool_mutexes g) [Acquire (PoolMutex g), Release (PoolMutex g)] True" unfolding pool_mutexes_def by (rule run_brief)
  then have "runs (findUTXOs_mutexes g) (Acquire UpdateMutex # (Acquire BoltMutex # concat [[Acquire OpenMutex] @ [] @ [Release OpenMutex],
      concat [[Acquire DecodeMutex, Release DecodeMutex], [Acquire (PoolMutex g), Release (PoolMutex g)]]] @ [Release BoltMutex]) @ [Release UpdateMutex]) True"
    unfolding findUTXOs_mutexes_def Foreach_mutexes_def getDatabase_mutexes_def
    by (intro runs.deferred runs_steps list.rel_intros loop_once known_runs runs.left) auto
  moreover have "runs (CreateTransaction_mutexes g) (concat [a, []]) True" if "runs (findUTXOs_mutexes g) a True" for a
    unfolding CreateTransaction_mutexes_def by (intro runs.left runs_steps list.rel_intros that runs.right runs.nothing)
  ultimately have "runs (SendCMD_mutexes g) (concat [[Acquire DecodeMutex, Release DecodeMutex], concat [Acquire UpdateMutex # (Acquire BoltMutex #
      concat [[Acquire OpenMutex] @ [] @ [Release OpenMutex], concat [[Acquire DecodeMutex, Release DecodeMutex],
        [Acquire (PoolMutex g), Release (PoolMutex g)]]] @ [Release BoltMutex]) @ [Release UpdateMutex], []], []]) True"
    unfolding SendCMD_mutexes_def by (intro runs_steps list.rel_intros known_runs) auto
  then show ?thesis by (simp add: send_start_def send_rest_def)
qed

text \<open>
  C18: \<^verbatim>\<open>SendCMD\<close> can freeze the node. While it walks over the set of unspent outputs and \<^verbatim>\<open>GossipBlock\<close> appends a block of the
  same group, the two reach a state in which each waits for a mutex of the other: neither goes on, whatever else the node is asked to do, the
  database stays locked, and no goroutine that still has to open it ends.
\<close>

theorem SendCMD_deadlock:
  assumes "\<forall>t \<in> set others. node_run t"
  shows "\<exists>a b held. runs (GossipBlock_mutexes g g' gs) (a @ block_rest g) True \<and> runs (SendCMD_mutexes g) (b @ send_rest g) True \<and>
    lock_step\<^sup>*\<^sup>* ({}, (a @ block_rest g) # (b @ send_rest g) # others) (held, block_rest g # send_rest g # others) \<and>
    (\<forall>held' us. lock_step\<^sup>*\<^sup>* (held, block_rest g # send_rest g # others) (held', us) \<longrightarrow>
       take 2 us = [block_rest g, send_rest g] \<and> BoltMutex \<in> held' \<and>
       (\<forall>i < length others. Acquire BoltMutex \<in> set (others ! i) \<longrightarrow> us ! (i + 2) \<noteq> []))"
proof -
  let ?held = "{BlockHandler, SyncMutex, PoolMutex g, UpdateMutex, BoltMutex}" and ?ts = "[block_rest g, send_rest g]"
  let ?K = "{PoolMutex g, BoltMutex}"
  have "lock_step\<^sup>*\<^sup>* ({}, (block_start g @ block_rest g) # (send_start @ send_rest g) # others)
      ({BlockHandler, SyncMutex, PoolMutex g}, block_rest g # (send_start @ send_rest g) # others)"
    using solo_steps [of "{}" "block_start g" "{BlockHandler, SyncMutex, PoolMutex g}" 0 "[] # (send_start @ send_rest g) # others" "block_rest g"]
    by (simp add: block_start_def append_start_def db_run_def insert_commute insert_Diff_if)
  moreover have "lock_step\<^sup>*\<^sup>* ({BlockHandler, SyncMutex, PoolMutex g}, block_rest g # (send_start @ send_rest g) # others)
      (?held, block_rest g # send_rest g # others)"
    using solo_steps [of "{BlockHandler, SyncMutex, PoolMutex g}" send_start ?held 1 "block_rest g # [] # others" "send_rest g"]
    by (simp add: send_start_def insert_commute insert_Diff_if)
  moreover have frozen: "frozen ?K ?ts (\<lambda>_. []) (?held, ?ts @ others)"
  proof -
    show ?thesis using requests_nested assms by (auto simp: frozen_def block_rest_def send_rest_def db_run_def nth_append)
  qed
  moreover have "take 2 us = ?ts \<and> BoltMutex \<in> held' \<and> (\<forall>i < length others. Acquire BoltMutex \<in> set (others ! i) \<longrightarrow> us ! (i + 2) \<noteq> [])"
    if r: "lock_step\<^sup>*\<^sup>* (?held, ?ts @ others) (held', us)" for held' us
  proof -
    obtain Hs where "frozen ?K ?ts Hs (held', us)" using frozen_forever [OF r frozen] by blast
    then have "take 2 us = ?ts" "BoltMutex \<in> held'" by (simp_all add: frozen_def numeral_2_eq_2)
    moreover have "us ! (i + 2) \<noteq> []" if "i < length others" "Acquire BoltMutex \<in> set (others ! i)" for i
      using frozen_pending [OF r frozen, of BoltMutex "i + 2"] that by (simp add: nth_append)
    ultimately show ?thesis by blast
  qed
  ultimately show ?thesis using run_GossipBlock run_SendCMD [of g]
    by (intro exI [of _ "block_start g"] exI [of _ send_start] exI [of _ ?held]) (auto intro: rtranclp_trans)
qed

section \<open>A block with a target below 1\<close>

text \<open>A run in which \<^verbatim>\<open>AddBlock\<close> panics at \<^verbatim>\<open>Verify\<close>.\<close>

lemma panic_next_block: "runs (next_block_mutexes g) (append_start @ [Release BlockHandler]) False"
proof -
  have head: "runs AddBlockhead_mutexes (concat [db_run] @ []) False"
    unfolding AddBlockhead_mutexes_def
    by (rule runs_steps_panic [where ps = "[db_mutexes]" and qs = "[]", simplified append.simps])
      (auto intro: known_runs)
  have "runs (AddBlock_mutexes g) (concat [concat [[Acquire OnceHeight], [], [Release OnceHeight], [Acquire HeightMutex, Release HeightMutex]]] @
      (concat [concat [db_run, [Acquire HeightMutex, Release HeightMutex]], db_run, db_run] @ (concat [db_run] @ []))) False"
    (is "runs _ ?add False")
    unfolding AddBlock_mutexes_def
    by (rule runs.left, rule runs_steps_panic [where ps = "[GetHeight_mutexes]" and qs = "[]", simplified append.simps],
      intro list.rel_intros known_runs, rule runs.left,
      rule runs_steps_panic [where ps = "[SetLastest_mutexes, db_mutexes, db_mutexes]", simplified append.simps],
      intro list.rel_intros known_runs, rule head)
  then have "runs (append_block_mutexes g) (concat [[Acquire SyncMutex]] @ ?add) False"
    unfolding append_block_mutexes_def
    by (intro runs_steps_panic [where ps = "[SyncLock]" and qs = "[Update_mutexes, SyncUnlock]", simplified append.simps])
      (simp_all add: SyncLock_def)
  from run_next_block [OF this] show ?thesis by (simp add: append_start_def)
qed

text \<open>Every run that panics there leaves exactly \<open>SyncMutex\<close> locked.\<close>

lemma tidy_append:
  "panics_ok mutex_rank [SyncMutex, BlockHandler] [SyncMutex, BlockHandler] (AddBlock_mutexes g)"
  "panics_ok mutex_rank [SyncMutex, BlockHandler] [SyncMutex, BlockHandler] Update_mutexes"
proof -
  have quiet: "panics_ok mutex_rank B H q" if "\<not> can_panic q" for B H q using that by (rule no_panic_ok)
  show "panics_ok mutex_rank [SyncMutex, BlockHandler] [SyncMutex, BlockHandler] (AddBlock_mutexes g)"
    by (simp add: AddBlock_mutexes_def AddBlockhead_mutexes_def quiet can_panic_defs split: option.split)
  show "panics_ok mutex_rank [SyncMutex, BlockHandler] [SyncMutex, BlockHandler] Update_mutexes"
    by (simp add: Update_mutexes_def UpdateLock_def UpdateUnlock_def Reindex_mutexes_def TxnReindex_mutexes_def iterate_mutexes_def quiet can_panic_defs
        split: option.split)
qed

lemma panic_leaves_SyncMutex:
  assumes "runs (next_block_mutexes g) t False"
  shows "solo {} t = Some {SyncMutex}"
proof -
  let ?p = "steps [AddBlock_mutexes g, Update_mutexes]"
  have quiet: "\<not> can_panic db_mutexes" "\<not> can_panic Decode_mutexes" "\<not> can_panic (Lock m)" "\<not> can_panic (Unlock m)" for m :: mutex
    by (simp_all add: can_panic_defs)
  define inner where "inner = steps [db_mutexes, Decode_mutexes, append_block_mutexes g]"
  have "runs (Seq Decode_mutexes (Seq (Deferred BlockHandler inner) Nothing)) t False"
    using assms by (simp only: next_block_mutexes_def steps_simps inner_def)
  then obtain x1 y where y: "runs Decode_mutexes x1 True" "t = x1 @ Acquire BlockHandler # y @ [Release BlockHandler]" "runs inner y False"
    unfolding runs_seq_panic [OF quiet(2)] by auto
  obtain x2 x3 z where z: "runs db_mutexes x2 True" "runs Decode_mutexes x3 True" "y = x2 @ x3 @ z" "runs (append_block_mutexes g) z False"
    using y(3) unfolding inner_def steps_simps runs_seq_panic [OF quiet(1)] runs_seq_panic [OF quiet(2)] by auto
  obtain a where a: "z = Acquire SyncMutex # a" "runs (Seq (AddBlock_mutexes g) (Seq Update_mutexes (Seq (Unlock SyncMutex) Nothing))) a False"
    using z(4) unfolding append_block_mutexes_def SyncLock_def SyncUnlock_def steps_simps runs_seq_panic [OF quiet(3)] by auto
  have "runs ?p a False" using a(2) unfolding steps_simps runs_atoms by auto
  then have x: "runs Decode_mutexes x1 True" "runs db_mutexes x2 True" "runs Decode_mutexes x3 True" "runs ?p a False"
      "t = x1 @ Acquire BlockHandler # x2 @ x3 @ Acquire SyncMutex # a @ [Release BlockHandler]"
    using y z(1-3) a(1) by simp_all
  let ?H = "[SyncMutex, BlockHandler]"
  have "panics_ok mutex_rank ?H ?H ?p" "order_ok mutex_rank ?H ?p = Some ?H" by (simp_all add: tidy_append)
  then have "ordered mutex_rank ?H (a @ [Release SyncMutex, Release BlockHandler])" using panics_ok_sound [OF x(4)] by simp
  then have "ordered mutex_rank [BlockHandler] (x2 @ x3 @ Acquire SyncMutex # a @ [Release SyncMutex, Release BlockHandler])"
    by (intro order_ok_sound [OF x(2) TrueI, of _ _ "[BlockHandler]"] order_ok_sound [OF x(3) TrueI, of _ _ "[BlockHandler]"]) simp_all
  then have "ordered mutex_rank [] (x1 @ Acquire BlockHandler # x2 @ x3 @ Acquire SyncMutex # a @ [Release SyncMutex, Release BlockHandler])"
    by (intro order_ok_sound [OF x(1) TrueI, of _ _ "[]"]) simp_all
  then have "solo {} ((x1 @ Acquire BlockHandler # x2 @ x3 @ Acquire SyncMutex # a) @ [Release SyncMutex, Release BlockHandler]) = Some {}"
    using ordered_solo by fastforce
  then obtain X where X: "solo {} (x1 @ Acquire BlockHandler # x2 @ x3 @ Acquire SyncMutex # a) = Some X"
      "SyncMutex \<in> X" "BlockHandler \<in> X" "X - {SyncMutex} - {BlockHandler} = {}"
    unfolding solo_append by (auto simp: bind_eq_Some_conv split: if_splits)
  have "X - {BlockHandler} = {SyncMutex}" using X(2-4) by auto
  then have "solo {} ((x1 @ Acquire BlockHandler # x2 @ x3 @ Acquire SyncMutex # a) @ [Release BlockHandler]) = Some {SyncMutex}"
    using X(3) unfolding solo_append [of "{}" _ "[Release BlockHandler]"] X(1) by simp
  then show ?thesis by (simp add: x(5))
qed

context node_env
begin

lemma low_target_panics:
  assumes ok: "chain_ok E g bs s" and ne: "bs \<noteq> []" and g: "0 \<le> g" "g < MaxGroupNum E" "own_groups E g = Ok True"
    and b: "Group b = g" "Height b = int (length bs)" "length bs < 2 ^ 24" "PrevHash b = tip_hash E [] bs"
    and target: "Target b = Fin q" "0 \<le> q" "q < 1"
    and fresh: "\<forall>b' \<in> set bs. Block_Hash E b' \<noteq> Block_Hash E b" "node_Get E Blockheads g (KInt32 (Height b)) s = None"
  shows "handle_GossipBlock E P rnd b sender excepted (N, s) = Panic"
proof -
  obtain hash where hash: "Block_Hash E b = Ok hash" using Block_Hash_ok [OF target(1)] by blast
  obtain bytes where bytes: "marshal_block E b = Some bytes" using marshal_block_finite [OF target(1)] by blast
  obtain s0 where s0: "GetHeight E g s = Ok (int (length bs) - 1, s0)" "chain_ok E g bs s0" "onceGetHeight s0 g"
      "node_dbs s0 = node_dbs s" "mempools s0 = mempools s"
    using GetHeight_chain [OF ok] by blast
  obtain s1 s2 s3 where s3: "SetLastest E g (Some b) s0 = Ok s1" "node_Set E Blocks g (KBytes hash) bytes s1 = Ok s2"
      "node_Set E Blocks g (KInt32 (Height b)) hash s2 = Ok s3" "keeps_other E Blocks g s0 s3"
    using put_block [OF s0(2,3) b(2-4) hash bytes fresh(1) [unfolded hash]] by blast
  have "node_Get E Blockheads g (KInt32 (Height b)) s3 = None"
    using fresh(2) s3(4) s0(4) by (simp add: keeps_other_def node_Get_def)
  moreover have "\<lfloor>q\<rfloor> = 0" using target by (simp add: floor_eq_iff)
  then have "Block_Verify E b = Panic"
    using target by (simp add: Block_Verify_def GetTarget_def truncate_rat_def big_Div_def)
  ultimately have "AddBlockhead E g (Some b) s3 = Panic" by (simp add: AddBlockhead_def)
  moreover have "i32 (int (length bs)) = int (length bs)" using b(3) by (simp add: i32_id)
  ultimately have add: "AddBlock E g (Some b) s = Panic"
    using s0(1) s3(1-3) hash bytes b(2) by (simp add: AddBlock_def Encode_def)
  have "block_stored E g (last bs) s" using ok ne unfolding chain_ok_def by simp
  then obtain h where h: "Block_Hash E (last bs) = Ok h" by (auto simp: block_stored_def)
  have "HashValue_Equal (PrevHash b) h" using tip_hash_last [OF ne h, of "[]"] b(4) by (simp add: HashValue_Equal_def)
  then show ?thesis
    using add g b own_group [OF g(1,2)] last_Height [OF ok ne] GetLastest_chain [OF ok] ne h \<open>i32 (int (length bs)) = int (length bs)\<close>
    by (simp add: handle_GossipBlock_def GetUTXOSet_def Let_def)
qed

end

text \<open>
  C19: one block of a peer can freeze the node. A block that names the newest block, has the next height, a hash of its own, no stored head and a target of at
  least 0 and below 1 makes \<^verbatim>\<open>GossipBlock\<close> panic inside \<^verbatim>\<open>AddBlock\<close>. The web server goes on, but \<^verbatim>\<open>SyncUnlock\<close> was not
  deferred: every run of the handler's part for such a block that panics leaves \<^verbatim>\<open>syncMutex\<close> locked, whatever the other goroutines do meanwhile, and
  from then on no goroutine that still has to lock it ever ends. There is such a run.
\<close>

theorem low_target_freezes:
  assumes "node_env E" and "chain_ok E g bs s" and "bs \<noteq> []" and "0 \<le> g" and "g < MaxGroupNum E" and "own_groups E g = Ok True"
    and "Group b = g" and "Height b = int (length bs)" and "length bs < 2 ^ 24" and "PrevHash b = tip_hash E [] bs"
    and "Target b = Fin q" and "0 \<le> q" and "q < 1"
    and "\<forall>b' \<in> set bs. Block_Hash E b' \<noteq> Block_Hash E b" and "node_Get E Blockheads g (KInt32 (Height b)) s = None"
    and "\<forall>t \<in> set others. node_run t"
  shows "handle_GossipBlock E P rnd b sender excepted (N, s) = Panic \<and>
    (\<exists>t. runs (next_block_mutexes g) t False) \<and>
    (\<forall>t. runs (next_block_mutexes g) t False \<longrightarrow> runs (GossipBlock_mutexes g g' gs) t False \<and>
       lock_step\<^sup>*\<^sup>* ({}, t # others) ({SyncMutex}, [] # others) \<and>
       (\<forall>held us held' us'. lock_step\<^sup>*\<^sup>* ({}, t # others) (held, us) \<longrightarrow> us ! 0 = [] \<longrightarrow> lock_step\<^sup>*\<^sup>* (held, us) (held', us') \<longrightarrow>
          SyncMutex \<in> held' \<and> (\<forall>i < length others. Acquire SyncMutex \<in> set (us ! (i + 1)) \<longrightarrow> us' ! (i + 1) \<noteq> [])))"
proof (intro conjI allI impI)
  show "handle_GossipBlock E P rnd b sender excepted (N, s) = Panic" by (rule node_env.low_target_panics [OF assms(1-15)])
  show "\<exists>t. runs (next_block_mutexes g) t False" using panic_next_block by blast
  fix t assume t: "runs (next_block_mutexes g) t False"
  show "runs (GossipBlock_mutexes g g' gs) t False" by (rule next_block_in_GossipBlock [OF t])
  note solo = panic_leaves_SyncMutex [OF t]
  show "lock_step\<^sup>*\<^sup>* ({}, t # others) ({SyncMutex}, [] # others)" using solo_steps [OF solo, of 0 "[] # others" "[]"] by simp
  have others: "\<forall>u \<in> set others. solo {} u \<noteq> None" using assms(16) requests_nested ordered_solo unfolding nested_def by fastforce
  fix held us held' us'
  assume "lock_step\<^sup>*\<^sup>* ({}, t # others) (held, us)" "us ! 0 = []" "lock_step\<^sup>*\<^sup>* (held, us) (held', us')"
  note left = left_locked(2) [OF solo _ others this]
  show "SyncMutex \<in> held'" using left by simp
  show "us' ! (i + 1) \<noteq> []" if "i < length others" "Acquire SyncMutex \<in> set (us ! (i + 1))" for i using left that by simp
qed

section \<open>Witnesses\<close>

lemma run_GetHash: "runs GetHash_mutexes (concat [[Acquire DecodeMutex, Release DecodeMutex], concat [db_run, [], db_run, [], []]]) True"
  unfolding GetHash_mutexes_def GetBlockByHeight_mutexes_def BytesToBlock_mutexes_def
  by (intro runs_steps list.rel_intros known_runs runs.right runs.nothing)

lemma peer_run_GetHash: "peer_run (Acquire DecodeMutex # Release DecodeMutex # db_run @ db_run)"
  using run_GetHash by (auto simp: peer_run_def peer_requests_def)

lemma peer_run_GossipBlock: "peer_run (block_start g @ block_rest g)"
  using run_GossipBlock [of g] by (auto simp: peer_run_def peer_requests_def)


theorem SendCMD_deadlock_witness:
  "\<exists>a b held. lock_step\<^sup>*\<^sup>* ({}, [a, b, Acquire DecodeMutex # Release DecodeMutex # db_run @ db_run])
       (held, [block_rest 0, send_rest 0, Acquire DecodeMutex # Release DecodeMutex # db_run @ db_run]) \<and>
     (\<forall>held' us. lock_step\<^sup>*\<^sup>* (held, [block_rest 0, send_rest 0, Acquire DecodeMutex # Release DecodeMutex # db_run @ db_run]) (held', us) \<longrightarrow>
        us ! 2 \<noteq> [])"
proof -
  have "\<forall>t \<in> set [Acquire DecodeMutex # Release DecodeMutex # db_run @ db_run]. node_run t"
    using peer_run_GetHash by (simp add: node_run_def)
  from SendCMD_deadlock [where g = 0 and g' = 0 and gs = "[]", OF this] obtain a b held where
    run: "lock_step\<^sup>*\<^sup>* ({}, [a @ block_rest 0, b @ send_rest 0, Acquire DecodeMutex # Release DecodeMutex # db_run @ db_run])
       (held, [block_rest 0, send_rest 0, Acquire DecodeMutex # Release DecodeMutex # db_run @ db_run])"
    and stuck: "\<forall>held' us. lock_step\<^sup>*\<^sup>* (held, [block_rest 0, send_rest 0, Acquire DecodeMutex # Release DecodeMutex # db_run @ db_run]) (held', us) \<longrightarrow>
       take 2 us = [block_rest 0, send_rest 0] \<and> BoltMutex \<in> held' \<and>
       (\<forall>i < length [Acquire DecodeMutex # Release DecodeMutex # db_run @ db_run].
          Acquire BoltMutex \<in> set ([Acquire DecodeMutex # Release DecodeMutex # db_run @ db_run] ! i) \<longrightarrow> us ! (i + 2) \<noteq> [])"
    by (elim exE conjE) (rule that)
  have "us ! 2 \<noteq> []" if r: "lock_step\<^sup>*\<^sup>* (held, [block_rest 0, send_rest 0, Acquire DecodeMutex # Release DecodeMutex # db_run @ db_run]) (held', us)" for held' us
    using stuck [rule_format, OF r] by (simp add: db_run_def numeral_2_eq_2)
  then show ?thesis using run by blast
qed

definition worthless_block :: Block where
  "worthless_block = sample_genesis\<lparr>Height := 1, PrevHash := tip_hash plain_env [] [sample_genesis], Target := Fin 0\<rparr>"

lemma plain_own: "own_groups plain_env 0 = Ok True"
  using ref_group by (simp add: own_groups_def GetGroup_def InGroup_def in_range_def)

text \<open>A node with one block and no head of a later one.\<close>

lemma one_block: "\<exists>s. chain_ok plain_env 0 [sample_genesis] s \<and> node_Get plain_env Blockheads 0 (KInt32 1) s = None"
proof -
  obtain s where s: "ready plain_env 0 [sample_genesis] s" using sample_ready by blast
  define s' where "s' = s\<lparr>node_dbs := (node_dbs s)(Blockheads := \<lambda>_. None)\<rparr>"
  have "same_blocks plain_env 0 s s'" by (simp add: same_blocks_def s'_def node_Get_def db_Get_def)
  then have "chain_ok plain_env 0 [sample_genesis] s'" using s chain_ok_same_blocks [of plain_env 0 s s'] by (simp add: ready_def)
  moreover have "node_Get plain_env Blockheads 0 (KInt32 1) s' = None" by (simp add: s'_def node_Get_def db_Get_def)
  ultimately show ?thesis by blast
qed

theorem low_target_freezes_witness:
  "\<exists>s t P rnd N. chain_ok plain_env 0 [sample_genesis] s \<and> handle_GossipBlock plain_env P rnd worthless_block [9] [] (N, s) = Panic \<and>
     runs (GossipBlock_mutexes 0 0 []) t False \<and> lock_step\<^sup>*\<^sup>* ({}, [t, block_start 0 @ block_rest 0]) ({SyncMutex}, [[], block_start 0 @ block_rest 0]) \<and>
     (\<forall>held us. lock_step\<^sup>*\<^sup>* ({SyncMutex}, [[], block_start 0 @ block_rest 0]) (held, us) \<longrightarrow> us ! 1 \<noteq> [])"
proof -
  obtain s where s: "chain_ok plain_env 0 [sample_genesis] s" "node_Get plain_env Blockheads 0 (KInt32 1) s = None" using one_block by blast
  have runs: "\<forall>t \<in> set [block_start 0 @ block_rest 0]. node_run t"
    using peer_run_GossipBlock [of 0] by (simp add: node_run_def)
  have other: "Block_Hash plain_env sample_genesis \<noteq> Block_Hash plain_env worthless_block"
    using plain_block_hash [of sample_genesis 1] plain_block_hash [of worthless_block 0]
    by (auto simp: worthless_block_def sample_genesis_def enc_int_def enc_nat_def to_digits.simps enc_digit_def)
  obtain P :: peers and rnd :: "nat \<Rightarrow> nat \<Rightarrow> nat" and N :: net where True by blast
  show ?thesis
    using low_target_freezes [OF plain_node.node_env_axioms s(1) _ _ _ plain_own, of worthless_block 0 "[block_start 0 @ block_rest 0]" P rnd "[9]" "[]" N 0 "[]"]
      s other runs
    by (fastforce simp: worthless_block_def sample_genesis_def block_start_def append_start_def)
qed

end
