(* ===== verification/Http.thy ===== *)
theory Http
  imports Two_Nodes
begin

text \<open>
  HTTP between two nodes: the table of routes (\<^verbatim>\<open>routers/router.go\<close>), reading the arguments of a request and writing its answer
  (\<^verbatim>\<open>api/base.go\<close>, \<^verbatim>\<open>api/net.go\<close>, \<^verbatim>\<open>Decode\<close> of \<^verbatim>\<open>utils/index.go\<close>), the client (\<^verbatim>\<open>call\<close> of \<^verbatim>\<open>network/call.go\<close>) and the
  functions of \<^verbatim>\<open>api/db.go\<close> that gossip. The JSON library and the web server are the record \<open>http\<close>, their laws the locales \<open>http_codec\<close> and
  \<open>finite_json\<close>, interpreted on a codec of lengths and bytes. What is proved elsewhere about handlers and peers then holds over HTTP.
\<close>

section \<open>Requests and replies\<close>

text \<open>The argument and reply structures of \<^verbatim>\<open>api\<close> and \<^verbatim>\<open>network\<close>. \<open>NoReply\<close> is a nil pointer.\<close>

datatype api_args =
    GetGenesisArgs int
  | GetBalanceArgs bytes
  | GetBlocksArgs int int int HashValue
  | GossipTxnArgs Transaction int
  | GossipRelayTxnArgs int int int "MerklePath list" Transaction
  | GossipBlockArgs Block
  | GossipBlockHeadArgs Block
  | GetHashArgs int int
  | SendVersionArgs Version
  | HeartBeatArgs
  | GetKnownNodesArgs KnownNodesEntry
  | SendCMDArgs bytes bytes int

datatype api_reply =
    GetGenesisReply Block
  | GetBalanceReply int
  | GetBlocksReply "Block list"
  | GetHashReply HashValue
  | SendVersionReply Version
  | GetKnownNodesReply "KnownNodesEntry list"
  | NoReply

record SimpleJSONResult =
  Message :: bytes
  Data :: "api_reply option"

text \<open>The methods that the router knows.\<close>

datatype handler = HGetGenesis | HGetBalance | HGetBlocks | HGossipTxn | HGossipRelayTxn | HGossipBlock | HGossipBlockHead | HGetHash
  | HSendVersion | HHeartBeat | HGetKnownNodes | HSendCMD

definition routes :: "(string \<times> handler) list" where
  "routes =
     [(''/v1/db/GetGenesis'', HGetGenesis), (''/v1/db/GetBalance'', HGetBalance), (''/v1/db/GetBlocks'', HGetBlocks),
      (''/v1/db/GossipTxn'', HGossipTxn), (''/v1/db/GossipRelayTxn'', HGossipRelayTxn), (''/v1/db/GossipBlock'', HGossipBlock),
      (''/v1/db/GossipBlockHead'', HGossipBlockHead), (''/v1/db/GetHash'', HGetHash), (''/v1/version/SendVersion'', HSendVersion),
      (''/v1/net/HeartBeat'', HHeartBeat), (''/v1/net/GetKnownNodes'', HGetKnownNodes), (''/v1/server/SendCMD'', HSendCMD)]"

text \<open>
  What the program takes from \<^verbatim>\<open>jsoniter\<close>, \<^verbatim>\<open>fmt\<close> and the web server: how arguments and results become text and back, the text of
  an error, and the page that the server sends when a handler panics or no route fits. Reading may panic; reading arguments may report an error. Reading
  a result gives its message and what the structure behind the reply pointer, which was \<open>zero\<close> before, holds afterwards.
\<close>

record http =
  marshal_args :: "api_args \<Rightarrow> bytes option"
  unmarshal_args :: "handler \<Rightarrow> bytes \<Rightarrow> (bytes + api_args) outcome"
  marshal_result :: "SimpleJSONResult \<Rightarrow> bytes option"
  unmarshal_result :: "api_reply \<Rightarrow> bytes \<Rightarrow> (bytes \<times> api_reply) outcome"
  error_text :: "api_error \<Rightarrow> bytes"
  error_page :: bytes

section \<open>The server\<close>

text \<open>
  \<^verbatim>\<open>utils.Decode\<close>: when \<^verbatim>\<open>Unmarshal\<close> panics, the panic is caught and the deferred \<^verbatim>\<open>log.Errln\<close> ends the process.
\<close>

definition utils_Decode :: "(bytes \<Rightarrow> 'a outcome) \<Rightarrow> bytes \<Rightarrow> 'a outcome" where
  "utils_Decode unmarshal b = (case unmarshal b of Panic \<Rightarrow> Exit | r \<Rightarrow> r)"

text \<open>\<^verbatim>\<open>ReturnErr\<close> does nothing for nil.\<close>

definition ReturnJson :: "http \<Rightarrow> SimpleJSONResult \<Rightarrow> bytes" where
  "ReturnJson C data = (case marshal_result C data of None \<Rightarrow> error_page C | Some text \<Rightarrow> text)"

definition ReturnErr :: "http \<Rightarrow> bytes \<Rightarrow> bytes" where
  "ReturnErr C err = ReturnJson C \<lparr>Message = err, Data = None\<rparr>"

definition Return :: "http \<Rightarrow> api_reply option \<Rightarrow> bytes" where
  "Return C data = ReturnJson C \<lparr>Message = [], Data = data\<rparr>"

definition answer :: "http \<Rightarrow> ('a \<Rightarrow> api_reply) \<Rightarrow> api_error + 'a \<Rightarrow> bytes" where
  "answer C reply r = (case r of Inl err \<Rightarrow> ReturnErr C (error_text C err) | Inr x \<Rightarrow> Return C (Some (reply x)))"

text \<open>A node on the net, and what a handler needs besides: the answers of other nodes, random numbers, the wallets, the own address.\<close>

record 'k server =
  srv_peers :: peers
  srv_rnd :: "nat \<Rightarrow> nat \<Rightarrow> nat"
  srv_wallets :: "(bytes \<rightharpoonup> Wallet) option"
  srv_call :: "bytes \<Rightarrow> KnownNodesEntry list option outcome"
  srv_self :: bytes
  srv_net :: net
  srv_node :: "'k node"

text \<open>
  The handlers. \<open>sender\<close> is the query parameter \<^verbatim>\<open>address\<close>; the route parameter \<^verbatim>\<open>:address\<close> is empty because no route has it. The result is the text of
  the answer, the messages to other nodes, and the changed node.
\<close>

fun dispatch :: "('k, 'z) env_scheme \<Rightarrow> http \<Rightarrow> bytes \<Rightarrow> api_args \<Rightarrow> 'k server \<Rightarrow> (bytes \<times> message list \<times> 'k server) outcome" where
  "dispatch E C sender (GetGenesisArgs g) S =
     obind (handle_GetGenesis E g (srv_node S)) (\<lambda>r. Ok (answer C GetGenesisReply r, [], S))"
| "dispatch E C sender (GetBalanceArgs address) S =
     obind (handle_GetBalance E address (srv_node S)) (\<lambda>r. Ok (answer C GetBalanceReply r, [], S))"
| "dispatch E C sender (GetBlocksArgs g from to hash) S =
     obind (handle_GetBlocks E g from to hash (srv_node S)) (\<lambda>r. Ok (answer C GetBlocksReply r, [], S))"
| "dispatch E C sender (GossipTxnArgs txn g) S =
     obind (handle_GossipTxn E g txn [] (srv_node S)) (\<lambda>(msgs, s). Ok (Return C None, msgs, S\<lparr>srv_node := s\<rparr>))"
| "dispatch E C sender (GossipRelayTxnArgs fromGroup toGroup height path txn) S =
     obind (handle_GossipRelayTxn E fromGroup toGroup height path txn [] (srv_node S)) (\<lambda>(msgs, s). Ok (Return C None, msgs, S\<lparr>srv_node := s\<rparr>))"
| "dispatch E C sender (GossipBlockArgs b) S =
     obind (handle_GossipBlock E (srv_peers S) (srv_rnd S) b sender [] (srv_net S, srv_node S)) (\<lambda>(msgs, N, s).
       Ok (Return C None, msgs, S\<lparr>srv_net := N, srv_node := s\<rparr>))"
| "dispatch E C sender (GossipBlockHeadArgs b) S =
     obind (handle_GossipBlockHead E b [] (srv_node S)) (\<lambda>(msgs, s). Ok (Return C None, msgs, S\<lparr>srv_node := s\<rparr>))"
| "dispatch E C sender (GetHashArgs g height) S =
     obind (handle_GetHash E g height (srv_node S)) (\<lambda>r. Ok (answer C GetHashReply r, [], S))"
| "dispatch E C sender (SendVersionArgs v) S =
     obind (handle_SendVersion E v (srv_node S)) (\<lambda>r. Ok (answer C SendVersionReply r, [], S))"
| "dispatch E C sender HeartBeatArgs S = Ok (Return C None, [], S)"
| "dispatch E C sender (GetKnownNodesArgs entry) S =
     obind (NET_GetKnownNodes E entry (known (srv_net S))) (\<lambda>(nodes, kn).
       Ok (Return C (Some (GetKnownNodesReply nodes)), [], S\<lparr>srv_net := (srv_net S)\<lparr>known := kn\<rparr>\<rparr>))"
| "dispatch E C sender (SendCMDArgs from to_addr amount) S =
     obind (handle_SendCMD E (srv_wallets S) (srv_rnd S 0) (srv_call S) (srv_self S) from to_addr amount (srv_net S, srv_node S))
       (\<lambda>(err, msgs, N).
         Ok (case err of None \<Rightarrow> Return C None | Some e \<Rightarrow> ReturnErr C (error_text C e), msgs, S\<lparr>srv_net := N\<rparr>))"

text \<open>\<^verbatim>\<open>HeartBeat\<close> parses nothing.\<close>

definition ParseParameter :: "http \<Rightarrow> handler \<Rightarrow> bytes \<Rightarrow> (bytes + api_args) outcome" where
  "ParseParameter C h body = (if h = HHeartBeat then Ok (Inr HeartBeatArgs) else utils_Decode (unmarshal_args C h) body)"

definition serve :: "('k, 'z) env_scheme \<Rightarrow> http \<Rightarrow> string \<Rightarrow> bytes \<Rightarrow> bytes \<Rightarrow> 'k server \<Rightarrow> (bytes \<times> message list \<times> 'k server) outcome" where
  "serve E C path sender body S =
     (case map_of routes path of None \<Rightarrow> Ok (error_page C, [], S)
      | Some h \<Rightarrow> obind (ParseParameter C h body) (\<lambda>r.
          case r of Inl err \<Rightarrow> Ok (ReturnErr C err, [], S) | Inr args \<Rightarrow> dispatch E C sender args S))"

section \<open>The client\<close>

fun method_of :: "api_args \<Rightarrow> string" where
  "method_of (GetGenesisArgs _) = ''db/GetGenesis''"
| "method_of (GetBalanceArgs _) = ''db/GetBalance''"
| "method_of (GetBlocksArgs _ _ _ _) = ''db/GetBlocks''"
| "method_of (GossipTxnArgs _ _) = ''db/GossipTxn''"
| "method_of (GossipRelayTxnArgs _ _ _ _ _) = ''db/GossipRelayTxn''"
| "method_of (GossipBlockArgs _) = ''db/GossipBlock''"
| "method_of (GossipBlockHeadArgs _) = ''db/GossipBlockHead''"
| "method_of (GetHashArgs _ _) = ''db/GetHash''"
| "method_of (SendVersionArgs _) = ''version/SendVersion''"
| "method_of HeartBeatArgs = ''net/HeartBeat''"
| "method_of (GetKnownNodesArgs _) = ''net/GetKnownNodes''"
| "method_of (SendCMDArgs _ _ _) = ''server/SendCMD''"

definition path_of :: "api_args \<Rightarrow> string" where
  "path_of args = ''/v1/'' @ method_of args"

text \<open>
  What comes back from the node that listens at an address: nothing when its process ended, the error page when the handler panicked. \<^verbatim>\<open>http.Post\<close> has no
  time limit: for a handler that never returns, the caller waits.
\<close>

definition response :: "http \<Rightarrow> (bytes \<times> 'b) outcome \<Rightarrow> bytes option outcome" where
  "response C r = (case r of Ok (text, _) \<Rightarrow> Ok (Some text) | Panic \<Rightarrow> Ok (Some (error_page C)) | Exit \<Rightarrow> Ok None | Hang \<Rightarrow> Hang)"

definition http_call :: "http \<Rightarrow> (string \<Rightarrow> bytes \<Rightarrow> bytes option outcome) \<Rightarrow> api_args \<Rightarrow> api_reply \<Rightarrow> api_reply option outcome" where
  "http_call C post args reply =
     (case marshal_args C args of None \<Rightarrow> Ok None
      | Some b \<Rightarrow> obind (post (path_of args) b) (\<lambda>res. case res of None \<Rightarrow> Ok None
          | Some text \<Rightarrow> obind (unmarshal_result C reply text) (\<lambda>(message, ret). Ok (if message \<noteq> [] then None else Some ret))))"

text \<open>What a peer answers when every request travels as text to a node in the state of \<open>S\<close>.\<close>

definition http_post :: "('k, 'z) env_scheme \<Rightarrow> http \<Rightarrow> bytes \<Rightarrow> 'k server \<Rightarrow> string \<Rightarrow> bytes \<Rightarrow> bytes option outcome" where
  "http_post E C sender S path body = response C (serve E C path sender body S)"

definition http_peers ::
  "('k, 'z) env_scheme \<Rightarrow> http \<Rightarrow> bytes \<Rightarrow> (nat \<Rightarrow> bytes \<Rightarrow> KnownNodesEntry list option outcome) \<Rightarrow> 'k server \<Rightarrow> peers" where
  "http_peers E C sender nodes S =
     \<lparr>peer_genesis = (\<lambda>n a g. obind (http_call C (http_post E C sender S) (GetGenesisArgs g) (GetGenesisReply zero_block)) (\<lambda>r.
        Ok (case r of Some (GetGenesisReply b) \<Rightarrow> Some b | _ \<Rightarrow> None))),
      peer_version = (\<lambda>n a v. obind (http_call C (http_post E C sender S) (SendVersionArgs v) (SendVersionReply zero_version)) (\<lambda>r.
        Ok (case r of Some (SendVersionReply v) \<Rightarrow> Some v | _ \<Rightarrow> None))),
      peer_nodes = nodes,
      peer_hash = (\<lambda>a g height. obind (http_call C (http_post E C sender S) (GetHashArgs g height) (GetHashReply [])) (\<lambda>r.
        Ok (case r of Some (GetHashReply h) \<Rightarrow> Some h | _ \<Rightarrow> None))),
      peer_blocks = (\<lambda>a g from to h. obind (http_call C (http_post E C sender S) (GetBlocksArgs g from to h) (GetBlocksReply [])) (\<lambda>r.
        Ok (case r of Some (GetBlocksReply bs) \<Rightarrow> Some (map Some bs) | _ \<Rightarrow> None)))\<rparr>"

section \<open>What the texts preserve\<close>

fun handler_of :: "api_args \<Rightarrow> handler" where
  "handler_of (GetGenesisArgs _) = HGetGenesis"
| "handler_of (GetBalanceArgs _) = HGetBalance"
| "handler_of (GetBlocksArgs _ _ _ _) = HGetBlocks"
| "handler_of (GossipTxnArgs _ _) = HGossipTxn"
| "handler_of (GossipRelayTxnArgs _ _ _ _ _) = HGossipRelayTxn"
| "handler_of (GossipBlockArgs _) = HGossipBlock"
| "handler_of (GossipBlockHeadArgs _) = HGossipBlockHead"
| "handler_of (GetHashArgs _ _) = HGetHash"
| "handler_of (SendVersionArgs _) = HSendVersion"
| "handler_of HeartBeatArgs = HHeartBeat"
| "handler_of (GetKnownNodesArgs _) = HGetKnownNodes"
| "handler_of (SendCMDArgs _ _ _) = HSendCMD"

text \<open>Two replies of one type, and values without an infinite or undefined difficulty, which JSON has no numbers for.\<close>

fun same_type :: "api_reply \<Rightarrow> api_reply \<Rightarrow> bool" where
  "same_type (GetGenesisReply _) (GetGenesisReply _) = True"
| "same_type (GetBalanceReply _) (GetBalanceReply _) = True"
| "same_type (GetBlocksReply _) (GetBlocksReply _) = True"
| "same_type (GetHashReply _) (GetHashReply _) = True"
| "same_type (SendVersionReply _) (SendVersionReply _) = True"
| "same_type (GetKnownNodesReply _) (GetKnownNodesReply _) = True"
| "same_type _ _ = False"

definition finite_target :: "Block \<Rightarrow> bool" where
  "finite_target b \<longleftrightarrow> (\<exists>q. Target b = Fin q)"

fun finite_args :: "api_args \<Rightarrow> bool" where
  "finite_args (GossipBlockArgs b) = finite_target b"
| "finite_args (GossipBlockHeadArgs b) = finite_target b"
| "finite_args _ = True"

fun finite_reply :: "api_reply \<Rightarrow> bool" where
  "finite_reply (GetGenesisReply b) = finite_target b"
| "finite_reply (GetBlocksReply bs) = (\<forall>b \<in> set bs. finite_target b)"
| "finite_reply _ = True"

text \<open>
  The contract of the JSON library: arguments are read back; a result is read back, and a nil in it leaves the reply structure as it was; so does a page
  that is not JSON. No error has an empty text.
\<close>

locale http_codec =
  fixes C :: http
  assumes args_text: "finite_args a \<Longrightarrow> \<exists>body. marshal_args C a = Some body"
    and args_back: "marshal_args C a = Some body \<Longrightarrow> unmarshal_args C (handler_of a) body = Ok (Inr a)"
    and result_text: "case Data r of None \<Rightarrow> True | Some x \<Rightarrow> finite_reply x \<Longrightarrow> \<exists>text. marshal_result C r = Some text"
    and result_nil: "marshal_result C \<lparr>Message = m, Data = None\<rparr> = Some text \<Longrightarrow> unmarshal_result C zero text = Ok (m, zero)"
    and result_back: "marshal_result C \<lparr>Message = m, Data = Some x\<rparr> = Some text \<Longrightarrow> same_type x zero \<Longrightarrow> unmarshal_result C zero text = Ok (m, x)"
    and page_ignored: "unmarshal_result C zero (error_page C) = Ok ([], zero)"
    and error_text_nonempty: "error_text C err \<noteq> []"
begin

lemma read_err: "unmarshal_result C zero (ReturnErr C err) = Ok (err, zero)"
  using result_text [of "\<lparr>Message = err, Data = None\<rparr>"] result_nil by (auto simp: ReturnErr_def ReturnJson_def)

lemma read_reply: "finite_reply x \<Longrightarrow> same_type x zero \<Longrightarrow> unmarshal_result C zero (Return C (Some x)) = Ok ([], x)"
  using result_text [of "\<lparr>Message = [], Data = Some x\<rparr>"] result_back by (auto simp: Return_def ReturnJson_def)

lemma read_nil: "unmarshal_result C zero (Return C None) = Ok ([], zero)"
  using result_text [of "\<lparr>Message = [], Data = None\<rparr>"] result_nil by (auto simp: Return_def ReturnJson_def)

end

text \<open>Every method that the clients name has its route.\<close>

lemma route_found: "map_of routes (path_of a) = Some (handler_of a)"
  by (cases a) (simp_all add: routes_def path_of_def)

context http_codec
begin

lemma served:
  assumes "marshal_args C a = Some body"
  shows "serve E C (path_of a) sender body S = dispatch E C sender a S"
proof -
  have "ParseParameter C (handler_of a) body = Ok (Inr a)"
    using args_back [OF assms] by (cases a) (simp_all add: ParseParameter_def utils_Decode_def)
  then show ?thesis by (simp add: serve_def route_found)
qed

text \<open>A request with a reply is, over HTTP, what \<open>call_reply\<close> says.\<close>

lemma http_call_reply:
  assumes "finite_args a" and "\<And>x. same_type (reply x) (reply zero)" and "\<And>x. r = Ok (Inr x) \<Longrightarrow> finite_reply (reply x)"
    and "dispatch E C sender a S = obind r (\<lambda>r. Ok (answer C reply r, [], S))"
  shows "http_call C (http_post E C sender S) a (reply zero) = obind (call_reply zero r) (\<lambda>x. Ok (map_option reply x))"
proof -
  obtain body where body: "marshal_args C a = Some body" using args_text [OF assms(1)] by blast
  have post: "http_post E C sender S (path_of a) body = response C (obind r (\<lambda>r. Ok (answer C reply r, [] :: message list, S)))"
    by (simp add: http_post_def served [OF body] assms(4))
  show ?thesis
  proof (cases r)
    case (Ok v)
    then show ?thesis
      using body post assms(2,3) error_text_nonempty
      by (cases v) (simp_all add: http_call_def response_def answer_def call_reply_def read_err read_reply)
  qed (use body post in \<open>simp_all add: http_call_def response_def call_reply_def page_ignored\<close>)
qed

end

text \<open>Text that JSON reads into a block without an error gives a finite difficulty.\<close>

locale finite_json =
  fixes E :: "('k, 'z) env_scheme"
  assumes finite_block: "unmarshal_block E bs = (b, False) \<Longrightarrow> finite_target b"
begin

lemma BytesToBlock_finite: "BytesToBlock E bytes = Ok (Some b) \<Longrightarrow> finite_target b"
  using finite_block by (auto simp: BytesToBlock_def split: option.splits prod.splits if_splits)

lemma block_at_finite: "block_at E g k s = Ok (Some b) \<Longrightarrow> finite_target b"
  using BytesToBlock_finite by (auto simp: block_at_def Let_def)

lemma block_range_finite: "block_range E bc i n s = Ok (Inr bs) \<Longrightarrow> \<forall>b \<in> set bs. finite_target b"
proof (induction n arbitrary: i bs)
  case (Suc n)
  obtain data where data: "GetBlockByHeight E bc i s = Ok data" using Suc.prems by auto
  then obtain b where b: "data = Some b" using Suc.prems by (cases data) auto
  then obtain rest where "block_range E bc (i + 1) n s = Ok (Inr rest)" "bs = b # rest"
    using Suc.prems data by (auto split: sum.splits) (metis sum.exhaust)
  then show ?case using Suc.IH block_at_finite data b by (auto simp: GetBlockByHeight_def)
qed simp

lemma handlers_finite:
  "handle_GetGenesis E g s = Ok (Inr b) \<Longrightarrow> finite_target b"
  "handle_GetBlocks E g from to h s = Ok (Inr bs) \<Longrightarrow> b \<in> set bs \<Longrightarrow> finite_target b"
  using block_at_finite block_range_finite
  by (auto simp: handle_GetGenesis_def GetGenesis_def handle_GetBlocks_def split: option.splits if_splits)

end

lemma obind_reply: "obind (obind m (\<lambda>x. Ok (map_option reply x))) (\<lambda>r. Ok (case r of None \<Rightarrow> None | Some y \<Rightarrow> f y)) =
    obind m (\<lambda>x. Ok (case x of None \<Rightarrow> None | Some y \<Rightarrow> f (reply y)))"
  and obind_same: "obind m (\<lambda>x. Ok (case x of None \<Rightarrow> None | Some y \<Rightarrow> Some y)) = m"
  and obind_map: "obind m (\<lambda>x. Ok (case x of None \<Rightarrow> None | Some y \<Rightarrow> Some (g y))) = obind m (\<lambda>x. Ok (map_option g x))"
  by (cases m; simp add: fun_eq_iff split: option.splits)+

lemma http_peers_eq:
  assumes "http_codec C" and "finite_json E"
  shows "http_peers E C sender nodes S = peer_of E nodes (srv_node S)"
proof -
  note call = http_codec.http_call_reply [OF assms(1)]
  have g: "http_call C (http_post E C sender S) (GetGenesisArgs g) (GetGenesisReply zero_block) =
      obind (call_reply zero_block (handle_GetGenesis E g (srv_node S))) (\<lambda>x. Ok (map_option GetGenesisReply x))" for g
    using finite_json.handlers_finite(1) [OF assms(2)] by (intro call) auto
  have v: "http_call C (http_post E C sender S) (SendVersionArgs v) (SendVersionReply zero_version) =
      obind (call_reply zero_version (handle_SendVersion E v (srv_node S))) (\<lambda>x. Ok (map_option SendVersionReply x))" for v
    by (intro call) auto
  have h: "http_call C (http_post E C sender S) (GetHashArgs g height) (GetHashReply []) =
      obind (call_reply [] (handle_GetHash E g height (srv_node S))) (\<lambda>x. Ok (map_option GetHashReply x))" for g height
    by (intro call) auto
  have b: "http_call C (http_post E C sender S) (GetBlocksArgs g from to hash) (GetBlocksReply []) =
      obind (call_reply [] (handle_GetBlocks E g from to hash (srv_node S))) (\<lambda>x. Ok (map_option GetBlocksReply x))" for g "from" to hash
    using finite_json.handlers_finite(2) [OF assms(2)] by (intro call) auto
  show ?thesis
    by (simp add: http_peers_def peer_of_def CallbackGetHash_def CallbackGetBlocks_def g v h b obind_reply obind_same
        cong: option.case_cong) (auto simp: fun_eq_iff CallbackGetHash_def CallbackGetBlocks_def obind_same obind_map)
qed

section \<open>A reference codec\<close>

definition enc_any_block :: "Block \<Rightarrow> bytes" where
  "enc_any_block b = enc_bytes (enc_block (case Target b of Fin q \<Rightarrow> q | _ \<Rightarrow> 0) b)"

definition dec_any_block :: "bytes \<Rightarrow> Block \<times> bytes" where
  "dec_any_block bs = (case dec_bytes bs of (x, rest) \<Rightarrow> (dec_block x, rest))"

lemma dec_enc_any_block [simp]: "finite_target b \<Longrightarrow> dec_any_block (enc_any_block b @ rest) = (b, rest)"
  by (auto simp: dec_any_block_def enc_any_block_def finite_target_def dec_enc_block)

lemma dec_enc_blocks [simp]: "\<forall>b \<in> set bs. finite_target b \<Longrightarrow> dec_list dec_any_block (enc_list enc_any_block bs) = (bs, [])"
proof -
  have "dec_many dec_any_block (length bs) (concat (map enc_any_block bs)) = (bs, [])" if "\<forall>b \<in> set bs. finite_target b"
    using that by (induction bs) simp_all
  then show "\<forall>b \<in> set bs. finite_target b \<Longrightarrow> ?thesis" by (simp add: dec_list_def enc_list_def)
qed

definition enc_entry :: "KnownNodesEntry \<Rightarrow> bytes" where
  "enc_entry e = enc_bytes (knAddress e) @ enc_int (knTimestamp e) @ enc_int (knGroupBase e) @ enc_int (knGroupNumber e)"

definition dec_entry :: "bytes \<Rightarrow> KnownNodesEntry \<times> bytes" where
  "dec_entry bs = (case dec_bytes bs of (a, bs) \<Rightarrow> case dec_int bs of (t, bs) \<Rightarrow> case dec_int bs of (b, bs) \<Rightarrow> case dec_int bs of (n, bs) \<Rightarrow>
     (\<lparr>knAddress = a, knTimestamp = t, knGroupBase = b, knGroupNumber = n\<rparr>, bs))"

interpretation entry_codec: stream_codec enc_entry dec_entry
  by unfold_locales (simp add: enc_entry_def dec_entry_def)

definition enc_version :: "Version \<Rightarrow> bytes" where
  "enc_version v = enc_int (vGroup v) @ enc_int (vVersion v) @ enc_int (vHeight v) @ enc_bytes (vRootHash v) @ enc_bytes (vNowHash v)"

definition dec_version :: "bytes \<Rightarrow> Version \<times> bytes" where
  "dec_version bs = (case dec_int bs of (g, bs) \<Rightarrow> case dec_int bs of (v, bs) \<Rightarrow> case dec_int bs of (h, bs) \<Rightarrow>
     case dec_bytes bs of (r, bs) \<Rightarrow> case dec_bytes bs of (n, bs) \<Rightarrow>
     (\<lparr>vGroup = g, vVersion = v, vHeight = h, vRootHash = r, vNowHash = n\<rparr>, bs))"

interpretation version_codec: stream_codec enc_version dec_version
  by unfold_locales (simp add: enc_version_def dec_version_def)

fun enc_args :: "api_args \<Rightarrow> bytes" where
  "enc_args (GetGenesisArgs g) = enc_int g"
| "enc_args (GetBalanceArgs a) = enc_bytes a"
| "enc_args (GetBlocksArgs g from to h) = enc_int g @ enc_int from @ enc_int to @ enc_bytes h"
| "enc_args (GossipTxnArgs t g) = enc_int g @ enc_txn t"
| "enc_args (GossipRelayTxnArgs a b h path t) = enc_int a @ enc_int b @ enc_int h @ enc_list enc_path path @ enc_txn t"
| "enc_args (GossipBlockArgs b) = enc_any_block b"
| "enc_args (GossipBlockHeadArgs b) = enc_any_block b"
| "enc_args (GetHashArgs g h) = enc_int g @ enc_int h"
| "enc_args (SendVersionArgs v) = enc_version v"
| "enc_args HeartBeatArgs = []"
| "enc_args (GetKnownNodesArgs e) = enc_entry e"
| "enc_args (SendCMDArgs a b n) = enc_int n @ enc_bytes a @ enc_bytes b"

fun dec_args :: "handler \<Rightarrow> bytes \<Rightarrow> api_args" where
  "dec_args HGetGenesis bs = GetGenesisArgs (fst (dec_int bs))"
| "dec_args HGetBalance bs = GetBalanceArgs (fst (dec_bytes bs))"
| "dec_args HGetBlocks bs = (case dec_int bs of (g, bs) \<Rightarrow> case dec_int bs of (from, bs) \<Rightarrow> case dec_int bs of (to, bs) \<Rightarrow>
     GetBlocksArgs g from to (fst (dec_bytes bs)))"
| "dec_args HGossipTxn bs = (case dec_int bs of (g, bs) \<Rightarrow> GossipTxnArgs (fst (dec_txn bs)) g)"
| "dec_args HGossipRelayTxn bs = (case dec_int bs of (a, bs) \<Rightarrow> case dec_int bs of (b, bs) \<Rightarrow> case dec_int bs of (h, bs) \<Rightarrow>
     case dec_list dec_path bs of (path, bs) \<Rightarrow> GossipRelayTxnArgs a b h path (fst (dec_txn bs)))"
| "dec_args HGossipBlock bs = GossipBlockArgs (fst (dec_any_block bs))"
| "dec_args HGossipBlockHead bs = GossipBlockHeadArgs (fst (dec_any_block bs))"
| "dec_args HGetHash bs = (case dec_int bs of (g, bs) \<Rightarrow> GetHashArgs g (fst (dec_int bs)))"
| "dec_args HSendVersion bs = SendVersionArgs (fst (dec_version bs))"
| "dec_args HHeartBeat bs = HeartBeatArgs"
| "dec_args HGetKnownNodes bs = GetKnownNodesArgs (fst (dec_entry bs))"
| "dec_args HSendCMD bs = (case dec_int bs of (n, bs) \<Rightarrow> case dec_bytes bs of (a, bs) \<Rightarrow> SendCMDArgs a (fst (dec_bytes bs)) n)"

lemma stream_end: "stream_codec enc dec \<Longrightarrow> dec (enc x) = (x, [])"
  using stream_codec.stream [of enc dec x "[]"] by simp

lemmas stream_ends [simp] = int_codec.stream_codec_axioms [THEN stream_end] bytes_codec.stream_codec_axioms [THEN stream_end]
  txn_codec.stream_codec_axioms [THEN stream_end] version_codec.stream_codec_axioms [THEN stream_end] entry_codec.stream_codec_axioms [THEN stream_end]

lemma dec_enc_args: "finite_args a \<Longrightarrow> dec_args (handler_of a) (enc_args a) = a"
  using dec_enc_any_block [where rest = "[]"] by (cases a) (simp_all add: path_codec.list_codec)

fun enc_reply :: "api_reply \<Rightarrow> bytes" where
  "enc_reply (GetGenesisReply b) = enc_any_block b"
| "enc_reply (GetBalanceReply n) = enc_int n"
| "enc_reply (GetBlocksReply bs) = enc_list enc_any_block bs"
| "enc_reply (GetHashReply h) = enc_bytes h"
| "enc_reply (SendVersionReply v) = enc_version v"
| "enc_reply (GetKnownNodesReply es) = enc_list enc_entry es"
| "enc_reply NoReply = []"

fun dec_reply :: "api_reply \<Rightarrow> bytes \<Rightarrow> api_reply" where
  "dec_reply (GetGenesisReply _) bs = GetGenesisReply (fst (dec_any_block bs))"
| "dec_reply (GetBalanceReply _) bs = GetBalanceReply (fst (dec_int bs))"
| "dec_reply (GetBlocksReply _) bs = GetBlocksReply (fst (dec_list dec_any_block bs))"
| "dec_reply (GetHashReply _) bs = GetHashReply (fst (dec_bytes bs))"
| "dec_reply (SendVersionReply _) bs = SendVersionReply (fst (dec_version bs))"
| "dec_reply (GetKnownNodesReply _) bs = GetKnownNodesReply (fst (dec_list dec_entry bs))"
| "dec_reply NoReply bs = NoReply"

lemma dec_enc_reply: "finite_reply x \<Longrightarrow> same_type x zero \<Longrightarrow> dec_reply zero (enc_reply x) = x"
  using dec_enc_any_block [where rest = "[]"] entry_codec.list_codec [where rest = "[]"]
  by (cases x; cases zero) simp_all

text \<open>An empty text stands for the error page, a first byte 0 for a nil.\<close>

definition ref_http :: http where
  "ref_http = \<lparr>
     marshal_args = (\<lambda>a. if finite_args a then Some (enc_args a) else None),
     unmarshal_args = (\<lambda>h body. Ok (Inr (dec_args h body))),
     marshal_result = (\<lambda>r. case Data r of None \<Rightarrow> Some (0 # Message r)
        | Some x \<Rightarrow> if finite_reply x then Some (1 # enc_bytes (Message r) @ enc_reply x) else None),
     unmarshal_result = (\<lambda>zero text. Ok (case text of [] \<Rightarrow> ([], zero)
        | tag # bs \<Rightarrow> if tag = 0 then (bs, zero) else case dec_bytes bs of (m, bs) \<Rightarrow> (m, dec_reply zero bs))),
     error_text = (\<lambda>_. [1]),
     error_page = []\<rparr>"

interpretation ref_http: http_codec ref_http
  by unfold_locales (auto simp: ref_http_def dec_enc_args dec_enc_reply split: if_splits option.splits)

lemma ref_finite: "unmarshal_block ref_json bs = (b, False) \<Longrightarrow> finite_target b"
  by (auto simp: ref_json_def dec_block_def finite_target_def split: prod.splits)

interpretation mirror_finite: finite_json mirror_env
proof
  fix bs b
  assume "unmarshal_block mirror_env bs = (b, False)"
  then have "unmarshal_block ref_json bs = (b, False)" by simp
  then show "finite_target b" by (rule ref_finite)
qed

section \<open>Gossip as requests\<close>

text \<open>
  What goroutines send. \<open>post\<close> gives what the node at an address answers to a path and a text. The reply pointer is nil. A nil block is sent as
  \<^verbatim>\<open>null\<close>, which leaves the receiver's structure zero; the request with \<open>zero_block\<close> stands for it.
\<close>

definition request :: "http \<Rightarrow> (bytes \<Rightarrow> string \<Rightarrow> bytes \<Rightarrow> bytes option outcome) \<Rightarrow> api_args \<Rightarrow> bytes \<Rightarrow> bool outcome" where
  "request C post args address = obind (http_call C (post address) args NoReply) (\<lambda>r. Ok (r \<noteq> None))"

definition GossipTxn ::
  "('k, 'z) env_scheme \<Rightarrow> http \<Rightarrow> (bytes \<Rightarrow> string \<Rightarrow> bytes \<Rightarrow> bytes option outcome) \<Rightarrow> (nat \<Rightarrow> nat) \<Rightarrow> Position list \<Rightarrow> int \<Rightarrow> Transaction \<Rightarrow>
   bytes \<Rightarrow> (bool \<times> bytes list \<times> Position list) outcome" where
  "GossipTxn E C post rnd sortedNodes g txn excepted =
     GossipCallInnerGroup E (request C post (GossipTxnArgs txn g)) excepted rnd sortedNodes"

definition GossipRelayTxn ::
  "('k, 'z) env_scheme \<Rightarrow> http \<Rightarrow> (bytes \<Rightarrow> string \<Rightarrow> bytes \<Rightarrow> bytes option outcome) \<Rightarrow> (nat \<Rightarrow> nat) \<Rightarrow> Position list \<Rightarrow> int \<Rightarrow> int \<Rightarrow> int \<Rightarrow>
   MerklePath list \<Rightarrow> Transaction \<Rightarrow> bytes \<Rightarrow> (bool \<times> bytes list \<times> Position list) outcome" where
  "GossipRelayTxn E C post rnd sortedNodes fromGroup toGroup height path txn excepted =
     GossipCallSpecialGroup E (request C post (GossipRelayTxnArgs fromGroup toGroup height path txn)) toGroup excepted rnd sortedNodes"

definition GossipBlock ::
  "('k, 'z) env_scheme \<Rightarrow> http \<Rightarrow> (bytes \<Rightarrow> string \<Rightarrow> bytes \<Rightarrow> bytes option outcome) \<Rightarrow> (nat \<Rightarrow> nat) \<Rightarrow> Position list \<Rightarrow> Block \<Rightarrow> bytes \<Rightarrow>
   (bool \<times> bytes list \<times> Position list) outcome" where
  "GossipBlock E C post rnd sortedNodes b excepted = GossipCallInnerGroup E (request C post (GossipBlockArgs b)) excepted rnd sortedNodes"

definition GossipBlockHead ::
  "('k, 'z) env_scheme \<Rightarrow> http \<Rightarrow> (bytes \<Rightarrow> string \<Rightarrow> bytes \<Rightarrow> bytes option outcome) \<Rightarrow> (nat \<Rightarrow> nat) \<Rightarrow> Position list \<Rightarrow> Block \<Rightarrow> bytes \<Rightarrow>
   (bool \<times> bytes list \<times> Position list) outcome" where
  "GossipBlockHead E C post rnd sortedNodes b excepted =
     GossipCallInterGroup E (request C post (GossipBlockHeadArgs (b\<lparr>Txns := []\<rparr>))) excepted rnd sortedNodes"

definition CallbackGossipBlock :: "http \<Rightarrow> (bytes \<Rightarrow> string \<Rightarrow> bytes \<Rightarrow> bytes option outcome) \<Rightarrow> Block option \<Rightarrow> bytes \<Rightarrow> bool outcome" where
  "CallbackGossipBlock C post b address =
     request C post (GossipBlockArgs (case b of None \<Rightarrow> zero_block | Some b \<Rightarrow> b)) address"

text \<open>What becomes of a message that a handler or the miner hands to a goroutine: the addresses that are called, and the shuffled nodes.\<close>

fun deliver ::
  "('k, 'z) env_scheme \<Rightarrow> http \<Rightarrow> (bytes \<Rightarrow> string \<Rightarrow> bytes \<Rightarrow> bytes option outcome) \<Rightarrow> (nat \<Rightarrow> nat) \<Rightarrow> Position list \<Rightarrow> message \<Rightarrow>
   (bool \<times> bytes list \<times> Position list) outcome" where
  "deliver E C post rnd nodes (MGossipTxn g txn excepted) = GossipTxn E C post rnd nodes g txn excepted"
| "deliver E C post rnd nodes (MGossipRelayTxn a b h path txn excepted) = GossipRelayTxn E C post rnd nodes a b h path txn excepted"
| "deliver E C post rnd nodes (MGossipBlock b excepted) = GossipBlock E C post rnd nodes b excepted"
| "deliver E C post rnd nodes (MCallbackGossipBlock b address) = obind (CallbackGossipBlock C post b address) (\<lambda>ok. Ok (ok, [address], nodes))"
| "deliver E C post rnd nodes (MGossipBlockHead b excepted) = GossipBlockHead E C post rnd nodes b excepted"

text \<open>The request that a message becomes.\<close>

fun request_of :: "message \<Rightarrow> api_args" where
  "request_of (MGossipTxn g txn _) = GossipTxnArgs txn g"
| "request_of (MGossipRelayTxn a b h path txn _) = GossipRelayTxnArgs a b h path txn"
| "request_of (MGossipBlock b _) = GossipBlockArgs b"
| "request_of (MCallbackGossipBlock b _) = GossipBlockArgs (case b of None \<Rightarrow> zero_block | Some b \<Rightarrow> b)"
| "request_of (MGossipBlockHead b _) = GossipBlockHeadArgs (b\<lparr>Txns := []\<rparr>)"

text \<open>Whether a called node counts as a success, given how its handler ends; the caller waits for one that never returns.\<close>

definition survives :: "'a outcome \<Rightarrow> bool outcome" where
  "survives r = (case r of Ok x \<Rightarrow> Ok True | Panic \<Rightarrow> Ok True | Exit \<Rightarrow> Ok False | Hang \<Rightarrow> Hang)"

lemma gossip_dispatch:
  "dispatch E C sender (request_of m) S = Ok (text, rest) \<Longrightarrow> text = Return C None"
  by (cases m) auto

lemma request_survives:
  assumes "http_codec C" and "finite_args (request_of m)"
  shows "request C (\<lambda>a. http_post E C sender (srv a)) (request_of m) address =
    survives (dispatch E C sender (request_of m) (srv address))"
proof -
  obtain body where body: "marshal_args C (request_of m) = Some body" using http_codec.args_text [OF assms] by blast
  show ?thesis
    using gossip_dispatch [of E C sender m "srv address"]
    by (cases "dispatch E C sender (request_of m) (srv address)")
      (auto simp: request_def http_call_def body http_post_def http_codec.served [OF assms(1) body] response_def survives_def
        http_codec.read_nil [OF assms(1)] http_codec.page_ignored [OF assms(1)])
qed

section \<open>What holds over HTTP\<close>

text \<open>C9: A node that asks over HTTP learns what it would learn by running the peer's handlers on its node state, with the errors, panics and deaths
  of the handlers seen the way \<^verbatim>\<open>call\<close> sees them; every request that has a text reaches its handler with the value that was sent.\<close>

theorem http_is_direct:
  assumes "http_codec C" and "finite_json E"
  shows "http_peers E C sender nodes S = peer_of E nodes (srv_node S) \<and>
    (\<forall>a caller S. finite_args a \<longrightarrow> (\<exists>body. marshal_args C a = Some body \<and> serve E C (path_of a) caller body S = dispatch E C caller a S))"
  using http_peers_eq [OF assms] http_codec.served [OF assms(1)] http_codec.args_text [OF assms(1)] by metis

text \<open>C28: A gossiped message becomes one request, the same for every node that is called; a node that is called runs its handler on the value sent, and
  counts as a success unless its process is gone, even when the handler panics. The gossip waits for a handler that never returns.\<close>

theorem gossip_over_http:
  assumes "http_codec C" and "finite_args (request_of m)"
  shows "deliver E C (\<lambda>a. http_post E C sender (srv a)) rnd nodes m =
    (let call = (\<lambda>a. survives (dispatch E C sender (request_of m) (srv a)))
     in case m of
       MGossipRelayTxn _ toGroup _ _ _ excepted \<Rightarrow> GossipCallSpecialGroup E call toGroup excepted rnd nodes
     | MCallbackGossipBlock _ address \<Rightarrow> obind (call address) (\<lambda>ok. Ok (ok, [address], nodes))
     | MGossipBlockHead _ excepted \<Rightarrow> GossipCallInterGroup E call excepted rnd nodes
     | MGossipTxn _ _ excepted \<Rightarrow> GossipCallInnerGroup E call excepted rnd nodes
     | MGossipBlock _ excepted \<Rightarrow> GossipCallInnerGroup E call excepted rnd nodes)"
proof -
  have r: "request C (\<lambda>a. http_post E C sender (srv a)) (request_of m) = (\<lambda>a. survives (dispatch E C sender (request_of m) (srv a)))"
    using request_survives [OF assms] by blast
  show ?thesis
    by (cases m; use r in \<open>simp add: Let_def GossipTxn_def GossipRelayTxn_def GossipBlock_def GossipBlockHead_def CallbackGossipBlock_def\<close>)
qed

section \<open>Witnesses\<close>

definition quiet_server :: "ref_bucket server" where
  "quiet_server = \<lparr>srv_peers = fork_peer, srv_rnd = \<lambda>_ _. 0, srv_wallets = None, srv_call = \<lambda>_. Ok None, srv_self = [7], srv_net = fork_net,
     srv_node = empty_node\<rparr>"

theorem http_is_direct_witness:
  "http_peers mirror_env ref_http [7] (\<lambda>_ _. Ok None) quiet_server = peer_of mirror_env (\<lambda>_ _. Ok None) empty_node"
  using http_is_direct [OF ref_http.http_codec_axioms mirror_finite.finite_json_axioms, of "[7]" "\<lambda>_ _. Ok None" quiet_server]
  by (simp add: quiet_server_def)

theorem gossip_over_http_witness:
  "deliver mirror_env ref_http (\<lambda>a. http_post mirror_env ref_http [7] quiet_server) id (sorted_nodes fork_net) (MGossipTxn 9 sample_coinbase []) =
     Ok (True, [[1]], sorted_nodes fork_net)"
proof -
  have quiet: "survives (dispatch mirror_env ref_http [7] (GossipTxnArgs sample_coinbase 9) quiet_server) = Ok True"
    by (simp add: survives_def quiet_server_def handle_GossipTxn_def own_groups_def InGroup_def in_range_def mirror_group)
  have finite: "finite_args (request_of (MGossipTxn 9 sample_coinbase []))" by simp
  show ?thesis
    unfolding gossip_over_http [OF ref_http.http_codec_axioms finite, where E = mirror_env and srv = "\<lambda>_. quiet_server"]
    using quiet mirror_group
    by (simp add: fork_net_def GossipCallInnerGroup_def GossipCallSpecialGroup_def swap_at_def send_def covers_def InGroup_def in_range_def)
qed

end
