(* ===== verification/Spec2Isabelle.thy ===== *)
theory Spec2Isabelle
  imports Logging Ring_Queue Commands Set_Equivalence Reachable_Network Node_Locks Http
begin

text \<open>
  A verification development of the blockchain node: a Go program in which every node keeps the chains of some groups,
  mines, and exchanges transactions and blocks with other nodes over HTTP. Paths are relative to the
  root of the repository.

  \<^bold>\<open>The program.\<close> \<^verbatim>\<open>types\<close> has the data: transactions whose inputs name outputs of earlier transactions, blocks with a header
  that is hashed for the proof of work, and byte strings that travel as JSON. \<^verbatim>\<open>core\<close> keeps for every group a chain of blocks, the heads of
  other blocks and the set of unspent outputs in buckets of a \<^verbatim>\<open>bolt\<close> database (\<^verbatim>\<open>global\<close>), and mines batches of blocks under one Merkle root.
  \<^verbatim>\<open>global/mempool\<close> holds the transactions that wait. \<^verbatim>\<open>network\<close> knows other nodes and calls them. \<^verbatim>\<open>api\<close>
  has a handler for every request and the synchronisation with a longer chain. An accepted block changes
  four things: the chain (\<^verbatim>\<open>AddBlock\<close>), the index of transactions, the memory pool, and then the set of unspent outputs
  (\<^verbatim>\<open>Update\<close>). A reorganisation takes blocks back with \<^verbatim>\<open>Reverse\<close> and \<^verbatim>\<open>DeleteBlock\<close> and adds others.

  \<^bold>\<open>How code becomes definitions.\<close> A definition has the name of the function it translates; a prefix tells methods of the same
  name apart. A loop is a recursive function of its own, named in the text before it. A call has an \<open>outcome\<close>: \<open>Ok\<close> with its result,
  \<open>Exit\<close> when \<^verbatim>\<open>log.Err\<close> ends the process, \<open>Panic\<close> for a run-time panic, \<open>Hang\<close> for a loop that does not end. Error values of
  Go are sums or options. \<^verbatim>\<open>int32\<close> and \<^verbatim>\<open>int64\<close> are \<open>int\<close> with the wrap-around written out (\<open>i32\<close>, \<open>i64\<close>), bytes are
  words of 8 bits, \<^verbatim>\<open>float64\<close> is a rational rounded after every operation. A Go map that is ranged over is an association list.
  The state of a node is the record \<open>node\<close>; that of its address book is the record \<open>net\<close>.

  \<^bold>\<open>Parameters.\<close> What is not source of this repository is a field of the record \<open>env\<close> or an argument: SHA-256 and RIPEMD-160, ECDSA, the JSON
  marshaller, the operations of bolt, the order in which Go ranges over a map, random numbers, the clock,
  the answers of other nodes, and what other goroutines do to the node while it mines. The locales \<open>digest32\<close>,
  \<open>digests\<close>, \<open>ecdsa_scheme\<close>, \<open>json_codec\<close>, \<open>json_order\<close>, \<open>gob_codec\<close>,
  \<open>bolt_store\<close> and \<open>go_ranges\<close> state what their documentation promises, \<open>node_env\<close> collects what a
  node needs, \<open>http_codec\<close> and \<open>finite_json\<close> what texts preserve between two nodes, and each is interpreted:
  \<open>digest32\<close> on \<^verbatim>\<open>Sum256\<close> itself, the others on the reference environments \<open>ref_env\<close>,
  \<open>plain_env\<close> and \<open>mirror_env\<close> and the codec \<open>ref_http\<close>, which
  the witnesses of the theorems use.

  \<^bold>\<open>Theories.\<close>
  \<^item> \<open>Prelude\<close>: bytes, outcomes, machine integers, numerals, list lemmas.
  \<^item> \<open>Base58\<close> (\<^verbatim>\<open>utils/base58.go\<close>), \<open>Utils\<close> (\<^verbatim>\<open>utils/index.go\<close>), \<open>Sha256\<close>, \<open>Float64\<close>: encodings and numbers. Each loop has its closed form, and
    decoding undoes encoding.
  \<^item> \<open>Ring_Queue\<close> (\<^verbatim>\<open>types/queue.go\<close>): the ring buffer implements the bounded queue of the locale \<open>bounded_fifo\<close>.
  \<^item> \<open>Chain_Types\<close> (\<^verbatim>\<open>types\<close>), \<open>Txn_Auth\<close>, \<open>Ref_Json\<close>: the data, its JSON form, signing and verifying; what a signature covers.
  \<^item> \<open>Merkle\<close> (\<^verbatim>\<open>core/merkle_tree.go\<close>): which paths verify, what a root determines.
  \<^item> \<open>Wallet_Address\<close> (\<^verbatim>\<open>wallet/wallet.go\<close>, \<^verbatim>\<open>global/variable.go\<close>): addresses, locks and groups agree.
  \<^item> \<open>Database\<close> (\<^verbatim>\<open>global/database.go\<close>, \<^verbatim>\<open>bolt_db.go\<close>, \<^verbatim>\<open>inherit_db.go\<close>): the operations on a bucket meet the contract \<open>idatabase\<close>; keys of heights.
  \<^item> \<open>Mempool\<close> (\<^verbatim>\<open>global/mempool\<close>): the pool meets the contract \<open>txn_pool\<close>; \<^verbatim>\<open>GetTxns\<close> is a topological order; \<^verbatim>\<open>ExpandTxnOutput\<close> ends.
  \<^item> \<open>Node_State\<close>, \<open>Blockchain\<close> (\<^verbatim>\<open>core/blockchain.go\<close>, \<^verbatim>\<open>core/blockhead.go\<close>), \<open>Chain_Invariant\<close>: the stored chain. \<open>chain_ok E g bs s\<close> says that the database
    of \<open>s\<close> holds exactly the chain \<open>bs\<close>; the readers return its blocks, the iterator ends, and \<^verbatim>\<open>AddBlock\<close> extends it or does nothing.
  \<^item> \<open>UTXO_Set\<close>, \<open>UTXO_Reindex\<close>, \<open>Txn_Creation\<close> (\<^verbatim>\<open>core/utxo_set.go\<close>): the bucket of unspent outputs refines a map from hashes to outputs;
    what \<^verbatim>\<open>Update\<close>, \<^verbatim>\<open>Reverse\<close>, \<^verbatim>\<open>Reindex\<close> do to it, and that a new transaction is balanced.
  \<^item> \<open>Mining\<close> (\<^verbatim>\<open>core/proof_of_work.go\<close>, mining in \<^verbatim>\<open>core/blockchain.go\<close>): the search for a nonce ends at the first that is valid, a mined batch verifies,
    and a new chain starts well-formed.
  \<^item> \<open>Network\<close> (\<^verbatim>\<open>network\<close>, \<^verbatim>\<open>global/known_nodes.go\<close>): reachable address books, the reach of gossip.
  \<^item> \<open>Sync\<close> (\<^verbatim>\<open>api/sync.go\<close>): a node adopts a longer chain of a peer.
  \<^item> \<open>Handlers\<close> (\<^verbatim>\<open>api/db.go\<close>, \<^verbatim>\<open>api/version.go\<close>, \<^verbatim>\<open>api/server.go\<close>): what requests of other nodes do.
  \<^item> \<open>Group_Frame\<close>: an operation on one group leaves the data of the others alone.
  \<^item> \<open>Two_Nodes\<close>: the client and the handlers of two nodes together (\<^verbatim>\<open>network/call.go\<close>). A node that synchronises with a longer chain has
    that chain afterwards, and a node without a chain joins.
  \<^item> \<open>Node_Network\<close>: what it is for a node to serve a chain of a group, and that each handler keeps the chains of the other groups.
  \<^item> \<open>Server\<close> (\<^verbatim>\<open>network/server.go\<close>, \<^verbatim>\<open>commands/sync.go\<close>): one round of each loop of the server, over all groups of the node.
  \<^item> \<open>Mining_Round\<close> (\<^verbatim>\<open>commands/mining.go\<close>): one round of the mining loop, from the pool to the stored block, and what it relays.
  \<^item> \<open>Reachable_Network\<close>: the step relation \<open>net_step\<close> of a network of nodes with settings of their own, which create chains, mine, restart, receive
    messages and synchronise, and the invariant of the states that it reaches by steps that return, for as long as blocks come from miners of the network.
  \<^item> \<open>Wallet_File\<close> (\<^verbatim>\<open>wallet/wallets.go\<close> and its two commands) and \<open>Commands\<close> (the other files of \<^verbatim>\<open>commands\<close>): what each command does to the node.
  \<^item> \<open>Set_Equivalence\<close>: the set of unspent outputs kept block by block is the one that \<^verbatim>\<open>Reindex\<close> computes from the whole chain.
  \<^item> \<open>Lock_Order\<close>, \<open>Node_Locks\<close> (\<^verbatim>\<open>global/mutex.go\<close> and every function that locks): what each operation locks and unlocks, as a program of its own; that
    the requests of other nodes and the rounds of the node respect one order of the mutexes and so never block each other, also when handlers other than
    \<^verbatim>\<open>GossipBlock\<close> panic, and where the code does not.
  \<^item> \<open>Http\<close> (\<^verbatim>\<open>routers/router.go\<close>, \<^verbatim>\<open>api/base.go\<close>, \<^verbatim>\<open>api/net.go\<close>, \<^verbatim>\<open>call\<close> of \<^verbatim>\<open>network/call.go\<close>): requests and answers as texts, and the functions that
    gossip. A peer that is asked over HTTP answers as \<open>Two_Nodes\<close> says, and a message of \<open>Handlers\<close> reaches the handlers of the nodes it is sent to.
  \<^item> \<open>Logging\<close> (\<^verbatim>\<open>log/log.go\<close>): the two mutexes of the log. It stands alone: the other theories leave log lines out.

  \<^bold>\<open>Bounds.\<close> Heights in \<open>chain_ok\<close> stay below \<open>2 ^ 24\<close>: the keys of larger heights are empty and the program exits when it stores one.
  Nonces stay below \<open>2 ^ 63 - 1\<close>, where the search stops. Nothing is cut off by fuel: loops over data are structural or have a measure, and the loops that
  may run forever (following previous hashes, expanding an output, asking other nodes) are partial functions whose value
  for not returning is \<open>Hang\<close>; the theorems about them say when they return. A call of another node waits for a handler that never returns, because
  \<^verbatim>\<open>http.Post\<close> has no time limit; so do bytes of a block that cannot be decoded, because \<^verbatim>\<open>PrintStack\<close> leaves a mutex of the log locked.

  \<^bold>\<open>Not modelled.\<close> Sleeping and formatting have no effect on the state. The definitions of what an operation computes take it as one step; what it does to
  mutexes is in \<open>Node_Locks\<close>, where data is left out. What other goroutines do while a node mines is a parameter of the search.
  The declarations of flags and the choice of a command are data for \<^verbatim>\<open>cobra\<close>; a flag is an argument or a field of the environment. The web server is
  \<^verbatim>\<open>beego\<close>: \<open>serve\<close> takes from it that a request goes to the handler of its path, and that a page comes back when the handler panics. A round of a loop that runs forever is a definition; the loop itself,
  which only repeats it, is not. The helpers of \<^verbatim>\<open>utils/index.go\<close> around gob and marshalling only call libraries. A nil pointer inside a list of transactions is
  not represented.
\<close>

end
